(* ===== verification/Ech_Prelude.thy ===== *)
theory Ech_Prelude
  imports Main "HOL-Library.Word" "HOL-Library.Sublist" "HOL-Library.Multiset"
    "HOL-Library.Code_Target_Nat"
begin

text \<open>
  Shared vocabulary of the development: the machine integers of the Rust code, the
  result type of fallible functions (\<open>error + 'a\<close>) with the sequencing that the \<open>?\<close>
  operator performs, the same for operations that also thread a state, and the
  generic lemmas on them that every component uses.
\<close>

section \<open>Machine integers\<close>

type_synonym u8 = "8 word"
type_synonym u16 = "16 word"
type_synonym u32 = "32 word"
type_synonym u64 = "64 word"
type_synonym u128 = "128 word"

text \<open>
  \<open>usize\<close> is kept as \<open>nat\<close> where the code only compares and adds lengths of things in
  memory; \<open>usize_limit\<close> is the bound that \<open>checked_add\<close> tests on the 64-bit targets the
  repository builds for.
\<close>

definition usize_limit :: nat where
  "usize_limit = 2 ^ 64"

definition usize_checked_add :: "nat \<Rightarrow> nat \<Rightarrow> nat option" where
  "usize_checked_add a b = (if a + b < usize_limit then Some (a + b) else None)"

definition saturating_add :: "'a::len word \<Rightarrow> 'a word \<Rightarrow> 'a word" where
  "saturating_add a b = (if a + b < a then - 1 else a + b)"

definition byte_of_char :: "char \<Rightarrow> u8" where
  "byte_of_char c = word_of_nat (of_char c)"

definition char_of_byte :: "u8 \<Rightarrow> char" where
  "char_of_byte b = char_of (unat b)"

definition bytes_of_str :: "string \<Rightarrow> u8 list" where
  "bytes_of_str s = map byte_of_char s"

definition str_of_bytes :: "u8 list \<Rightarrow> string" where
  "str_of_bytes bs = map char_of_byte bs"

section \<open>Fallible results\<close>

fun rbind :: "'e + 'a \<Rightarrow> ('a \<Rightarrow> 'e + 'b) \<Rightarrow> 'e + 'b" where
  "rbind (Inl e) f = Inl e"
| "rbind (Inr x) f = f x"

definition ok_or :: "'e \<Rightarrow> 'a option \<Rightarrow> 'e + 'a" where
  "ok_or e x = (case x of None \<Rightarrow> Inl e | Some y \<Rightarrow> Inr y)"

definition ensure :: "bool \<Rightarrow> 'e \<Rightarrow> 'e + unit" where
  "ensure b e = (if b then Inr () else Inl e)"

definition is_ok :: "'e + 'a \<Rightarrow> bool" where
  "is_ok r = (case r of Inl _ \<Rightarrow> False | Inr _ \<Rightarrow> True)"

named_theorems res_simps \<open>inversion and evaluation of fallible results\<close>

lemma rbind_eq_Inr [res_simps]:
  "rbind m f = Inr y \<longleftrightarrow> (\<exists>x. m = Inr x \<and> f x = Inr y)"
  by (cases m) auto

lemma rbind_eq_Inl [res_simps]:
  "rbind m f = Inl e \<longleftrightarrow> m = Inl e \<or> (\<exists>x. m = Inr x \<and> f x = Inl e)"
  by (cases m) auto

lemma rbind_split:
  "P (rbind m f) \<longleftrightarrow> (\<forall>e. m = Inl e \<longrightarrow> P (Inl e)) \<and> (\<forall>x. m = Inr x \<longrightarrow> P (f x))"
  by (cases m) auto

lemma rbind_cong [fundef_cong]:
  "m = m' \<Longrightarrow> (\<And>x. m' = Inr x \<Longrightarrow> f x = g x) \<Longrightarrow> rbind m f = rbind m' g"
  by (cases m') auto

lemma rbind_assoc: "rbind (rbind m f) g = rbind m (\<lambda>x. rbind (f x) g)"
  by (cases m) auto

lemma ok_or_eq [res_simps]:
  "ok_or e x = Inr y \<longleftrightarrow> x = Some y"
  "ok_or e x = Inl d \<longleftrightarrow> x = None \<and> d = e"
  by (auto simp: ok_or_def split: option.splits)

lemma ok_or_simps [simp]: "ok_or e None = Inl e" "ok_or e (Some y) = Inr y"
  by (auto simp: ok_or_def)

lemma ensure_eq [res_simps]:
  "ensure b e = Inr u \<longleftrightarrow> b"
  "ensure b e = Inl d \<longleftrightarrow> \<not> b \<and> d = e"
  by (auto simp: ensure_def)

lemma ensure_simps [simp]: "ensure True e = Inr ()" "ensure False e = Inl e"
  by (auto simp: ensure_def)

lemma is_ok_simps [simp]: "is_ok (Inl e) = False" "is_ok (Inr x) = True"
  by (auto simp: is_ok_def)

lemma is_ok_iff: "is_ok r \<longleftrightarrow> (\<exists>x. r = Inr x)"
  by (cases r) auto

section \<open>Fallible operations on a state\<close>

type_synonym ('s, 'e, 'a) io = "'s \<Rightarrow> ('e + 'a) \<times> 's"

definition io_return :: "'a \<Rightarrow> ('s, 'e, 'a) io" where
  "io_return x s = (Inr x, s)"

definition io_fail :: "'e \<Rightarrow> ('s, 'e, 'a) io" where
  "io_fail e s = (Inl e, s)"

definition io_bind :: "('s, 'e, 'a) io \<Rightarrow> ('a \<Rightarrow> ('s, 'e, 'b) io) \<Rightarrow> ('s, 'e, 'b) io" where
  "io_bind m f s = (case m s of (Inl e, s') \<Rightarrow> (Inl e, s') | (Inr x, s') \<Rightarrow> f x s')"

definition io_lift :: "'e + 'a \<Rightarrow> ('s, 'e, 'a) io" where
  "io_lift r s = (r, s)"

named_theorems io_simps \<open>evaluation and inversion of stateful fallible operations\<close>

lemma io_return_apply [simp, io_simps]: "io_return x s = (Inr x, s)"
  by (simp add: io_return_def)

lemma io_fail_apply [simp, io_simps]: "io_fail e s = (Inl e, s)"
  by (simp add: io_fail_def)

lemma io_lift_apply [simp, io_simps]: "io_lift r s = (r, s)"
  by (simp add: io_lift_def)

lemma io_bind_Inr [simp]: "m s = (Inr x, s') \<Longrightarrow> io_bind m f s = f x s'"
  by (simp add: io_bind_def)

lemma io_bind_Inl [simp]: "m s = (Inl e, s') \<Longrightarrow> io_bind m f s = (Inl e, s')"
  by (simp add: io_bind_def)

lemma io_bind_eq_Inr [io_simps]:
  "io_bind m f s = (Inr y, t) \<longleftrightarrow> (\<exists>x s'. m s = (Inr x, s') \<and> f x s' = (Inr y, t))"
  by (auto simp: io_bind_def split: prod.splits sum.splits)

lemma io_bind_eq_Inl [io_simps]:
  "io_bind m f s = (Inl e, t) \<longleftrightarrow>
     m s = (Inl e, t) \<or> (\<exists>x s'. m s = (Inr x, s') \<and> f x s' = (Inl e, t))"
  by (auto simp: io_bind_def split: prod.splits sum.splits)

lemma io_bindE:
  assumes "io_bind m f s = (r, t)"
  obtains (fail) e where "m s = (Inl e, t)" "r = Inl e"
    | (step) x s' where "m s = (Inr x, s')" "f x s' = (r, t)"
  using assms by (auto simp: io_bind_def split: prod.splits sum.splits)

text \<open>Keeping the error of a step as a value, as a \<open>Result\<close> that is matched on later.\<close>

definition io_try :: "('s, 'e, 'a) io \<Rightarrow> ('s, 'f, 'e + 'a) io" where
  "io_try m s = (Inr (fst (m s)), snd (m s))"

text \<open>Giving the error of a step another form.\<close>

definition io_map_err :: "('e \<Rightarrow> 'f) \<Rightarrow> ('s, 'e, 'a) io \<Rightarrow> ('s, 'f, 'a) io" where
  "io_map_err h m s = (case m s of (Inl e, s') \<Rightarrow> (Inl (h e), s') | (Inr x, s') \<Rightarrow> (Inr x, s'))"

lemma io_map_err_Inr [simp]: "m s = (Inr x, s') \<Longrightarrow> io_map_err h m s = (Inr x, s')"
  by (simp add: io_map_err_def)

lemma io_map_err_Inl [simp]: "m s = (Inl e, s') \<Longrightarrow> io_map_err h m s = (Inl (h e), s')"
  by (simp add: io_map_err_def)

lemma io_map_err_eq [io_simps]:
  "io_map_err h m s = (Inr x, t) \<longleftrightarrow> m s = (Inr x, t)"
  "io_map_err h m s = (Inl d, t) \<longleftrightarrow> (\<exists>e. m s = (Inl e, t) \<and> d = h e)"
  by (auto simp: io_map_err_def split: prod.splits sum.splits)

section \<open>What operations keep\<close>

definition preserves :: "('s \<Rightarrow> bool) \<Rightarrow> ('s, 'e, 'a) io \<Rightarrow> bool" where
  "preserves I m \<longleftrightarrow> (\<forall>s. I s \<longrightarrow> I (snd (m s)))"

named_theorems keeps \<open>rules that an operation preserves a predicate on the state\<close>

lemma preservesI: "(\<And>s. I s \<Longrightarrow> I (snd (m s))) \<Longrightarrow> preserves I m"
  by (simp add: preserves_def)

lemma preservesD: "preserves I m \<Longrightarrow> m s = (r, t) \<Longrightarrow> I s \<Longrightarrow> I t"
  by (metis preserves_def snd_conv)

lemma preserves_pure [keeps]:
  "preserves I (io_return x)" "preserves I (io_fail e)" "preserves I (io_lift r)"
  by (simp_all add: preserves_def)

lemma preserves_bind [keeps]:
  "preserves I m \<Longrightarrow> (\<And>x. preserves I (f x)) \<Longrightarrow> preserves I (io_bind m f)"
  by (simp add: preserves_def io_bind_def split: prod.splits sum.splits)
    (metis snd_conv)

lemma preserves_try [keeps]: "preserves I m \<Longrightarrow> preserves I (io_try m)"
  by (simp add: preserves_def io_try_def)

lemma preserves_cases [keeps]:
  "(b \<Longrightarrow> preserves I m) \<Longrightarrow> (\<not> b \<Longrightarrow> preserves I n) \<Longrightarrow> preserves I (if b then m else n)"
  "preserves I g \<Longrightarrow> (\<And>x. preserves I (h x)) \<Longrightarrow> preserves I (case opt of None \<Rightarrow> g | Some x \<Rightarrow> h x)"
  "(\<And>e. preserves I (k e)) \<Longrightarrow> (\<And>y. preserves I (l y)) \<Longrightarrow>
     preserves I (case res of Inl e \<Rightarrow> k e | Inr y \<Rightarrow> l y)"
  "(\<And>a b. preserves I (p a b)) \<Longrightarrow> preserves I (case pr of (a, b) \<Rightarrow> p a b)"
  by (auto split: option.splits sum.splits prod.splits)

section \<open>Bytes and characters\<close>

lemma of_char_less_256 [simp]: "(of_char c :: nat) < 256"
  using of_char_mod_256 [of c] by (metis mod_less_divisor zero_less_numeral)

lemma char_of_byte_of_char [simp]: "char_of_byte (byte_of_char c) = c"
proof -
  have "unat (word_of_nat (of_char c) :: u8) = of_char c"
    by (simp add: unat_of_nat)
  then show ?thesis
    by (simp add: char_of_byte_def byte_of_char_def)
qed

lemma byte_of_char_of_byte [simp]: "byte_of_char (char_of_byte b) = b"
proof -
  have "unat b < 256" using unsigned_less [of b] by simp
  then show ?thesis
    by (simp add: char_of_byte_def byte_of_char_def)
qed

lemma byte_of_char_inject [simp]: "byte_of_char c = byte_of_char d \<longleftrightarrow> c = d"
  by (metis char_of_byte_of_char)

lemma str_of_bytes_of_str [simp]: "str_of_bytes (bytes_of_str s) = s"
  by (simp add: str_of_bytes_def bytes_of_str_def comp_def)

lemma bytes_of_str_of_bytes [simp]: "bytes_of_str (str_of_bytes bs) = bs"
  by (simp add: str_of_bytes_def bytes_of_str_def comp_def)

lemma length_bytes_of_str [simp]: "length (bytes_of_str s) = length s"
  by (simp add: bytes_of_str_def)

lemma length_str_of_bytes [simp]: "length (str_of_bytes bs) = length bs"
  by (simp add: str_of_bytes_def)

lemma bytes_of_str_append [simp]: "bytes_of_str (s @ t) = bytes_of_str s @ bytes_of_str t"
  by (simp add: bytes_of_str_def)

lemma str_of_bytes_append [simp]: "str_of_bytes (a @ b) = str_of_bytes a @ str_of_bytes b"
  by (simp add: str_of_bytes_def)

lemma bytes_of_str_Nil [simp]: "bytes_of_str [] = []" "str_of_bytes [] = []"
  by (simp_all add: bytes_of_str_def str_of_bytes_def)

section \<open>Arithmetic at a width\<close>

lemma usize_checked_add_Some [res_simps]:
  "usize_checked_add a b = Some c \<longleftrightarrow> a + b < usize_limit \<and> c = a + b"
  by (auto simp: usize_checked_add_def)

lemma usize_checked_add_None [res_simps]:
  "usize_checked_add a b = None \<longleftrightarrow> usize_limit \<le> a + b"
  by (auto simp: usize_checked_add_def)

text \<open>\<open>x.saturating_add(1)\<close> bounds the same values as \<open>x + 1\<close> does without overflow.\<close>

lemma saturating_add_1:
  "unat (saturating_add a 1) = min (unat a + 1) (2 ^ LENGTH('a) - 1)"
  for a :: "'a::len word"
proof -
  have lt: "unat a < 2 ^ LENGTH('a)" by (rule unsigned_less)
  show ?thesis
  proof (cases "unat a + 1 < 2 ^ LENGTH('a)")
    case True
    then have u: "unat (a + 1) = unat a + 1"
      by (simp add: unat_word_ariths)
    then have "\<not> a + 1 < a" by (simp add: word_less_nat_alt)
    with u True show ?thesis by (simp add: saturating_add_def)
  next
    case False
    with lt have e: "unat a + 1 = 2 ^ LENGTH('a)" by linarith
    then have z: "unat (a + 1) = 0" by (simp add: unat_word_ariths)
    have "(2::nat) \<le> 2 ^ LENGTH('a)"
      using power_increasing [of 1 "LENGTH('a)" "2::nat"] by (simp add: Suc_le_eq)
    with e have "0 < unat a" by linarith
    then have "a + 1 < a" using z by (simp add: word_less_nat_alt)
    then show ?thesis using e
      by (simp add: saturating_add_def unsigned_minus_1_eq_mask mask_eq_exp_minus_1)
  qed
qed

section \<open>Big-endian digits\<close>

text \<open>
  \<open>octets()\<close>, \<open>segments()\<close>, \<open>to_be_bytes\<close> and their inverses are all the digits of a number
  to a base, most significant first.
\<close>

fun base_digits :: "nat \<Rightarrow> nat \<Rightarrow> nat \<Rightarrow> nat list" where
  "base_digits b 0 n = []"
| "base_digits b (Suc k) n = base_digits b k (n div b) @ [n mod b]"

definition of_digits :: "nat \<Rightarrow> nat list \<Rightarrow> nat" where
  "of_digits b ds = foldl (\<lambda>a d. a * b + d) 0 ds"

definition to_be :: "nat \<Rightarrow> 'b::len word \<Rightarrow> 'a::len word list" where
  "to_be k w = map word_of_nat (base_digits (2 ^ LENGTH('a)) k (unat w))"

definition from_be :: "'a::len word list \<Rightarrow> 'b::len word" where
  "from_be ws = word_of_nat (of_digits (2 ^ LENGTH('a)) (map unat ws))"

lemma length_base_digits [simp]: "length (base_digits b k n) = k"
  by (induction b k n rule: base_digits.induct) auto

lemma length_to_be [simp]: "length (to_be k w) = k"
  by (simp add: to_be_def)

lemma base_digits_less: "0 < b \<Longrightarrow> d \<in> set (base_digits b k n) \<Longrightarrow> d < b"
  by (induction b k n rule: base_digits.induct) auto

lemma of_digits_snoc [simp]:
  "of_digits b [] = 0"
  "of_digits b (ds @ [d]) = of_digits b ds * b + d"
  by (simp_all add: of_digits_def)

lemma of_digits_base_digits: "of_digits b (base_digits b k n) = n mod b ^ k"
proof (induction b k n rule: base_digits.induct)
  case (1 b n)
  then show ?case by simp
next
  case (2 b k n)
  then show ?case by (simp add: mod_mult2_eq mult.commute)
qed

lemma of_digits_less:
  "0 < b \<Longrightarrow> \<forall>d \<in> set ds. d < b \<Longrightarrow> of_digits b ds < b ^ length ds"
proof (induction ds rule: rev_induct)
  case Nil
  then show ?case by simp
next
  case (snoc d ds)
  then have le: "of_digits b ds + 1 \<le> b ^ length ds" and d: "d < b" by auto
  have "(of_digits b ds + 1) * b \<le> b ^ length ds * b" using le by (rule mult_le_mono1)
  with d show ?case by (simp add: mult.commute)
qed

lemma base_digits_of_digits:
  "\<forall>d \<in> set ds. d < b \<Longrightarrow> base_digits b (length ds) (of_digits b ds) = ds"
  by (induction ds rule: rev_induct) auto

lemma unat_of_nat_small [simp]:
  "n < 2 ^ LENGTH('a) \<Longrightarrow> unat (word_of_nat n :: 'a::len word) = n"
  by (simp add: unat_of_nat)

lemma map_unat_to_be:
  "map unat (to_be k w :: 'a::len word list) = base_digits (2 ^ LENGTH('a)) k (unat w)"
proof -
  have "unat (word_of_nat d :: 'a word) = d" if "d \<in> set (base_digits (2 ^ LENGTH('a)) k (unat w))" for d
    using base_digits_less [OF _ that] by simp
  then show ?thesis by (simp add: to_be_def comp_def map_idI)
qed

lemma from_be_to_be [simp]:
  assumes "LENGTH('b) = LENGTH('a) * k"
  shows "from_be (to_be k w :: 'a::len word list) = (w :: 'b::len word)"
proof -
  have "unat w < 2 ^ LENGTH('b)" by (rule unsigned_less)
  then have "unat w < (2 ^ LENGTH('a)) ^ k" by (simp only: assms power_mult)
  then show ?thesis
    by (simp add: from_be_def map_unat_to_be of_digits_base_digits)
qed

lemma to_be_from_be [simp]:
  assumes "length ws = k" and "LENGTH('b) = LENGTH('a) * k"
  shows "to_be k (from_be (ws :: 'a::len word list) :: 'b::len word) = ws"
proof -
  have lt: "\<forall>d \<in> set (map unat ws). d < 2 ^ LENGTH('a)" by (auto simp: unsigned_less)
  then have "of_digits (2 ^ LENGTH('a)) (map unat ws) < (2 ^ LENGTH('a)) ^ length (map unat ws)"
    by (intro of_digits_less) auto
  then have "of_digits (2 ^ LENGTH('a)) (map unat ws) < 2 ^ LENGTH('b)"
    using assms by (simp only: length_map power_mult)
  then have "unat (from_be ws :: 'b word) = of_digits (2 ^ LENGTH('a)) (map unat ws)"
    by (simp add: from_be_def)
  then have "(to_be k (from_be ws :: 'b word) :: 'a word list) = map word_of_nat (map unat ws)"
    using base_digits_of_digits [OF lt] assms(1) by (simp add: to_be_def)
  then show ?thesis by (simp add: comp_def)
qed

lemma to_be_eq_Nil [simp]: "to_be k w = [] \<longleftrightarrow> k = 0"
  by (metis length_0_conv length_to_be)

lemma unat_u8_less: "unat (w :: u8) < 256"
  using unsigned_less [of w] by simp

lemma unat_u16_less: "unat (w :: u16) < 65536"
  using unsigned_less [of w] by simp

text \<open>Updating one element of a list changes a count of its elements by that element only.\<close>

lemma length_filter_update:
  "i < length xs \<Longrightarrow> length (filter P (xs[i := y])) + of_bool (P (xs ! i)) = length (filter P xs) + of_bool (P y)"
proof (induction xs arbitrary: i)
  case (Cons x xs)
  then show ?case by (cases i) auto
qed simp

end
