(* ===== verification/Rust_Str.thy ===== *)
theory Rust_Str
  imports Ech_Prelude
begin

text \<open>
  The operations of Rust's \<open>str\<close> and of its number parsing and printing that the
  repository uses. A string is its UTF-8 byte sequence, one Isabelle \<open>char\<close> per byte, so
  that \<open>length\<close> is \<open>str::len\<close>. White space is Unicode white space as in \<open>char::is_whitespace\<close>;
  on valid UTF-8 the encoding of a white space character can only match at a character
  boundary, so that the byte-wise definitions below agree with the character-wise ones.
\<close>

section \<open>White space\<close>

text \<open>The UTF-8 encodings of the characters with property \<open>White_Space\<close>.\<close>

definition unicode_ws :: "string list" where
  "unicode_ws =
     map (\<lambda>c. [c]) [CHR 0x09, CHR 0x0A, CHR 0x0B, CHR 0x0C, CHR 0x0D, CHR 0x20]
   @ map (\<lambda>c. [CHR 0xC2, c]) [CHR 0x85, CHR 0xA0]
   @ [[CHR 0xE1, CHR 0x9A, CHR 0x80]]
   @ map (\<lambda>c. [CHR 0xE2, CHR 0x80, c])
       [CHR 0x80, CHR 0x81, CHR 0x82, CHR 0x83, CHR 0x84, CHR 0x85, CHR 0x86, CHR 0x87,
        CHR 0x88, CHR 0x89, CHR 0x8A, CHR 0xA8, CHR 0xA9, CHR 0xAF]
   @ [[CHR 0xE2, CHR 0x81, CHR 0x9F], [CHR 0xE3, CHR 0x80, CHR 0x80]]"

definition ws_len :: "string \<Rightarrow> nat" where
  "ws_len s = (case find (\<lambda>w. prefix w s) unicode_ws of None \<Rightarrow> 0 | Some w \<Rightarrow> length w)"

definition ws_len_end :: "string \<Rightarrow> nat" where
  "ws_len_end s = (case find (\<lambda>w. suffix w s) unicode_ws of None \<Rightarrow> 0 | Some w \<Rightarrow> length w)"

lemma unicode_ws_nonempty: "w \<in> set unicode_ws \<Longrightarrow> w \<noteq> []"
  by (auto simp: unicode_ws_def)

lemma ws_len_pos: "ws_len s \<noteq> 0 \<Longrightarrow> s \<noteq> []"
  using unicode_ws_nonempty
  by (auto simp: ws_len_def find_Some_iff split: option.splits)

lemma ws_len_end_pos: "ws_len_end s \<noteq> 0 \<Longrightarrow> s \<noteq> []"
  using unicode_ws_nonempty
  by (auto simp: ws_len_end_def find_Some_iff split: option.splits)

lemma ws_len_Nil [simp]: "ws_len [] = 0" "ws_len_end [] = 0"
  using ws_len_pos ws_len_end_pos by blast+

function trim_start :: "string \<Rightarrow> string" where
  "trim_start s = (if ws_len s = 0 then s else trim_start (drop (ws_len s) s))"
  by pat_completeness auto
termination
  by (relation "measure length") (auto intro!: diff_less)

function trim_end :: "string \<Rightarrow> string" where
  "trim_end s = (if ws_len_end s = 0 then s else trim_end (take (length s - ws_len_end s) s))"
  by pat_completeness auto
termination
  by (relation "measure length") (auto intro!: diff_less)

declare trim_start.simps [simp del] trim_end.simps [simp del]

text \<open>\<open>str::trim\<close>.\<close>

definition str_trim :: "string \<Rightarrow> string" where
  "str_trim s = trim_end (trim_start s)"

text \<open>Trimming is idempotent.\<close>

lemma ws_len_0: "ws_len s = 0 \<longleftrightarrow> (\<forall>w \<in> set unicode_ws. \<not> prefix w s)"
  using unicode_ws_nonempty
  by (auto simp: ws_len_def find_None_iff find_Some_iff split: option.splits)

lemma ws_len_trim_start: "ws_len (trim_start s) = 0"
  by (induction s rule: trim_start.induct) (simp add: trim_start.simps)

lemma ws_len_end_trim_end: "ws_len_end (trim_end s) = 0"
  by (induction s rule: trim_end.induct) (simp add: trim_end.simps)

lemma trim_end_prefix: "prefix (trim_end s) s"
proof (induction s rule: trim_end.induct)
  case (1 s)
  then show ?case
    by (subst trim_end.simps) (auto intro: prefix_order.trans take_is_prefix)
qed

lemma str_trim_idem: "str_trim (str_trim s) = str_trim s"
proof -
  have "ws_len (str_trim s) = 0"
    using ws_len_trim_start [of s] trim_end_prefix [of "trim_start s"]
    unfolding ws_len_0 str_trim_def by (meson prefix_order.trans)
  then have "trim_start (str_trim s) = str_trim s" by (simp add: trim_start.simps)
  then show ?thesis
    by (simp add: str_trim_def [of "str_trim s"])
      (simp add: str_trim_def trim_end.simps [of "trim_end _"] ws_len_end_trim_end)
qed

text \<open>Strings without white space; printable characters have none.\<close>

definition ws_free :: "string \<Rightarrow> bool" where
  "ws_free s \<longleftrightarrow> (\<forall>w \<in> set unicode_ws. \<not> sublist w s)"

lemma ws_free_sublist: "ws_free s \<Longrightarrow> sublist t s \<Longrightarrow> ws_free t"
  unfolding ws_free_def by (meson sublist_order.order_trans)

lemma ws_free_trim: "ws_free s \<Longrightarrow> str_trim s = s"
proof -
  assume free: "ws_free s"
  then have "ws_len s = 0" unfolding ws_len_0 ws_free_def by blast
  moreover have "ws_len_end s = 0"
    using free unicode_ws_nonempty unfolding ws_len_end_def ws_free_def
    by (auto simp: find_Some_iff split: option.splits)
  ultimately show "str_trim s = s" by (simp add: str_trim_def trim_start.simps trim_end.simps)
qed

definition graph :: "char \<Rightarrow> bool" where
  "graph c \<longleftrightarrow> 33 \<le> (of_char c :: nat) \<and> (of_char c :: nat) < 127"

lemma ws_not_graph: "w \<in> set unicode_ws \<Longrightarrow> \<exists>c \<in> set w. \<not> graph c"
proof -
  have "list_all (\<lambda>w. list_ex (\<lambda>c. \<not> graph c) w) unicode_ws" by code_simp
  then show "w \<in> set unicode_ws \<Longrightarrow> \<exists>c \<in> set w. \<not> graph c" by (auto simp: list_all_iff list_ex_iff)
qed

lemma ws_free_graph: "list_all graph s \<Longrightarrow> ws_free s"
  unfolding ws_free_def list_all_iff by (meson set_mono_sublist subsetD ws_not_graph)

text \<open>\<open>str::split_whitespace\<close>: the maximal runs without white space.\<close>

function ws_pieces :: "string \<Rightarrow> string \<Rightarrow> string list" where
  "ws_pieces acc s =
     (if s = [] then [rev acc]
      else if ws_len s \<noteq> 0 then rev acc # ws_pieces [] (drop (ws_len s) s)
      else ws_pieces (hd s # acc) (tl s))"
  by pat_completeness auto
termination
  by (relation "measure (\<lambda>(acc, s). length s)") auto

declare ws_pieces.simps [simp del]

definition split_whitespace :: "string \<Rightarrow> string list" where
  "split_whitespace s = filter (\<lambda>w. w \<noteq> []) (ws_pieces [] s)"

text \<open>\<open>u8::is_ascii_whitespace\<close> and \<open>char::is_ascii_digit\<close>.\<close>

definition is_ascii_whitespace :: "char \<Rightarrow> bool" where
  "is_ascii_whitespace c \<longleftrightarrow>
     c \<in> {CHR 0x20, CHR 0x09, CHR 0x0A, CHR 0x0C, CHR 0x0D}"

definition is_ascii_digit :: "char \<Rightarrow> bool" where
  "is_ascii_digit c \<longleftrightarrow> 48 \<le> (of_char c :: nat) \<and> (of_char c :: nat) \<le> 57"

section \<open>Splitting\<close>

fun str_split :: "char \<Rightarrow> string \<Rightarrow> string list" where
  "str_split d [] = [[]]"
| "str_split d (c # cs) =
     (if c = d then [] # str_split d cs
      else (case str_split d cs of [] \<Rightarrow> [[c]] | w # ws \<Rightarrow> (c # w) # ws))"

text \<open>\<open>split("\r\n")\<close>.\<close>

abbreviation CR :: char where "CR \<equiv> CHR 0x0D"
abbreviation LF :: char where "LF \<equiv> CHR 0x0A"

abbreviation crlf :: string where "crlf \<equiv> [CR, LF]"

fun split_crlf :: "string \<Rightarrow> string list" where
  "split_crlf [] = [[]]"
| "split_crlf [c] = [[c]]"
| "split_crlf (c # d # cs) =
     (if c = CR \<and> d = LF then [] # split_crlf cs
      else (case split_crlf (d # cs) of [] \<Rightarrow> [[c]] | w # ws \<Rightarrow> (c # w) # ws))"

text \<open>\<open>split_once\<close> with a character, with a string, and \<open>rsplit_once\<close>.\<close>

fun split_once :: "char \<Rightarrow> string \<Rightarrow> (string \<times> string) option" where
  "split_once d [] = None"
| "split_once d (c # cs) =
     (if c = d then Some ([], cs)
      else map_option (\<lambda>(a, b). (c # a, b)) (split_once d cs))"

fun split_once_str :: "string \<Rightarrow> string \<Rightarrow> (string \<times> string) option" where
  "split_once_str p [] = (if p = [] then Some ([], []) else None)"
| "split_once_str p (c # cs) =
     (if prefix p (c # cs) then Some ([], drop (length p) (c # cs))
      else map_option (\<lambda>(a, b). (c # a, b)) (split_once_str p cs))"

definition rsplit_once :: "char \<Rightarrow> string \<Rightarrow> (string \<times> string) option" where
  "rsplit_once d s = map_option (\<lambda>(a, b). (rev b, rev a)) (split_once d (rev s))"

text \<open>\<open>strip_prefix\<close>, \<open>strip_suffix\<close>, \<open>str::find\<close> of a character, \<open>trim_end_matches\<close>.\<close>

definition strip_prefix :: "'a list \<Rightarrow> 'a list \<Rightarrow> 'a list option" where
  "strip_prefix p s = (if prefix p s then Some (drop (length p) s) else None)"

definition strip_suffix :: "'a list \<Rightarrow> 'a list \<Rightarrow> 'a list option" where
  "strip_suffix p s = (if suffix p s then Some (take (length s - length p) s) else None)"

lemma strip_prefix_append [simp]: "strip_prefix p (p @ s) = Some s"
  by (simp add: strip_prefix_def)

fun str_find :: "char \<Rightarrow> string \<Rightarrow> nat option" where
  "str_find d [] = None"
| "str_find d (c # cs) = (if c = d then Some 0 else map_option Suc (str_find d cs))"

definition trim_end_matches :: "char \<Rightarrow> string \<Rightarrow> string" where
  "trim_end_matches d s = rev (dropWhile (\<lambda>c. c = d) (rev s))"

text \<open>
  \<open>str::lines\<close>: pieces ended by a line feed, with one carriage return before it removed;
  the text after the last line feed is a line when it is not empty.
\<close>

definition chop_cr :: "string \<Rightarrow> string" where
  "chop_cr l = (case strip_suffix [CR] l of None \<Rightarrow> l | Some k \<Rightarrow> k)"

fun join_lines :: "string list \<Rightarrow> string list" where
  "join_lines [] = []"
| "join_lines [l] = (if l = [] then [] else [l])"
| "join_lines (l # m # ls) = chop_cr l # join_lines (m # ls)"

definition str_lines :: "string \<Rightarrow> string list" where
  "str_lines s = join_lines (str_split LF s)"

section \<open>ASCII case\<close>

definition to_ascii_lower :: "char \<Rightarrow> char" where
  "to_ascii_lower c =
     (if 65 \<le> (of_char c :: nat) \<and> (of_char c :: nat) \<le> 90
      then char_of ((of_char c :: nat) + 32) else c)"

definition to_ascii_lowercase :: "string \<Rightarrow> string" where
  "to_ascii_lowercase s = map to_ascii_lower s"

definition eq_ignore_ascii_case :: "string \<Rightarrow> string \<Rightarrow> bool" where
  "eq_ignore_ascii_case a b \<longleftrightarrow> to_ascii_lowercase a = to_ascii_lowercase b"

section \<open>UTF-8\<close>

definition utf8_cont :: "u8 \<Rightarrow> bool" where
  "utf8_cont b \<longleftrightarrow> 0x80 \<le> b \<and> b \<le> 0xBF"

definition utf8_second :: "u8 \<Rightarrow> u8 \<Rightarrow> bool" where
  "utf8_second a b \<longleftrightarrow>
     (if a = 0xE0 then 0xA0 \<le> b \<and> b \<le> 0xBF
      else if a = 0xED then 0x80 \<le> b \<and> b \<le> 0x9F
      else if a = 0xF0 then 0x90 \<le> b \<and> b \<le> 0xBF
      else if a = 0xF4 then 0x80 \<le> b \<and> b \<le> 0x8F
      else utf8_cont b)"

fun utf8_valid :: "u8 list \<Rightarrow> bool" where
  "utf8_valid [] = True"
| "utf8_valid (a # xs) =
     (if a \<le> 0x7F then utf8_valid xs
      else if 0xC2 \<le> a \<and> a \<le> 0xDF then
        (case xs of b # ys \<Rightarrow> utf8_cont b \<and> utf8_valid ys | [] \<Rightarrow> False)
      else if 0xE0 \<le> a \<and> a \<le> 0xEF then
        (case xs of b # c # ys \<Rightarrow> utf8_second a b \<and> utf8_cont c \<and> utf8_valid ys | _ \<Rightarrow> False)
      else if 0xF0 \<le> a \<and> a \<le> 0xF4 then
        (case xs of b # c # d # ys \<Rightarrow>
           utf8_second a b \<and> utf8_cont c \<and> utf8_cont d \<and> utf8_valid ys | _ \<Rightarrow> False)
      else False)"

text \<open>\<open>String::from_utf8\<close> and \<open>str::from_utf8\<close>, the error dropped.\<close>

definition from_utf8 :: "u8 list \<Rightarrow> string option" where
  "from_utf8 bs = (if utf8_valid bs then Some (str_of_bytes bs) else None)"

section \<open>Numbers\<close>

text \<open>\<open>char::to_digit\<close> for radix 10 and 16.\<close>

definition to_digit :: "nat \<Rightarrow> char \<Rightarrow> nat option" where
  "to_digit radix c =
     (let n = (of_char c :: nat);
          v = (if 48 \<le> n \<and> n \<le> 57 then n - 48
               else if 97 \<le> n \<and> n \<le> 122 then n - 87
               else if 65 \<le> n \<and> n \<le> 90 then n - 55 else radix)
      in if v < radix then Some v else None)"

text \<open>\<open>u16::from_str\<close>: an optional plus sign, then digits, with overflow an error.\<close>

fun parse_digits :: "nat \<Rightarrow> nat \<Rightarrow> string \<Rightarrow> nat option" where
  "parse_digits limit acc [] = Some acc"
| "parse_digits limit acc (c # cs) =
     (case to_digit 10 c of
        None \<Rightarrow> None
      | Some d \<Rightarrow>
          (if limit \<le> acc * 10 then None
           else if limit \<le> acc * 10 + d then None
           else parse_digits limit (acc * 10 + d) cs))"

definition parse_u16 :: "string \<Rightarrow> u16 option" where
  "parse_u16 s =
     (case s of
        [] \<Rightarrow> None
      | c # cs \<Rightarrow>
          (if c = CHR ''+'' then
             (if cs = [] then None else map_option word_of_nat (parse_digits (2 ^ 16) 0 cs))
           else map_option word_of_nat (parse_digits (2 ^ 16) 0 s)))"

text \<open>Printing with \<open>{}\<close> and with \<open>{:x}\<close>.\<close>

definition digit_char :: "nat \<Rightarrow> char" where
  "digit_char d = (if d < 10 then char_of (48 + d) else char_of (87 + d))"

fun show_radix :: "nat \<Rightarrow> nat \<Rightarrow> string" where
  "show_radix r n =
     (if n < r \<or> r < 2 then [digit_char n] else show_radix r (n div r) @ [digit_char (n mod r)])"

declare show_radix.simps [simp del]

abbreviation show_dec :: "nat \<Rightarrow> string" where "show_dec \<equiv> show_radix 10"
abbreviation show_hex :: "nat \<Rightarrow> string" where "show_hex \<equiv> show_radix 16"

section \<open>Lemmas on printed numbers\<close>

lemma to_digit_digit_char [simp]:
  "d < r \<Longrightarrow> r \<le> 16 \<Longrightarrow> to_digit r (digit_char d) = Some d"
  by (auto simp: to_digit_def digit_char_def Let_def)

lemma show_radix_small: "n < r \<Longrightarrow> show_radix r n = [digit_char n]"
  by (subst show_radix.simps) simp

lemma show_radix_big:
  "r \<le> n \<Longrightarrow> 2 \<le> r \<Longrightarrow> show_radix r n = show_radix r (n div r) @ [digit_char (n mod r)]"
  by (subst show_radix.simps) simp

lemma show_radix_induct [case_names small big]:
  assumes "2 \<le> (r::nat)"
    and "\<And>n. n < r \<Longrightarrow> P n" and "\<And>n. r \<le> n \<Longrightarrow> P (n div r) \<Longrightarrow> P n"
  shows "P n"
proof (induction n rule: less_induct)
  case (less n)
  show ?case
  proof (cases "n < r")
    case False
    with assms(1) have "n div r < n" by (intro div_less_dividend) auto
    with less False show ?thesis by (auto intro: assms(3))
  qed (rule assms(2))
qed

lemma show_radix_nonempty [simp]: "show_radix r n \<noteq> []"
  by (subst show_radix.simps) simp

lemma set_show_radix:
  assumes "2 \<le> r"
  shows "set (show_radix r n) \<subseteq> digit_char ` {..<r}"
proof (induction n rule: show_radix_induct [OF assms])
  case (1 n)
  then show ?case by (simp add: show_radix_small)
next
  case (2 n)
  then show ?case using assms by (simp add: show_radix_big)
qed

lemma show_radix_digits:
  assumes "2 \<le> r" "c \<in> set (show_radix r n)"
  obtains d where "d < r" "c = digit_char d"
  using set_show_radix [OF assms(1)] assms(2) by blast

lemma graph_show_radix:
  assumes "2 \<le> r" "r \<le> 16"
  shows "list_all graph (show_radix r n)"
proof -
  have "list_all (\<lambda>d. graph (digit_char d)) [0..<16]" by code_simp
  then show ?thesis
    using assms(2) by (auto simp: list_all_iff elim!: show_radix_digits [OF assms(1)])
qed

lemma length_show_radix:
  assumes "2 \<le> r"
  shows "n < r ^ k \<Longrightarrow> 0 < k \<Longrightarrow> length (show_radix r n) \<le> k"
proof (induction n arbitrary: k rule: show_radix_induct [OF assms])
  case (1 n)
  then show ?case by (simp add: show_radix_small)
next
  case (2 n)
  then obtain j where k: "k = Suc j" by (cases k) auto
  with 2 have "j \<noteq> 0" by (cases j) auto
  moreover from 2 k have "n div r < r ^ j"
    by (simp add: less_mult_imp_div_less mult.commute)
  ultimately have "length (show_radix r (n div r)) \<le> j" using 2 by simp
  with 2 k assms show ?case by (simp add: show_radix_big)
qed

lemma digit_char_0 [simp]: "digit_char d = CHR ''0'' \<longleftrightarrow> d = 0" if "d < 16"
proof -
  have "of_char (digit_char d) = (if d < 10 then 48 + d else 87 + d)"
    using that by (simp add: digit_char_def)
  moreover have "of_char (CHR ''0'') = (48::nat)" by simp
  moreover have "char_of (48::nat) = CHR ''0''" by code_simp
  ultimately show ?thesis by (auto simp: digit_char_def)
qed

lemma hd_show_radix:
  assumes "2 \<le> r" "r \<le> 16"
  shows "hd (show_radix r n) = CHR ''0'' \<longleftrightarrow> n = 0"
proof (induction n rule: show_radix_induct [OF assms(1)])
  case (1 n)
  then show ?case using assms by (simp add: show_radix_small)
next
  case (2 n)
  then have "n div r \<noteq> 0" using assms by (simp add: div_eq_0_iff)
  with 2 show ?case using assms by (auto simp: show_radix_big)
qed

lemma parse_digits_snoc:
  "parse_digits l a (cs @ [c]) =
     (case parse_digits l a cs of None \<Rightarrow> None | Some b \<Rightarrow> parse_digits l b [c])"
  by (induction l a cs rule: parse_digits.induct) (auto split: option.splits)

lemma parse_digits_show_dec: "n < l \<Longrightarrow> parse_digits l 0 (show_dec n) = Some n"
proof (induction n rule: show_radix_induct [where r = 10, case_names two small big])
  case two
  then show ?case by simp
next
  case (small n)
  then show ?case by (simp add: show_radix_small)
next
  case (big n)
  then have "parse_digits l 0 (show_dec (n div 10)) = Some (n div 10)" by simp
  moreover have "n div 10 * 10 < l" "n div 10 * 10 + n mod 10 = n"
    using big by auto
  ultimately show ?case using big by (simp add: show_radix_big parse_digits_snoc)
qed

text \<open>\<open>u16\<close> values survive printing and parsing.\<close>

lemma show_dec_no_plus: "show_dec n \<noteq> CHR ''+'' # cs"
proof
  assume "show_dec n = CHR ''+'' # cs"
  then have "CHR ''+'' \<in> set (show_dec n)" by simp
  then obtain d where "d < 10" "CHR ''+'' = digit_char d"
    by (rule show_radix_digits [rotated]) auto
  then have "to_digit 10 (CHR ''+'') = Some d" by simp
  then show False by (simp add: to_digit_def Let_def)
qed

lemma parse_u16_show_dec [simp]: "parse_u16 (show_dec (unat (w :: u16))) = Some w"
proof -
  obtain c cs where s: "show_dec (unat w) = c # cs"
    using show_radix_nonempty [of 10 "unat w"] by (cases "show_dec (unat w)") auto
  have "unat w < 2 ^ 16" using unsigned_less [of w] by simp
  then have "parse_digits (2 ^ 16) 0 (c # cs) = Some (unat w)"
    by (metis parse_digits_show_dec s)
  moreover have "c \<noteq> CHR ''+''" using s show_dec_no_plus by blast
  ultimately show ?thesis
    using s by (simp add: parse_u16_def del: parse_digits.simps)
qed

end
