(* ===== verification/Ip_Addr.thy ===== *)
theory Ip_Addr
  imports Rust_Str
begin

text \<open>
  \<open>std::net::IpAddr\<close> as the repository uses it: the textual parser of \<open>core::net::parser\<close>
  behind \<open>str::parse::<IpAddr>()\<close>, the \<open>Display\<close> form behind \<open>to_string()\<close>, the octet and
  segment views, and the classification predicates of \<open>Ipv4Addr\<close> and \<open>Ipv6Addr\<close>.
  The main result is that parsing reads back what printing wrote, for both families.
\<close>

unbundle bit_operations_syntax

datatype ip_addr = V4 u32 | V6 u128

section \<open>Octets and segments\<close>

abbreviation v4_octets :: "u32 \<Rightarrow> u8 list" where
  "v4_octets ip \<equiv> to_be 4 ip"

abbreviation v6_segments :: "u128 \<Rightarrow> u16 list" where
  "v6_segments ip \<equiv> to_be 8 ip"

section \<open>Classification\<close>

definition ipv4_is_private :: "u32 \<Rightarrow> bool" where
  "ipv4_is_private ip =
     (let a = v4_octets ip ! 0; b = v4_octets ip ! 1 in
      a = 10 \<or> (a = 172 \<and> 16 \<le> b \<and> b \<le> 31) \<or> (a = 192 \<and> b = 168))"

definition ipv4_is_loopback :: "u32 \<Rightarrow> bool" where
  "ipv4_is_loopback ip = (v4_octets ip ! 0 = 127)"

definition ipv4_is_link_local :: "u32 \<Rightarrow> bool" where
  "ipv4_is_link_local ip = (v4_octets ip ! 0 = 169 \<and> v4_octets ip ! 1 = 254)"

definition ipv4_is_multicast :: "u32 \<Rightarrow> bool" where
  "ipv4_is_multicast ip = (224 \<le> v4_octets ip ! 0 \<and> v4_octets ip ! 0 \<le> 239)"

definition ipv4_is_broadcast :: "u32 \<Rightarrow> bool" where
  "ipv4_is_broadcast ip = (v4_octets ip = [255, 255, 255, 255])"

definition ipv4_is_documentation :: "u32 \<Rightarrow> bool" where
  "ipv4_is_documentation ip =
     (take 3 (v4_octets ip) \<in> {[192, 0, 2], [198, 51, 100], [203, 0, 113]})"

definition ipv4_is_unspecified :: "u32 \<Rightarrow> bool" where
  "ipv4_is_unspecified ip = (v4_octets ip = [0, 0, 0, 0])"

definition ipv6_is_loopback :: "u128 \<Rightarrow> bool" where
  "ipv6_is_loopback ip = (v6_segments ip = [0, 0, 0, 0, 0, 0, 0, 1])"

definition ipv6_is_multicast :: "u128 \<Rightarrow> bool" where
  "ipv6_is_multicast ip = (v6_segments ip ! 0 AND 0xff00 = 0xff00)"

definition ipv6_is_unspecified :: "u128 \<Rightarrow> bool" where
  "ipv6_is_unspecified ip = (v6_segments ip = [0, 0, 0, 0, 0, 0, 0, 0])"

section \<open>The parser\<close>

text \<open>
  A parser takes the remaining input and returns a value with the rest; \<open>None\<close> stands for
  \<open>read_atomically\<close> having restored the input.
\<close>

fun read_given_char :: "char \<Rightarrow> string \<Rightarrow> string option" where
  "read_given_char d [] = None"
| "read_given_char d (c # cs) = (if c = d then Some cs else None)"

definition read_separator ::
  "char \<Rightarrow> nat \<Rightarrow> (string \<Rightarrow> ('a \<times> string) option) \<Rightarrow> string \<Rightarrow> ('a \<times> string) option" where
  "read_separator sep i p s =
     (if 0 < i then (case read_given_char sep s of None \<Rightarrow> None | Some r \<Rightarrow> p r) else p s)"

fun read_digits :: "nat \<Rightarrow> nat \<Rightarrow> nat \<Rightarrow> nat \<Rightarrow> string \<Rightarrow> (nat \<times> nat \<times> string) option" where
  "read_digits radix max_digits digit_count acc [] = Some (digit_count, acc, [])"
| "read_digits radix max_digits digit_count acc (c # cs) =
     (case to_digit radix c of
        None \<Rightarrow> Some (digit_count, acc, c # cs)
      | Some d \<Rightarrow>
          (if max_digits < digit_count + 1 then None
           else read_digits radix max_digits (digit_count + 1) (acc * radix + d) cs))"

definition read_number ::
  "nat \<Rightarrow> nat \<Rightarrow> bool \<Rightarrow> nat \<Rightarrow> string \<Rightarrow> (nat \<times> string) option" where
  "read_number radix max_digits allow_zero_prefix limit s =
     (case read_digits radix max_digits 0 0 s of
        None \<Rightarrow> None
      | Some (digit_count, v, r) \<Rightarrow>
          (if digit_count = 0 then None
           else if \<not> allow_zero_prefix \<and> hd s = CHR ''0'' \<and> 1 < digit_count then None
           else if v < limit then Some (v, r) else None))"

fun read_v4_groups :: "nat \<Rightarrow> nat \<Rightarrow> string \<Rightarrow> (nat list \<times> string) option" where
  "read_v4_groups i 0 s = Some ([], s)"
| "read_v4_groups i (Suc k) s =
     (case read_separator CHR ''.'' i (read_number 10 3 False 256) s of
        None \<Rightarrow> None
      | Some (g, r) \<Rightarrow>
          (case read_v4_groups (Suc i) k r of
             None \<Rightarrow> None
           | Some (gs, r') \<Rightarrow> Some (g # gs, r')))"

definition read_ipv4_addr :: "string \<Rightarrow> (u32 \<times> string) option" where
  "read_ipv4_addr s =
     (case read_v4_groups 0 4 s of
        None \<Rightarrow> None
      | Some (gs, r) \<Rightarrow> Some (from_be (map word_of_nat gs :: u8 list), r))"

fun read_groups :: "nat \<Rightarrow> nat \<Rightarrow> string \<Rightarrow> u16 list \<times> bool \<times> string" where
  "read_groups i 0 s = ([], False, s)"
| "read_groups i (Suc k) s =
     (case (if 0 < k then read_separator CHR '':'' i read_ipv4_addr s else None) of
        Some (v4, r) \<Rightarrow> (to_be 2 v4, True, r)
      | None \<Rightarrow>
          (case read_separator CHR '':'' i (read_number 16 4 True 65536) s of
             None \<Rightarrow> ([], False, s)
           | Some (g, r) \<Rightarrow>
               (case read_groups (Suc i) k r of (gs, ipv4, r') \<Rightarrow> (word_of_nat g # gs, ipv4, r'))))"

definition read_ipv6_addr :: "string \<Rightarrow> (u128 \<times> string) option" where
  "read_ipv6_addr s =
     (case read_groups 0 8 s of (head, head_ipv4, r) \<Rightarrow>
        if length head = 8 then Some (from_be head, r)
        else if head_ipv4 then None
        else (case read_given_char CHR '':'' r of
                None \<Rightarrow> None
              | Some r1 \<Rightarrow>
                  (case read_given_char CHR '':'' r1 of
                     None \<Rightarrow> None
                   | Some r2 \<Rightarrow>
                       (case read_groups 0 (8 - (length head + 1)) r2 of (tail, _, r3) \<Rightarrow>
                          Some (from_be (head
                                  @ replicate (8 - length head - length tail) 0 @ tail), r3)))))"

text \<open>\<open>str::parse::<IpAddr>()\<close>: the whole input must be read.\<close>

definition parse_ip :: "string \<Rightarrow> ip_addr option" where
  "parse_ip s =
     (case (case read_ipv4_addr s of
              Some (v, r) \<Rightarrow> Some (V4 v, r)
            | None \<Rightarrow> (case read_ipv6_addr s of
                         Some (v, r) \<Rightarrow> Some (V6 v, r) | None \<Rightarrow> None)) of
        Some (ip, r) \<Rightarrow> (if r = [] then Some ip else None)
      | None \<Rightarrow> None)"

section \<open>Printing\<close>

fun join_with :: "string \<Rightarrow> string list \<Rightarrow> string" where
  "join_with sep [] = []"
| "join_with sep [x] = x"
| "join_with sep (x # y # xs) = x @ sep @ join_with sep (y # xs)"

definition show_ipv4 :: "u32 \<Rightarrow> string" where
  "show_ipv4 ip = join_with ''.'' (map (\<lambda>b. show_dec (unat b)) (v4_octets ip))"

text \<open>The longest run of zero segments, the first one among equals: (start, length).\<close>

fun zero_run :: "nat \<Rightarrow> nat \<times> nat \<Rightarrow> nat \<times> nat \<Rightarrow> u16 list \<Rightarrow> nat \<times> nat" where
  "zero_run i (cs, cl) (ls, ll) [] = (ls, ll)"
| "zero_run i (cs, cl) (ls, ll) (x # xs) =
     (if x = 0 then
        (let cs' = (if cl = 0 then i else cs); cl' = cl + 1 in
         zero_run (Suc i) (cs', cl') (if ll < cl' then (cs', cl') else (ls, ll)) xs)
      else zero_run (Suc i) (0, 0) (ls, ll) xs)"

definition fmt_subslice :: "u16 list \<Rightarrow> string" where
  "fmt_subslice xs = join_with '':'' (map (\<lambda>x. show_hex (unat x)) xs)"

definition show_ipv6 :: "u128 \<Rightarrow> string" where
  "show_ipv6 ip =
     (let segs = v6_segments ip in
      if take 6 segs = [0, 0, 0, 0, 0, 0xffff]
      then ''::ffff:'' @ show_ipv4 (from_be (drop 6 segs))
      else (case zero_run 0 (0, 0) (0, 0) segs of (start, len) \<Rightarrow>
              if 1 < len
              then fmt_subslice (take start segs) @ ''::'' @ fmt_subslice (drop (start + len) segs)
              else fmt_subslice segs))"

fun show_ip :: "ip_addr \<Rightarrow> string" where
  "show_ip (V4 ip) = show_ipv4 ip"
| "show_ip (V6 ip) = show_ipv6 ip"

section \<open>Reading numbers\<close>

definition stops :: "nat \<Rightarrow> string \<Rightarrow> bool" where
  "stops radix r \<longleftrightarrow> r = [] \<or> to_digit radix (hd r) = None"

lemma stops_simps [simp]:
  "stops radix []" "stops radix (c # cs) \<longleftrightarrow> to_digit radix c = None"
  by (auto simp: stops_def)

lemma to_digit_punct [simp]:
  "to_digit 10 CHR ''.'' = None" "to_digit 10 CHR '':'' = None"
  "to_digit 16 CHR ''.'' = None" "to_digit 16 CHR '':'' = None"
  "to_digit 10 CHR '']'' = None" "to_digit 16 CHR '']'' = None"
  by (auto simp: to_digit_def)

lemma read_digits_append:
  assumes "\<forall>c \<in> set s. to_digit radix c \<noteq> None" "k + length s \<le> m"
  shows "read_digits radix m k a (s @ rest) =
    read_digits radix m (k + length s) (foldl (\<lambda>a c. a * radix + the (to_digit radix c)) a s) rest"
  using assms by (induction s arbitrary: k a) auto

lemma read_digits_stop: "stops radix rest \<Longrightarrow> read_digits radix m k a rest = Some (k, a, rest)"
  by (cases rest) auto

lemma to_digit_show_radix:
  assumes "2 \<le> r" "r \<le> 16" "c \<in> set (show_radix r n)"
  shows "to_digit r c \<noteq> None"
  using show_radix_digits [OF assms(1,3)] assms(2) by (metis option.discI to_digit_digit_char)

lemma foldl_show_radix:
  assumes "2 \<le> r" "r \<le> 16"
  shows "foldl (\<lambda>a c. a * r + the (to_digit r c)) 0 (show_radix r n) = n"
proof (induction n rule: show_radix_induct [OF assms(1)])
  case (1 n)
  then show ?case using assms by (simp add: show_radix_small)
next
  case (2 n)
  then show ?case using assms by (simp add: show_radix_big)
qed

lemma read_number_show:
  assumes "2 \<le> r" "r \<le> 16" "n < limit" "n < r ^ m" "0 < m" "stops r rest"
  shows "read_number r m z limit (show_radix r n @ rest) = Some (n, rest)"
proof -
  have len: "length (show_radix r n) \<le> m"
    using assms by (intro length_show_radix) auto
  have "read_digits r m 0 0 (show_radix r n @ rest) = Some (length (show_radix r n), n, rest)"
    using assms len by (simp add: read_digits_append to_digit_show_radix foldl_show_radix
        read_digits_stop)
  moreover have "length (show_radix r n) = 1" if "hd (show_radix r n) = CHR ''0''"
    using that assms hd_show_radix [OF assms(1,2), of n] by (simp add: show_radix_small)
  ultimately show ?thesis
    using assms(3) by (auto simp: read_number_def)
qed

lemma read_number_no_digit: "stops r s \<Longrightarrow> read_number r m z limit s = None"
  by (simp add: read_number_def read_digits_stop)

text \<open>A number that is read ends before a character that is not a digit.\<close>

lemma read_digits_rest:
  "read_digits radix m k a s = Some (k', a', r) \<Longrightarrow> r = dropWhile (\<lambda>c. to_digit radix c \<noteq> None) s"
  by (induction radix m k a s rule: read_digits.induct) (auto split: option.splits if_splits)

lemma read_number_rest:
  "read_number radix m z limit s = Some (v, r) \<Longrightarrow>
     r = dropWhile (\<lambda>c. to_digit radix c \<noteq> None) s"
  by (auto simp: read_number_def dest: read_digits_rest split: option.splits if_splits)

lemma join_with_Cons: "join_with sep (x # xs) = x @ concat (map (\<lambda>y. sep @ y) xs)"
  by (induction xs arbitrary: x) auto



section \<open>IPv4 round trip\<close>

lemma read_v4_groups_sep:
  "\<forall>b \<in> set bs. b < 256 \<Longrightarrow> stops 10 rest \<Longrightarrow>
   read_v4_groups (Suc i) (length bs) (concat (map (\<lambda>b. ''.'' @ show_dec b) bs) @ rest) = Some (bs, rest)"
proof (induction bs arbitrary: i)
  case Nil
  then show ?case by simp
next
  case (Cons b bs)
  then have "stops 10 (concat (map (\<lambda>b. ''.'' @ show_dec b) bs) @ rest)"
    by (cases bs) auto
  with Cons show ?case by (simp add: read_separator_def read_number_show)
qed

lemma read_v4_groups_show:
  assumes "\<forall>b \<in> set bs. b < 256" "stops 10 rest" "bs \<noteq> []"
  shows "read_v4_groups 0 (length bs) (join_with ''.'' (map show_dec bs) @ rest) = Some (bs, rest)"
proof (cases bs)
  case (Cons b cs)
  have "stops 10 (concat (map (\<lambda>b. ''.'' @ show_dec b) cs) @ rest)"
    using assms(2) by (cases cs) auto
  with Cons assms read_v4_groups_sep [of cs rest 0] show ?thesis
    by (simp add: join_with_Cons read_separator_def read_number_show comp_def)
qed (use assms in simp)

lemma read_ipv4_show:
  assumes "stops 10 rest"
  shows "read_ipv4_addr (show_ipv4 ip @ rest) = Some (ip, rest)"
proof -
  let ?bs = "map unat (v4_octets ip)"
  have "\<forall>b \<in> set ?bs. b < 256"
    by (auto simp: unat_u8_less)
  then have "read_v4_groups 0 (length ?bs) (join_with ''.'' (map show_dec ?bs) @ rest)
      = Some (?bs, rest)"
    using assms by (intro read_v4_groups_show) auto
  then show ?thesis
    by (simp add: read_ipv4_addr_def show_ipv4_def comp_def)
qed

lemma parse_show_ipv4: "parse_ip (show_ipv4 ip) = Some (V4 ip)"
  using read_ipv4_show [of "[]" ip] by (simp add: parse_ip_def)

section \<open>IPv6 round trip\<close>

text \<open>No IPv4 address starts where hexadecimal digits are followed by something but a dot.\<close>

lemma read_v4_groups_4:
  "read_v4_groups 0 4 s =
     (case read_number 10 3 False 256 s of
        None \<Rightarrow> None
      | Some (g, r) \<Rightarrow>
          (case read_v4_groups (Suc 0) 3 r of None \<Rightarrow> None | Some (gs, r') \<Rightarrow> Some (g # gs, r')))"
proof -
  have "(4::nat) = Suc 3" by simp
  then show ?thesis by (simp only: read_v4_groups.simps) (simp add: read_separator_def)
qed

lemma read_v4_groups_tail_dot:
  "read_v4_groups (Suc i) (Suc k) s \<noteq> None \<Longrightarrow> \<exists>r. s = CHR ''.'' # r"
  by (cases s) (auto simp: read_separator_def split: if_splits)

lemma read_ipv4_needs_dot:
  assumes "read_ipv4_addr s \<noteq> None"
  shows "\<exists>r. dropWhile (\<lambda>c. to_digit 10 c \<noteq> None) s = CHR ''.'' # r"
proof -
  from assms obtain gs r where "read_v4_groups 0 4 s = Some (gs, r)"
    by (auto simp: read_ipv4_addr_def split: option.splits)
  then obtain v t where n: "read_number 10 3 False 256 s = Some (v, t)"
    and g: "read_v4_groups (Suc 0) 3 t \<noteq> None"
    by (auto simp: read_v4_groups_4 split: option.splits)
  have "(3::nat) = Suc 2" by simp
  with g have "\<exists>r. t = CHR ''.'' # r" by (metis read_v4_groups_tail_dot)
  with read_number_rest [OF n] show ?thesis by simp
qed

lemma dropWhile_prefix_stop:
  "x \<in> set xs \<Longrightarrow> \<not> P x \<Longrightarrow> dropWhile P (xs @ ys) \<noteq> [] \<and> hd (dropWhile P (xs @ ys)) \<in> set xs"
  by (induction xs) auto

lemma digit_char_not_dot: "d < 16 \<Longrightarrow> digit_char d \<noteq> CHR ''.''"
  by (metis option.discI to_digit_digit_char to_digit_punct(3) order_refl)

text \<open>What follows a group: a colon, the closing bracket of a socket address or the end.\<close>

definition colon_or_end :: "string \<Rightarrow> bool" where
  "colon_or_end r \<longleftrightarrow> r = [] \<or> hd r = CHR '':'' \<or> hd r = CHR '']''"

lemma colon_or_end_simps [simp]: "colon_or_end []" "colon_or_end (c # cs) \<longleftrightarrow> c = CHR '':'' \<or> c = CHR '']''"
  by (auto simp: colon_or_end_def)

lemma colon_or_end_stops: "colon_or_end r \<Longrightarrow> stops 16 r"
  by (cases r) auto

lemma read_ipv4_hex:
  assumes "colon_or_end rest"
  shows "read_ipv4_addr (show_hex n @ rest) = None"
proof (rule ccontr)
  assume "read_ipv4_addr (show_hex n @ rest) \<noteq> None"
  then obtain r where d: "dropWhile (\<lambda>c. to_digit 10 c \<noteq> None) (show_hex n @ rest) = CHR ''.'' # r"
    using read_ipv4_needs_dot by blast
  show False
  proof (cases "\<forall>c \<in> set (show_hex n). to_digit 10 c \<noteq> None")
    case True
    then have "dropWhile (\<lambda>c. to_digit 10 c \<noteq> None) (show_hex n @ rest)
        = dropWhile (\<lambda>c. to_digit 10 c \<noteq> None) rest"
      by (intro dropWhile_append2) auto
    with d assms show False by (cases rest) auto
  next
    case False
    then have "CHR ''.'' \<in> set (show_hex n)"
      using d dropWhile_prefix_stop [of _ "show_hex n" "\<lambda>c. to_digit 10 c \<noteq> None" rest] by auto
    then show False
      by (rule show_radix_digits [rotated]) (use digit_char_not_dot in auto)
  qed
qed

lemma read_ipv4_colon: "colon_or_end r \<Longrightarrow> read_ipv4_addr r = None"
  by (cases r) (auto simp: read_ipv4_addr_def read_v4_groups_4 read_number_no_digit)

text \<open>What follows an address; what follows its groups: that or the \<open>::\<close>.\<close>

definition addr_ends :: "string \<Rightarrow> bool" where
  "addr_ends r \<longleftrightarrow> r = [] \<or> hd r = CHR '']''"

definition double_colon_or_end :: "string \<Rightarrow> bool" where
  "double_colon_or_end r \<longleftrightarrow> addr_ends r \<or> (\<exists>t. r = ''::'' @ t)"

lemma addr_ends_simps [simp]: "addr_ends []" "addr_ends (c # cs) \<longleftrightarrow> c = CHR '']''"
  by (auto simp: addr_ends_def)

lemma addr_ends_double: "addr_ends r \<Longrightarrow> double_colon_or_end r"
  by (simp add: double_colon_or_end_def)

lemma addr_ends_stops: "addr_ends r \<Longrightarrow> stops 10 r"
  by (cases r) auto

lemma double_colon_colon: "double_colon_or_end r \<Longrightarrow> colon_or_end r"
  by (cases r) (auto simp: double_colon_or_end_def)

lemma read_groups_stop:
  assumes "double_colon_or_end r"
  shows "read_groups i k r = ([], False, r)"
proof (cases "r = []")
  case False
  with assms obtain c cs where r: "r = c # cs" "c = CHR '']'' \<or> (c = CHR '':'' \<and> (\<exists>t. cs = CHR '':'' # t))"
    by (cases r) (auto simp: double_colon_or_end_def)
  then show ?thesis
    by (cases k) (auto simp: read_separator_def read_ipv4_colon read_number_no_digit)
qed (cases k; simp add: read_separator_def read_ipv4_colon read_number_no_digit)

lemma read_groups_sep:
  assumes "double_colon_or_end rest"
  shows "length gs \<le> k \<Longrightarrow>
    read_groups (Suc i) k (concat (map (\<lambda>g. '':'' @ show_hex (unat g)) gs) @ rest) = (gs, False, rest)"
proof (induction gs arbitrary: i k)
  case Nil
  then show ?case by (simp add: read_groups_stop assms)
next
  case (Cons g gs)
  then obtain j where k: "k = Suc j" by (cases k) auto
  let ?t = "concat (map (\<lambda>g. '':'' @ show_hex (unat g)) gs) @ rest"
  have t: "colon_or_end ?t"
    using double_colon_colon [OF assms] by (cases gs) auto
  have "read_number 16 4 True 65536 (show_hex (unat g) @ ?t) = Some (unat g, ?t)"
    using t unat_u16_less [of g] by (intro read_number_show) (auto intro: colon_or_end_stops)
  moreover have "read_ipv4_addr (show_hex (unat g) @ ?t) = None"
    using t by (rule read_ipv4_hex)
  ultimately show ?case
    using Cons k by (cases "j = 0") (simp_all add: read_separator_def)
qed

lemma read_groups_show:
  assumes "double_colon_or_end rest" "length gs \<le> k" "gs \<noteq> []"
  shows "read_groups 0 k (fmt_subslice gs @ rest) = (gs, False, rest)"
proof -
  obtain g hs where gs: "gs = g # hs" using assms(3) by (cases gs) auto
  then obtain j where k: "k = Suc j" using assms(2) by (cases k) auto
  let ?t = "concat (map (\<lambda>g. '':'' @ show_hex (unat g)) hs) @ rest"
  have f: "fmt_subslice gs @ rest = show_hex (unat g) @ ?t"
    by (simp add: fmt_subslice_def gs join_with_Cons comp_def)
  have t: "colon_or_end ?t"
    using double_colon_colon [OF assms(1)] by (cases hs) auto
  have "read_number 16 4 True 65536 (show_hex (unat g) @ ?t) = Some (unat g, ?t)"
    using t unat_u16_less [of g] by (intro read_number_show) (auto intro: colon_or_end_stops)
  moreover have "read_ipv4_addr (show_hex (unat g) @ ?t) = None"
    using t by (rule read_ipv4_hex)
  moreover have "read_groups (Suc 0) j ?t = (hs, False, rest)"
    using assms gs k by (intro read_groups_sep) auto
  ultimately show ?thesis
    unfolding f using gs k assms(2) by (cases "j = 0") (simp_all add: read_separator_def)
qed

lemma read_groups_fmt:
  "double_colon_or_end rest \<Longrightarrow> length gs \<le> k \<Longrightarrow>
   read_groups 0 k (fmt_subslice gs @ rest) = (gs, False, rest)"
  using read_groups_show [of rest gs k] read_groups_stop [of rest 0 k]
  by (cases "gs = []") (auto simp: fmt_subslice_def)

text \<open>The run that is elided consists of zeros.\<close>

definition zero_block :: "u16 list \<Rightarrow> nat \<Rightarrow> nat \<Rightarrow> bool" where
  "zero_block segs start len \<longleftrightarrow>
     start + len \<le> length segs \<and> (\<forall>j. start \<le> j \<longrightarrow> j < start + len \<longrightarrow> segs ! j = 0)"

lemma zero_block_extend:
  assumes "zero_block segs cs cl" "cl \<noteq> 0 \<longrightarrow> cs + cl = i" "i < length segs" "segs ! i = 0"
  shows "zero_block segs (if cl = 0 then i else cs) (cl + 1)"
  using assms less_Suc_eq by (auto simp: zero_block_def)

lemma zero_run_block:
  assumes "zero_run i (cs, cl) (ls, ll) xs = (s, l)" "xs = drop i segs"
    and "zero_block segs ls ll" "zero_block segs cs cl" "cl \<noteq> 0 \<longrightarrow> cs + cl = i"
  shows "zero_block segs s l"
  using assms
proof (induction xs arbitrary: i cs cl ls ll)
  case Nil
  then show ?case by simp
next
  case (Cons x xs)
  have i: "i < length segs" using Cons.prems(2) by (metis drop_all leI list.discI)
  then have "drop i segs = segs ! i # drop (Suc i) segs" by (rule Cons_nth_drop_Suc [symmetric])
  with Cons.prems(2) have x: "segs ! i = x" and xs: "xs = drop (Suc i) segs" by auto
  show ?case
  proof (cases "x = 0")
    case True
    define cs' cl' where "cs' = (if cl = 0 then i else cs)" and "cl' = cl + 1"
    have e: "cl' \<noteq> 0 \<longrightarrow> cs' + cl' = Suc i" using Cons.prems(5) by (auto simp: cs'_def cl'_def)
    have b: "zero_block segs cs' cl'"
      unfolding cs'_def cl'_def using Cons.prems(4,5) i x True by (intro zero_block_extend) auto
    have r: "zero_run (Suc i) (cs', cl') (if ll < cl' then (cs', cl') else (ls, ll)) xs = (s, l)"
      using Cons.prems(1) unfolding cs'_def cl'_def
      by (simp only: zero_run.simps Let_def True simp_thms if_True)
    show ?thesis
    proof (cases "ll < cl'")
      case True
      with r show ?thesis using Cons.IH [OF _ xs b b e] by simp
    next
      case False
      with r show ?thesis using Cons.IH [OF _ xs Cons.prems(3) b e] by simp
    qed
  next
    case False
    then show ?thesis
      using Cons.IH [OF _ xs Cons.prems(3), of 0 0] Cons.prems(1) by (simp add: zero_block_def)
  qed
qed

lemma zero_block_elide:
  assumes "zero_block segs s l"
  shows "take s segs @ replicate l 0 @ drop (s + l) segs = segs"
proof (rule nth_equalityI)
  show "length (take s segs @ replicate l 0 @ drop (s + l) segs) = length segs"
    using assms by (simp add: zero_block_def)
next
  fix j
  assume "j < length (take s segs @ replicate l 0 @ drop (s + l) segs)"
  then show "(take s segs @ replicate l 0 @ drop (s + l) segs) ! j = segs ! j"
    using assms by (auto simp: zero_block_def nth_append)
qed

lemma read_ipv4_fmt:
  assumes "colon_or_end rest"
  shows "read_ipv4_addr (fmt_subslice gs @ rest) = None"
proof (cases gs)
  case Nil
  then show ?thesis using assms by (simp add: fmt_subslice_def read_ipv4_colon)
next
  case (Cons g hs)
  have "colon_or_end (concat (map (\<lambda>g. '':'' @ show_hex (unat g)) hs) @ rest)"
    using assms by (cases hs) auto
  then have "read_ipv4_addr (show_hex (unat g) @
      (concat (map (\<lambda>g. '':'' @ show_hex (unat g)) hs) @ rest)) = None"
    by (rule read_ipv4_hex)
  then show ?thesis by (simp add: fmt_subslice_def Cons join_with_Cons comp_def)
qed

lemma read_ipv6_elided:
  assumes "length head + length tail < 8" "addr_ends r"
  shows "read_ipv6_addr (fmt_subslice head @ ''::'' @ fmt_subslice tail @ r) =
    Some (from_be (head @ replicate (8 - length head - length tail) 0 @ tail), r)"
proof -
  have "read_groups 0 8 (fmt_subslice head @ ''::'' @ fmt_subslice tail @ r)
      = (head, False, ''::'' @ fmt_subslice tail @ r)"
    using assms(1) by (intro read_groups_fmt) (auto simp: double_colon_or_end_def)
  moreover have "read_groups 0 (8 - (length head + 1)) (fmt_subslice tail @ r) = (tail, False, r)"
    using assms by (intro read_groups_fmt) (auto simp: addr_ends_double)
  ultimately show ?thesis
    using assms(1) by (simp add: read_ipv6_addr_def)
qed

lemma read_ipv6_full:
  assumes "length segs = 8" "addr_ends r"
  shows "read_ipv6_addr (fmt_subslice segs @ r) = Some (from_be segs, r)"
  using assms(1) read_groups_fmt [OF addr_ends_double [OF assms(2)], of segs 8]
  by (simp add: read_ipv6_addr_def)

lemma read_ipv6_mapped:
  assumes "addr_ends r"
  shows "read_ipv6_addr (''::ffff:'' @ show_ipv4 v @ r) =
     Some (from_be (replicate 5 0 @ [0xffff :: u16] @ to_be 2 v), r)"
proof -
  let ?r = "'':'' @ show_ipv4 v @ r"
  have f: "''ffff'' = show_hex 65535" by code_simp
  have n: "read_number 16 4 True 65536 (show_hex 65535 @ ?r) = Some (65535, ?r)"
    by (rule read_number_show) auto
  have h: "read_ipv4_addr (show_hex 65535 @ ?r) = None"
    by (rule read_ipv4_hex) simp
  have v: "read_ipv4_addr (show_ipv4 v @ r) = Some (v, r)"
    using addr_ends_stops [OF assms] by (rule read_ipv4_show)
  have "(6::nat) = Suc 5" by simp
  with v have g: "read_groups (Suc 0) 6 ?r = (to_be 2 v, True, r)"
    by (simp only: read_groups.simps) (simp add: read_separator_def)
  have "(7::nat) = Suc 6" by simp
  with n h g have "read_groups 0 7 (show_hex 65535 @ ?r) = (0xffff # to_be 2 v, True, r)"
    by (simp only: read_groups.simps) (simp add: read_separator_def)
  then have t: "read_groups 0 7 (''ffff:'' @ show_ipv4 v @ r) = (0xffff # to_be 2 v, True, r)"
    by (simp flip: f)
  have "read_groups 0 8 (''::'' @ ''ffff:'' @ show_ipv4 v @ r) = ([], False, ''::'' @ ''ffff:'' @ show_ipv4 v @ r)"
    by (rule read_groups_stop) (simp add: double_colon_or_end_def)
  then show ?thesis using t by (simp add: read_ipv6_addr_def)
qed

text \<open>An IPv6 address is read as it was printed, alone or in brackets, and not as an IPv4 address.\<close>

lemma read_ipv6_show:
  assumes "addr_ends r"
  shows "read_ipv6_addr (show_ipv6 ip @ r) = Some (ip, r) \<and> read_ipv4_addr (show_ipv6 ip @ r) = None"
proof -
  let ?segs = "v6_segments ip"
  obtain s l where z: "zero_run 0 (0, 0) (0, 0) ?segs = (s, l)" by fastforce
  have b: "zero_block ?segs s l"
    using zero_run_block [OF z] by (simp add: zero_block_def)
  have fb: "from_be ?segs = ip" by simp
  consider (mapped) "take 6 ?segs = [0, 0, 0, 0, 0, 0xffff]"
    | (elided) "take 6 ?segs \<noteq> [0, 0, 0, 0, 0, 0xffff]" "1 < l"
    | (full) "take 6 ?segs \<noteq> [0, 0, 0, 0, 0, 0xffff]" "\<not> 1 < l"
    by blast
  then show ?thesis
  proof cases
    case mapped
    have "?segs = take 6 ?segs @ drop 6 ?segs" by (simp only: append_take_drop_id)
    moreover have "[0, 0, 0, 0, 0, 0xffff] = replicate 5 0 @ [0xffff :: u16]" by code_simp
    ultimately have segs: "?segs = replicate 5 0 @ [0xffff] @ drop 6 ?segs"
      using mapped by (metis append_assoc)
    let ?v = "from_be (drop 6 ?segs) :: u32"
    have "(to_be 2 ?v :: u16 list) = drop 6 ?segs" by (rule to_be_from_be) auto
    with segs fb have "from_be (replicate 5 0 @ [0xffff] @ (to_be 2 ?v :: u16 list)) = ip"
      by metis
    then have "read_ipv6_addr (''::ffff:'' @ show_ipv4 ?v @ r) = Some (ip, r)"
      by (simp only: read_ipv6_mapped [OF assms])
    moreover have "read_ipv4_addr (''::ffff:'' @ show_ipv4 ?v @ r) = None"
      by (rule read_ipv4_colon) simp
    ultimately show ?thesis using mapped by (simp add: show_ipv6_def Let_def)
  next
    case elided
    let ?head = "take s ?segs" and ?tail = "drop (s + l) ?segs"
    have len: "length ?head = s" "length ?tail = 8 - (s + l)" "s + l \<le> 8"
      using b by (auto simp: zero_block_def)
    then have l: "8 - length ?head - length ?tail = l" by simp
    have "read_ipv6_addr (fmt_subslice ?head @ ''::'' @ fmt_subslice ?tail @ r)
        = Some (from_be (?head @ replicate (8 - length ?head - length ?tail) 0 @ ?tail), r)"
      using len elided(2) by (intro read_ipv6_elided [OF _ assms]) linarith
    then have "read_ipv6_addr (fmt_subslice ?head @ ''::'' @ fmt_subslice ?tail @ r) = Some (ip, r)"
      unfolding l zero_block_elide [OF b] by (simp only: fb)
    moreover have "read_ipv4_addr (fmt_subslice ?head @ ''::'' @ fmt_subslice ?tail @ r) = None"
      by (rule read_ipv4_fmt) simp
    ultimately show ?thesis using elided z by (simp add: show_ipv6_def Let_def)
  next
    case full
    have "read_ipv6_addr (fmt_subslice ?segs @ r) = Some (ip, r)"
      using read_ipv6_full [OF _ assms, of ?segs] fb by simp
    moreover have "read_ipv4_addr (fmt_subslice ?segs @ r) = None"
      using double_colon_colon [OF addr_ends_double [OF assms]] by (rule read_ipv4_fmt)
    ultimately show ?thesis using full z by (simp add: show_ipv6_def Let_def)
  qed
qed

text \<open>\<open>ip.to_string().parse::<IpAddr>()\<close> is \<open>ip\<close>, for IPv6.\<close>

lemma parse_show_ipv6: "parse_ip (show_ipv6 ip) = Some (V6 ip)"
  using read_ipv6_show [of "[]" ip] by (simp add: parse_ip_def)

lemma parse_show_ip [simp]: "parse_ip (show_ip ip) = Some ip"
  by (cases ip) (auto simp: parse_show_ipv4 parse_show_ipv6)

end
