(* ===== verification/Client_Config.thy ===== *)
theory Client_Config
  imports Rust_Str
begin

text \<open>
  \<open>client/src/config.rs\<close>: the configuration records of the client, their \<open>Default\<close>
  values and the accessors. A \<open>HashMap\<close> is the association list of its entries in the
  order the map iterates over them. Reading the file and the TOML decoding are outside the
  model: the records are what \<open>toml::from_str\<close> returns.
\<close>

section \<open>Records\<close>

record listen_config =
  lc_socks5 :: string
  lc_http :: string
  lc_socks5_allow_no_auth :: bool
  lc_socks5_default_user :: "string option"

record user_config =
  uc_backend :: string
  uc_password :: "string option"
  uc_password_hash :: "string option"

record backend_config =
  bc_endpoint :: string
  bc_connect_addr :: "string option"
  bc_auth_token :: string
  bc_ech :: bool
  bc_ech_name :: "string option"
  bc_ech_bootstrap_doh :: "string option"
  bc_pool_size :: nat
  bc_max_streams_per_channel :: nat
  bc_ech_policy :: "string option"
  bc_tls_domain :: "string option"
  bc_ca_cert :: "string option"
  bc_connect_timeout_ms :: u64

record ech_config =
  ec_bootstrap_doh :: string
  ec_policy :: string

datatype domain_strategy = RemoteForProxy | SystemDns

record route_config =
  rc_china_ip_direct :: bool
  rc_domain_strategy :: domain_strategy
  rc_china_ipv4_cidrs :: string
  rc_china_ipv6_cidrs :: string

record client_config =
  cc_listen :: listen_config
  cc_users :: "(string \<times> user_config) list"
  cc_backends :: "(string \<times> backend_config) list"
  cc_ech :: ech_config
  cc_route :: route_config

section \<open>Defaults\<close>

definition default_socks5_listen :: string where
  "default_socks5_listen = ''127.0.0.1:1080''"

definition default_http_listen :: string where
  "default_http_listen = ''127.0.0.1:8080''"

definition default_pool_size :: nat where
  "default_pool_size = 2"

definition default_max_streams_per_channel :: nat where
  "default_max_streams_per_channel = 128"

definition default_ech_bootstrap_doh :: string where
  "default_ech_bootstrap_doh = ''https://dns.alidns.com/dns-query''"

definition default_ech_policy :: string where
  "default_ech_policy = ''strict''"

definition default_connect_timeout_ms :: u64 where
  "default_connect_timeout_ms = 8000"

definition default_domain_strategy :: domain_strategy where
  "default_domain_strategy = RemoteForProxy"

definition default_geoip_v4 :: string where
  "default_geoip_v4 = ''chn_ip.txt''"

definition default_geoip_v6 :: string where
  "default_geoip_v6 = ''chn_ip_v6.txt''"

definition route_config_default :: route_config where
  "route_config_default =
     \<lparr>rc_china_ip_direct = True,
      rc_domain_strategy = default_domain_strategy,
      rc_china_ipv4_cidrs = default_geoip_v4,
      rc_china_ipv6_cidrs = default_geoip_v6\<rparr>"

definition ech_config_default :: ech_config where
  "ech_config_default =
     \<lparr>ec_bootstrap_doh = default_ech_bootstrap_doh, ec_policy = default_ech_policy\<rparr>"

section \<open>Accessors\<close>

text \<open>A duration in milliseconds.\<close>

definition backend_connect_timeout :: "backend_config \<Rightarrow> nat" where
  "backend_connect_timeout backend = unat (bc_connect_timeout_ms backend)"

definition effective_ech_bootstrap_doh :: "backend_config \<Rightarrow> ech_config \<Rightarrow> string" where
  "effective_ech_bootstrap_doh backend ech =
     (case bc_ech_bootstrap_doh backend of Some d \<Rightarrow> d | None \<Rightarrow> ec_bootstrap_doh ech)"

definition effective_ech_policy :: "backend_config \<Rightarrow> ech_config \<Rightarrow> string" where
  "effective_ech_policy backend ech =
     (case bc_ech_policy backend of Some p \<Rightarrow> p | None \<Rightarrow> ec_policy ech)"

end
