(* ===== verification/China_Ip.thy ===== *)
theory China_Ip
  imports Ip_Addr Client_Config
begin

text \<open>
  \<open>client/src/china_ip.rs\<close>: the table of directly routed addresses. Inclusive ranges are
  read from two text files, sorted and merged, and looked up by binary search. The
  denotation of a table is a set of words; merging preserves it and leaves sorted ranges
  with gaps between them, on which the binary search decides membership.
\<close>

unbundle bit_operations_syntax

section \<open>Binary search\<close>

text \<open>
  \<open>slice::binary_search_by_key\<close>: \<open>Inr i\<close> is \<open>Ok(i)\<close>, \<open>Inl i\<close> is \<open>Err(i)\<close> with the insertion
  point. The loop is the one of the standard library, which halves \<open>size\<close>.
\<close>

function search_base :: "('a \<Rightarrow> 'k::linorder) \<Rightarrow> 'a list \<Rightarrow> 'k \<Rightarrow> nat \<Rightarrow> nat \<Rightarrow> nat" where
  "search_base f xs key base sz =
     (if 1 < sz then
        (let half = sz div 2; mid = base + half in
         search_base f xs key (if key < f (xs ! mid) then base else mid) (sz - half))
      else base)"
  by pat_completeness auto
termination
  by (relation "measure (\<lambda>(f, xs, key, base, sz). sz)") auto

declare search_base.simps [simp del]

definition binary_search_by_key :: "'a list \<Rightarrow> 'k::linorder \<Rightarrow> ('a \<Rightarrow> 'k) \<Rightarrow> nat + nat" where
  "binary_search_by_key xs key f =
     (if xs = [] then Inl 0
      else (let base = search_base f xs key 0 (length xs) in
            if f (xs ! base) = key then Inr base
            else Inl (base + (if f (xs ! base) < key then 1 else 0))))"

section \<open>Lookup\<close>

definition contains_with ::
  "(('a::len word \<times> 'a word) list \<Rightarrow> 'a word \<Rightarrow> ('a word \<times> 'a word \<Rightarrow> 'a word) \<Rightarrow> nat + nat)
     \<Rightarrow> ('a word \<times> 'a word) list \<Rightarrow> 'a word \<Rightarrow> bool" where
  "contains_with search ranges ip =
     (case search ranges ip fst of
        Inr _ \<Rightarrow> True
      | Inl i \<Rightarrow>
          (if i = 0 then False
           else (case ranges ! (i - 1) of (start, end) \<Rightarrow> start \<le> ip \<and> ip \<le> end)))"

definition contains_u32 :: "(u32 \<times> u32) list \<Rightarrow> u32 \<Rightarrow> bool" where
  "contains_u32 ranges ip = contains_with binary_search_by_key ranges ip"

definition contains_u128 :: "(u128 \<times> u128) list \<Rightarrow> u128 \<Rightarrow> bool" where
  "contains_u128 ranges ip = contains_with binary_search_by_key ranges ip"

section \<open>Merging\<close>

fun merge_loop :: "'a::len word \<Rightarrow> 'a word \<Rightarrow> ('a word \<times> 'a word) list \<Rightarrow> ('a word \<times> 'a word) list"
where
  "merge_loop cur_start cur_end [] = [(cur_start, cur_end)]"
| "merge_loop cur_start cur_end ((start, end) # rest) =
     (if start \<le> saturating_add cur_end 1
      then merge_loop cur_start (max cur_end end) rest
      else (cur_start, cur_end) # merge_loop start end rest)"

definition merge_with ::
  "(('a::len word \<times> 'a word \<Rightarrow> 'a word) \<Rightarrow> ('a word \<times> 'a word) list \<Rightarrow> ('a word \<times> 'a word) list)
     \<Rightarrow> ('a word \<times> 'a word) list \<Rightarrow> ('a word \<times> 'a word) list" where
  "merge_with sort_by ranges =
     (if ranges = [] then ranges
      else (case sort_by fst ranges of
              [] \<Rightarrow> []
            | (start, end) # rest \<Rightarrow> merge_loop start end rest))"

definition merge_u32_ranges :: "(u32 \<times> u32) list \<Rightarrow> (u32 \<times> u32) list" where
  "merge_u32_ranges ranges = merge_with sort_key ranges"

definition merge_u128_ranges :: "(u128 \<times> u128) list \<Rightarrow> (u128 \<times> u128) list" where
  "merge_u128_ranges ranges = merge_with sort_key ranges"

section \<open>The set\<close>

record china_ip_set =
  cs_v4 :: "(u32 \<times> u32) list"
  cs_v6 :: "(u128 \<times> u128) list"

fun china_contains :: "china_ip_set \<Rightarrow> ip_addr \<Rightarrow> bool" where
  "china_contains s (V4 ip) = contains_u32 (cs_v4 s) ip"
| "china_contains s (V6 ip) = contains_u128 (cs_v6 s) ip"

section \<open>Reading the tables\<close>

text \<open>
  What the code reads off an \<open>ipnet::IpNet\<close>: \<open>network()\<close> and \<open>broadcast()\<close> for IPv4,
  \<open>network()\<close> and \<open>netmask()\<close> for IPv6. The parser of that crate is the parameter
  \<open>parse_net\<close> below.
\<close>

datatype ip_net = NetV4 u32 u32 | NetV6 u128 u128

datatype range_error = V4StartAfterEnd | V6StartAfterEnd | VersionsDiffer

datatype table_error =
    ReadFailed string
  | InvalidEntry string nat
  | InvalidRangeStart string nat
  | InvalidRangeEnd string nat
  | InvalidRange string nat range_error

type_synonym range_tables = "(u32 \<times> u32) list \<times> (u128 \<times> u128) list"

fun push_net :: "ip_net \<Rightarrow> range_tables \<Rightarrow> range_tables" where
  "push_net (NetV4 network broadcast) (v4, v6) = (v4 @ [(network, broadcast)], v6)"
| "push_net (NetV6 network netmask) (v4, v6) =
     (let net_prefix = network; hostmask = NOT netmask in
      (v4, v6 @ [(net_prefix, net_prefix OR hostmask)]))"

fun push_range :: "ip_addr \<Rightarrow> ip_addr \<Rightarrow> range_tables \<Rightarrow> range_error + range_tables" where
  "push_range (V4 start) (V4 end) (v4, v6) =
     (if end < start then Inl V4StartAfterEnd else Inr (v4 @ [(start, end)], v6))"
| "push_range (V6 start) (V6 end) (v4, v6) =
     (if end < start then Inl V6StartAfterEnd else Inr (v4, v6 @ [(start, end)]))"
| "push_range _ _ _ = Inl VersionsDiffer"

definition with_context :: "('e \<Rightarrow> 'f) \<Rightarrow> 'e + 'a \<Rightarrow> 'f + 'a" where
  "with_context c r = (case r of Inl e \<Rightarrow> Inl (c e) | Inr x \<Rightarrow> Inr x)"

definition read_entry ::
  "(string \<Rightarrow> ip_net option) \<Rightarrow> string \<Rightarrow> nat \<Rightarrow> string \<Rightarrow> range_tables \<Rightarrow> table_error + range_tables"
where
  "read_entry parse_net path idx raw_line t =
     (let line = str_trim raw_line in
      if line = [] \<or> prefix ''#'' line then Inr t
      else (case split_whitespace line of
              [single] \<Rightarrow>
                (case parse_net single of
                   Some net \<Rightarrow> Inr (push_net net t)
                 | None \<Rightarrow>
                     rbind (ok_or (InvalidEntry path (idx + 1)) (parse_ip single)) (\<lambda>ip.
                     with_context (\<lambda>e. InvalidEntry path (idx + 1)) (push_range ip ip t)))
            | [start, end] \<Rightarrow>
                rbind (ok_or (InvalidRangeStart path (idx + 1)) (parse_ip start)) (\<lambda>s.
                rbind (ok_or (InvalidRangeEnd path (idx + 1)) (parse_ip end)) (\<lambda>e.
                with_context (InvalidRange path (idx + 1)) (push_range s e t)))
            | _ \<Rightarrow> Inl (InvalidEntry path (idx + 1))))"

fun read_entries ::
  "(string \<Rightarrow> ip_net option) \<Rightarrow> string \<Rightarrow> nat \<Rightarrow> string list \<Rightarrow> range_tables \<Rightarrow> table_error + range_tables"
where
  "read_entries parse_net path idx [] t = Inr t"
| "read_entries parse_net path idx (l # ls) t =
     rbind (read_entry parse_net path idx l t) (read_entries parse_net path (idx + 1) ls)"

text \<open>\<open>fs path\<close> is what \<open>fs::read_to_string\<close> returns, \<open>None\<close> for an error.\<close>

definition read_ip_table ::
  "(string \<Rightarrow> string option) \<Rightarrow> (string \<Rightarrow> ip_net option) \<Rightarrow> string \<Rightarrow> range_tables
     \<Rightarrow> table_error + range_tables" where
  "read_ip_table fs parse_net path t =
     rbind (ok_or (ReadFailed path) (fs path)) (\<lambda>raw.
     read_entries parse_net path 0 (str_lines raw) t)"

definition china_load ::
  "(string \<Rightarrow> string option) \<Rightarrow> (string \<Rightarrow> ip_net option) \<Rightarrow> route_config
     \<Rightarrow> table_error + china_ip_set" where
  "china_load fs parse_net route =
     rbind (read_ip_table fs parse_net (rc_china_ipv4_cidrs route) ([], [])) (\<lambda>t.
     rbind (read_ip_table fs parse_net (rc_china_ipv6_cidrs route) t) (\<lambda>(v4, v6).
     Inr \<lparr>cs_v4 = merge_u32_ranges v4, cs_v6 = merge_u128_ranges v6\<rparr>))"

section \<open>The interface of a keyed search\<close>

text \<open>
  What the standard library promises of \<open>binary_search_by_key\<close> on a slice sorted by the
  key: an index of an equal key, or the point that separates smaller from larger keys.
\<close>

locale key_search =
  fixes search :: "'a list \<Rightarrow> 'k::linorder \<Rightarrow> ('a \<Rightarrow> 'k) \<Rightarrow> nat + nat"
  assumes search_found:
      "sorted (map f xs) \<Longrightarrow> search xs k f = Inr i \<Longrightarrow> i < length xs \<and> f (xs ! i) = k"
    and search_absent:
      "sorted (map f xs) \<Longrightarrow> search xs k f = Inl i \<Longrightarrow>
         i \<le> length xs \<and> (\<forall>j < i. f (xs ! j) < k) \<and> (\<forall>j. i \<le> j \<longrightarrow> j < length xs \<longrightarrow> k < f (xs ! j))"
begin

lemma search_Inr_iff:
  assumes "sorted (map f xs)"
  shows "(\<exists>i. search xs k f = Inr i) \<longleftrightarrow> k \<in> f ` set xs"
proof
  assume "\<exists>i. search xs k f = Inr i"
  then show "k \<in> f ` set xs" using search_found [OF assms] by (metis image_eqI nth_mem)
next
  assume "k \<in> f ` set xs"
  then obtain j where j: "j < length xs" "f (xs ! j) = k" by (auto simp: in_set_conv_nth)
  show "\<exists>i. search xs k f = Inr i"
  proof (cases "search xs k f")
    case (Inl i)
    then show ?thesis
      using search_absent [OF assms Inl] j by (metis less_irrefl linorder_not_le)
  qed simp
qed

lemma search_point:
  assumes "sorted (map f xs)" "search xs k f = Inl i" "j < length xs"
  shows "f (xs ! j) < k \<longleftrightarrow> j < i"
  using search_absent [OF assms(1,2)] assms(3) by (meson leI less_asym)

end

lemma search_base_inv:
  assumes "sorted (map f xs)" "1 \<le> sz" "base + sz \<le> length xs"
    and "base = 0 \<or> f (xs ! base) \<le> key"
    and "\<forall>j. base + sz \<le> j \<longrightarrow> j < length xs \<longrightarrow> key < f (xs ! j)"
  shows "search_base f xs key base sz < length xs \<and>
    (search_base f xs key base sz = 0 \<or> f (xs ! search_base f xs key base sz) \<le> key) \<and>
    (\<forall>j > search_base f xs key base sz. j < length xs \<longrightarrow> key < f (xs ! j))"
  using assms
proof (induction f xs key base sz rule: search_base.induct)
  case (1 f xs key base sz)
  show ?case
  proof (cases "1 < sz")
    case False
    with "1.prems" have "sz = 1" by simp
    with "1.prems" show ?thesis by (subst (1 2 3 4) search_base.simps) auto
  next
    case True
    define half where "half = sz div 2"
    define mid where "mid = base + half"
    define base' where "base' = (if key < f (xs ! mid) then base else mid)"
    have arith: "1 \<le> half" "half \<le> sz - half" "half < sz" using True by (auto simp: half_def)
    have eq: "search_base f xs key base sz = search_base f xs key base' (sz - half)"
      using True by (subst search_base.simps) (simp add: Let_def base'_def mid_def half_def)
    have up: "key < f (xs ! j)" if "base' + (sz - half) \<le> j" "j < length xs" for j
    proof (cases "key < f (xs ! mid)")
      case True
      have "mid \<le> j" using that arith True by (auto simp: base'_def mid_def)
      then have "f (xs ! mid) \<le> f (xs ! j)" using "1.prems"(1) that sorted_nth_mono by fastforce
      with True show ?thesis by simp
    next
      case False
      with that arith "1.prems"(5) show ?thesis by (auto simp: base'_def mid_def)
    qed
    show ?thesis
      unfolding eq
    proof (rule "1.IH" [OF True half_def mid_def, folded base'_def])
      show "sorted (map f xs)" by (rule "1.prems"(1))
      show "1 \<le> sz - half" using arith by simp
      show "base' + (sz - half) \<le> length xs"
        using arith "1.prems"(3) by (auto simp: base'_def mid_def)
      show "base' = 0 \<or> f (xs ! base') \<le> key"
        using "1.prems"(4) by (auto simp: base'_def)
      show "\<forall>j. base' + (sz - half) \<le> j \<longrightarrow> j < length xs \<longrightarrow> key < f (xs ! j)"
        using up by blast
    qed
  qed
qed

lemma binary_search_base:
  fixes f :: "'a \<Rightarrow> 'k::linorder" and xs key
  assumes "sorted (map f xs)" "xs \<noteq> []"
  defines "b \<equiv> search_base f xs key 0 (length xs)"
  shows "b < length xs" "b = 0 \<or> f (xs ! b) \<le> key"
    "b < j \<Longrightarrow> j < length xs \<Longrightarrow> key < f (xs ! j)"
  using search_base_inv [OF assms(1), of "length xs" 0 key] assms(2)
  by (auto simp: b_def Suc_le_eq)

interpretation bsearch: key_search binary_search_by_key
proof
  fix f :: "'a \<Rightarrow> 'b" and xs k i
  assume "sorted (map f xs)" "binary_search_by_key xs k f = Inr i"
  then show "i < length xs \<and> f (xs ! i) = k"
    using binary_search_base(1) [of f xs k]
    by (auto simp: binary_search_by_key_def Let_def split: if_splits)
next
  fix f :: "'a \<Rightarrow> 'b" and xs k i
  assume s: "sorted (map f xs)" and r: "binary_search_by_key xs k f = Inl i"
  show "i \<le> length xs \<and> (\<forall>j < i. f (xs ! j) < k) \<and>
    (\<forall>j. i \<le> j \<longrightarrow> j < length xs \<longrightarrow> k < f (xs ! j))"
  proof (cases "xs = []")
    case True
    with r show ?thesis by (simp add: binary_search_by_key_def)
  next
    case False
    define b where "b = search_base f xs k 0 (length xs)"
    note bs = binary_search_base [OF s False, of k, folded b_def]
    have ne: "f (xs ! b) \<noteq> k" and i: "i = b + (if f (xs ! b) < k then 1 else 0)"
      using r False by (auto simp: binary_search_by_key_def Let_def b_def split: if_splits)
    show ?thesis
    proof (cases "f (xs ! b) < k")
      case True
      have "f (xs ! j) < k" if "j \<le> b" for j
        using sorted_nth_mono [OF s that] bs(1) that True by auto
      with True i bs show ?thesis by (auto simp: Suc_le_eq)
    next
      case False
      with ne bs(2) have b0: "b = 0" "k < f (xs ! 0)" by auto
      then have "k < f (xs ! j)" if "j < length xs" for j
        using bs(3) [of j] that by (cases "j = 0") auto
      with False i b0 show ?thesis by simp
    qed
  qed
qed

section \<open>Normal range lists\<close>

definition ranges_set :: "('a::len word \<times> 'a word) list \<Rightarrow> 'a word set" where
  "ranges_set rs = (\<Union>r \<in> set rs. {fst r .. snd r})"

definition proper_ranges :: "('a::len word \<times> 'a word) list \<Rightarrow> bool" where
  "proper_ranges rs \<longleftrightarrow> (\<forall>r \<in> set rs. fst r \<le> snd r)"

definition gapped :: "('a::len word \<times> 'a word) list \<Rightarrow> bool" where
  "gapped rs \<longleftrightarrow> sorted_wrt (\<lambda>a b. unat (snd a) + 1 < unat (fst b)) rs"

definition normal_ranges :: "('a::len word \<times> 'a word) list \<Rightarrow> bool" where
  "normal_ranges rs \<longleftrightarrow> proper_ranges rs \<and> gapped rs"

lemma ranges_set_simps [simp]:
  "ranges_set [] = {}" "ranges_set (r # rs) = {fst r .. snd r} \<union> ranges_set rs"
  "ranges_set (rs @ rs') = ranges_set rs \<union> ranges_set rs'"
  by (auto simp: ranges_set_def)

lemma proper_ranges_simps [simp]:
  "proper_ranges []" "proper_ranges (r # rs) \<longleftrightarrow> fst r \<le> snd r \<and> proper_ranges rs"
  "proper_ranges (rs @ rs') \<longleftrightarrow> proper_ranges rs \<and> proper_ranges rs'"
  by (auto simp: proper_ranges_def)

lemma gapped_simps [simp]:
  "gapped []"
  "gapped (r # rs) \<longleftrightarrow> (\<forall>r' \<in> set rs. unat (snd r) + 1 < unat (fst r')) \<and> gapped rs"
  by (auto simp: gapped_def)

lemma ranges_set_mset: "mset rs = mset rs' \<Longrightarrow> ranges_set rs = ranges_set rs'"
  by (auto simp: ranges_set_def dest: mset_eq_setD)

lemma proper_ranges_mset: "mset rs = mset rs' \<Longrightarrow> proper_ranges rs = proper_ranges rs'"
  by (auto simp: proper_ranges_def dest: mset_eq_setD)

lemma normal_starts:
  fixes rs :: "('a::len word \<times> 'a word) list"
  assumes "normal_ranges rs"
  shows "sorted (map fst rs)"
proof -
  have sep: "sorted_wrt (\<lambda>a b. unat (snd a) + 1 < unat (fst b)) rs"
    and le: "\<forall>r \<in> set rs. fst r \<le> snd r"
    using assms by (auto simp: normal_ranges_def gapped_def proper_ranges_def)
  have "sorted_wrt (\<lambda>a b. fst a \<le> fst b) rs"
  proof (rule sorted_wrt_mono_rel [OF _ sep])
    fix a b :: "'a word \<times> 'a word"
    assume "a \<in> set rs" "unat (snd a) + 1 < unat (fst b)"
    with le have "unat (fst a) \<le> unat (snd a)" "unat (snd a) < unat (fst b)"
      by (auto simp: word_le_nat_alt)
    then show "fst a \<le> fst b" by (simp add: word_le_nat_alt)
  qed
  then show ?thesis by (simp add: sorted_map)
qed

lemma normal_nth:
  assumes "normal_ranges rs" "i < length rs" "j < length rs"
  shows "i < j \<Longrightarrow> snd (rs ! i) < fst (rs ! j)" "fst (rs ! i) \<le> snd (rs ! i)"
  using assms
  by (auto simp: normal_ranges_def gapped_def proper_ranges_def sorted_wrt_iff_nth_less
      word_less_nat_alt dest: Suc_lessD)


lemma ranges_set_nth: "x \<in> ranges_set rs \<longleftrightarrow> (\<exists>i < length rs. fst (rs ! i) \<le> x \<and> x \<le> snd (rs ! i))"
  by (simp add: ranges_set_def) (metis in_set_conv_nth)

text \<open>
  A client of the search that only knows its contract: on normal ranges the lookup of the
  code decides membership in the set of the ranges.
\<close>

locale range_lookup = key_search search
  for search :: "('a::len word \<times> 'a word) list \<Rightarrow> 'a word \<Rightarrow> ('a word \<times> 'a word \<Rightarrow> 'a word) \<Rightarrow> nat + nat"
begin

lemma contains_found:
  assumes "normal_ranges rs" "search rs ip fst = Inr i"
  shows "ip \<in> ranges_set rs"
proof -
  have "i < length rs" "fst (rs ! i) = ip"
    using search_found [OF normal_starts [OF assms(1)] assms(2)] by auto
  then show ?thesis
    using normal_nth(2) [OF assms(1)] by (auto simp: ranges_set_nth)
qed

lemma contains_absent:
  assumes "normal_ranges rs" "search rs ip fst = Inl i"
  shows "ip \<in> ranges_set rs \<longleftrightarrow> 0 < i \<and> ip \<le> snd (rs ! (i - 1))"
proof -
  note sorted = normal_starts [OF assms(1)]
  have i: "i \<le> length rs"
    and point: "\<And>j. j < length rs \<Longrightarrow> fst (rs ! j) < ip \<longleftrightarrow> j < i"
    and above: "\<And>j. i \<le> j \<Longrightarrow> j < length rs \<Longrightarrow> ip < fst (rs ! j)"
    using search_absent [OF sorted assms(2)] search_point [OF sorted assms(2)] by auto
  show ?thesis
  proof
    assume "ip \<in> ranges_set rs"
    then obtain j where j: "j < length rs" "fst (rs ! j) \<le> ip" "ip \<le> snd (rs ! j)"
      by (auto simp: ranges_set_nth)
    then have "j < i" using above [of j] by (meson leI not_le)
    then have i0: "0 < i" "i - 1 < length rs" and le: "j \<le> i - 1" using i by auto
    have "j = i - 1"
    proof (rule ccontr)
      assume "j \<noteq> i - 1"
      then have "snd (rs ! j) < fst (rs ! (i - 1))"
        using normal_nth(1) [OF assms(1)] le i0 j by simp
      also have "\<dots> < ip" using point [OF i0(2)] i0(1) by simp
      finally show False using j by simp
    qed
    then show "0 < i \<and> ip \<le> snd (rs ! (i - 1))" using i0 j by simp
  next
    assume a: "0 < i \<and> ip \<le> snd (rs ! (i - 1))"
    then have "i - 1 < length rs" "fst (rs ! (i - 1)) < ip" using i point [of "i - 1"] by auto
    with a show "ip \<in> ranges_set rs" by (auto simp: ranges_set_nth intro: less_imp_le)
  qed
qed

lemma contains_with_iff:
  assumes "normal_ranges rs"
  shows "contains_with search rs ip \<longleftrightarrow> ip \<in> ranges_set rs"
proof (cases "search rs ip fst")
  case (Inr i)
  then show ?thesis using contains_found [OF assms] by (simp add: contains_with_def)
next
  case (Inl i)
  have "fst (rs ! (i - 1)) \<le> ip" if "0 < i"
  proof -
    have "i \<le> length rs" using search_absent [OF normal_starts [OF assms] Inl] by simp
    with that have "i - 1 < length rs" by linarith
    then show ?thesis
      using search_point [OF normal_starts [OF assms] Inl, of "i - 1"] that by (simp add: less_imp_le)
  qed
  then show ?thesis
    using contains_absent [OF assms Inl]
    by (auto simp: contains_with_def Inl split: prod.splits)
qed

end

interpretation lookup: range_lookup binary_search_by_key
  by unfold_locales

section \<open>Merging\<close>

lemma word_interval_merge:
  fixes cs ce s e :: "'a::len word"
  assumes "cs \<le> s" "s \<le> saturating_add ce 1" "cs \<le> ce" "s \<le> e"
  shows "{cs..max ce e} = {cs..ce} \<union> {s..e}"
proof -
  have "unat s \<le> unat ce + 1"
    using assms(2) saturating_add_1 [of ce] by (simp add: word_le_nat_alt)
  then show ?thesis
    using assms(1,3,4) by (auto simp: word_le_nat_alt max_def)
qed

lemma merge_gap:
  fixes s ce :: "'a::len word"
  assumes "\<not> s \<le> saturating_add ce 1"
  shows "unat ce + 1 < unat s"
proof -
  have "unat s < 2 ^ LENGTH('a)" by (rule unsigned_less)
  then have "unat s \<le> 2 ^ LENGTH('a) - 1" by linarith
  then show ?thesis
    using assms saturating_add_1 [of ce] by (simp add: word_le_nat_alt min_def split: if_splits)
qed

lemma merge_loop_starts: "r \<in> set (merge_loop cs ce rest) \<Longrightarrow> fst r = cs \<or> fst r \<in> fst ` set rest"
  by (induction cs ce rest rule: merge_loop.induct) (auto split: if_splits)

lemma merge_loop_set:
  assumes "sorted (cs # map fst rest)" "cs \<le> ce" "proper_ranges rest"
  shows "ranges_set (merge_loop cs ce rest) = {cs..ce} \<union> ranges_set rest"
  using assms
proof (induction cs ce rest rule: merge_loop.induct)
  case (1 cs ce)
  then show ?case by simp
next
  case (2 cs ce s e rest)
  show ?case
  proof (cases "s \<le> saturating_add ce 1")
    case True
    have "ranges_set (merge_loop cs (max ce e) rest) = {cs..max ce e} \<union> ranges_set rest"
      using 2 True by (intro "2.IH"(1)) (auto simp: le_max_iff_disj)
    moreover have "{cs..max ce e} = {cs..ce} \<union> {s..e}"
      using 2 True by (intro word_interval_merge) auto
    ultimately show ?thesis using True by auto
  next
    case False
    with 2 show ?thesis by auto
  qed
qed

lemma merge_loop_normal:
  assumes "sorted (cs # map fst rest)" "cs \<le> ce" "proper_ranges rest"
  shows "normal_ranges (merge_loop cs ce rest)"
  using assms
proof (induction cs ce rest rule: merge_loop.induct)
  case (1 cs ce)
  then show ?case by (simp add: normal_ranges_def)
next
  case (2 cs ce s e rest)
  show ?case
  proof (cases "s \<le> saturating_add ce 1")
    case True
    then show ?thesis using 2 by (auto simp: max_def)
  next
    case False
    have "unat ce + 1 < unat (fst r)" if "r \<in> set (merge_loop s e rest)" for r
    proof -
      have "s \<le> fst r" using merge_loop_starts [OF that] 2(3) by auto
      then show ?thesis using merge_gap [OF False] by (simp add: word_le_nat_alt)
    qed
    then show ?thesis using 2 False by (auto simp: normal_ranges_def)
  qed
qed


text \<open>
  \<open>sort_unstable_by_key\<close> promises a sorted permutation and nothing about the order of equal
  keys. The merged ranges do not depend on it: normal ranges are determined by their set.
\<close>

locale unstable_sort =
  fixes sort_by :: "('a \<Rightarrow> 'k::linorder) \<Rightarrow> 'a list \<Rightarrow> 'a list"
  assumes sort_mset: "mset (sort_by f xs) = mset xs"
    and sort_sorted: "sorted (map f (sort_by f xs))"
begin

lemma sort_Nil_iff: "sort_by f xs = [] \<longleftrightarrow> xs = []"
  by (metis mset_zero_iff sort_mset)

end

locale range_sort = unstable_sort sort_by
  for sort_by :: "('a::len word \<times> 'a word \<Rightarrow> 'a word) \<Rightarrow> ('a word \<times> 'a word) list \<Rightarrow> ('a word \<times> 'a word) list"
begin

lemma merge_with_cases:
  assumes "rs \<noteq> []"
  obtains s e rest where "sort_by fst rs = (s, e) # rest" "merge_with sort_by rs = merge_loop s e rest"
proof -
  from assms obtain r rest where "sort_by fst rs = r # rest"
    using sort_Nil_iff [of fst rs] by (cases "sort_by fst rs") auto
  with assms show ?thesis by (cases r) (auto simp: merge_with_def intro: that)
qed

lemma merge_with_correct:
  assumes "proper_ranges rs"
  shows "normal_ranges (merge_with sort_by rs)" "ranges_set (merge_with sort_by rs) = ranges_set rs"
proof -
  have "normal_ranges (merge_with sort_by rs) \<and> ranges_set (merge_with sort_by rs) = ranges_set rs"
  proof (cases "rs = []")
    case True
    then show ?thesis by (simp add: merge_with_def normal_ranges_def)
  next
    case False
    then obtain s e rest where sorted: "sort_by fst rs = (s, e) # rest"
      and m: "merge_with sort_by rs = merge_loop s e rest"
      by (rule merge_with_cases)
    have ms: "mset ((s, e) # rest) = mset rs" using sort_mset [of fst rs] sorted by simp
    then have "proper_ranges ((s, e) # rest)" "ranges_set ((s, e) # rest) = ranges_set rs"
      using assms by (metis proper_ranges_mset, metis ranges_set_mset)
    moreover have "sorted (s # map fst rest)" using sort_sorted [of fst rs] sorted by simp
    ultimately show ?thesis
      unfolding m using merge_loop_set [of s rest e] merge_loop_normal [of s rest e] by auto
  qed
  then show "normal_ranges (merge_with sort_by rs)" "ranges_set (merge_with sort_by rs) = ranges_set rs"
    by auto
qed

end

interpretation std_sort: unstable_sort sort_key
  by unfold_locales simp_all

interpretation std_range_sort: range_sort sort_key
  by unfold_locales

lemma ranges_set_ge:
  assumes "normal_ranges (r # rs)" "x \<in> ranges_set rs"
  shows "unat (snd r) + 1 < unat x"
proof -
  obtain q where "q \<in> set rs" "fst q \<le> x" using assms(2) by (auto simp: ranges_set_def)
  then show ?thesis using assms(1) by (auto simp: normal_ranges_def word_le_nat_alt)
qed

lemma normal_head_least:
  fixes rs :: "('a::len word \<times> 'a word) list"
  assumes "normal_ranges (r # rs)"
  shows "fst r \<in> ranges_set (r # rs)" "x \<in> ranges_set (r # rs) \<Longrightarrow> fst r \<le> x"
proof -
  have le: "fst r \<le> snd r" using assms by (simp add: normal_ranges_def)
  then show "fst r \<in> ranges_set (r # rs)" by simp
  show "fst r \<le> x" if "x \<in> ranges_set (r # rs)"
  proof (cases "x \<in> ranges_set rs")
    case True
    then show ?thesis
      using ranges_set_ge [OF assms True] le by (simp add: word_le_nat_alt)
  qed (use that in auto)
qed

lemma normal_head_end:
  fixes rs rs' :: "('a::len word \<times> 'a word) list"
  assumes "normal_ranges (r # rs)" "normal_ranges (r' # rs')"
    and "ranges_set (r # rs) = ranges_set (r' # rs')" "fst r = fst r'"
  shows "snd r' \<le> snd r"
proof (rule ccontr)
  assume "\<not> snd r' \<le> snd r"
  then have lt: "unat (snd r) < unat (snd r')" by (simp add: word_le_nat_alt)
  have "unat (snd r') < 2 ^ LENGTH('a)" by (rule unsigned_less)
  with lt have "unat (snd r) + 1 < 2 ^ LENGTH('a)" by linarith
  then have u: "unat (snd r + 1) = unat (snd r) + 1" by (simp add: unat_word_ariths)
  have "fst r \<le> snd r" using assms(1) by (simp add: normal_ranges_def)
  then have "snd r + 1 \<in> {fst r' .. snd r'}"
    using lt u assms(4) by (simp add: word_le_nat_alt)
  then have "snd r + 1 \<in> ranges_set (r # rs)" using assms(3) by auto
  then have "snd r + 1 \<in> ranges_set rs" using u by (auto simp: word_le_nat_alt)
  then show False using ranges_set_ge [OF assms(1)] u by fastforce
qed

lemma normal_ranges_empty: "normal_ranges rs \<Longrightarrow> ranges_set rs = {} \<longleftrightarrow> rs = []"
  by (cases rs) (auto simp: normal_ranges_def)

lemma normal_ranges_unique:
  "normal_ranges rs \<Longrightarrow> normal_ranges rs' \<Longrightarrow> ranges_set rs = ranges_set rs' \<Longrightarrow> rs = rs'"
proof (induction rs arbitrary: rs')
  case Nil
  then show ?case using normal_ranges_empty [of rs'] by simp
next
  case (Cons r rs)
  then have "rs' \<noteq> []" using normal_ranges_empty [of "r # rs"] by auto
  then obtain r' qs where rs': "rs' = r' # qs" by (cases rs') auto
  note n = Cons.prems(1) Cons.prems(2) [unfolded rs']
  note eq = Cons.prems(3) [unfolded rs']
  have f: "fst r = fst r'"
    using normal_head_least [OF n(1)] normal_head_least [OF n(2)] eq by (metis antisym)
  have "snd r = snd r'"
    using normal_head_end [OF n eq f] normal_head_end [OF n(2,1) eq [symmetric] f [symmetric]]
    by (rule antisym [rotated])
  with f have r: "r = r'" by (rule prod_eqI)
  have tail: "ranges_set ts = ranges_set (t # ts) - {fst t .. snd t}" if "normal_ranges (t # ts)"
    for t and ts :: "('a word \<times> 'a word) list"
    using ranges_set_ge [OF that] by (fastforce simp: word_le_nat_alt)
  have "ranges_set rs = ranges_set qs"
    using tail [OF n(1)] tail [OF n(2)] eq r by simp
  then have "rs = qs" using Cons.IH n by (auto simp: normal_ranges_def)
  with r rs' show ?case by simp
qed

section \<open>What a table line denotes\<close>

text \<open>
  A network covers the addresses that agree with it under its netmask; the code turns it
  into the range from the network address to the address with all host bits set.
\<close>

fun net_covers :: "ip_net \<Rightarrow> ip_addr \<Rightarrow> bool" where
  "net_covers (NetV4 network broadcast) (V4 ip) \<longleftrightarrow> network \<le> ip \<and> ip \<le> broadcast"
| "net_covers (NetV6 network netmask) (V6 ip) \<longleftrightarrow> ip AND netmask = network"
| "net_covers _ _ \<longleftrightarrow> False"

fun net_ok :: "ip_net \<Rightarrow> bool" where
  "net_ok (NetV4 network broadcast) \<longleftrightarrow> network \<le> broadcast"
| "net_ok (NetV6 network netmask) \<longleftrightarrow>
     (\<exists>k \<le> 128. netmask = NOT (mask k)) \<and> network AND netmask = network"

fun range_covers :: "ip_addr \<Rightarrow> ip_addr \<Rightarrow> ip_addr \<Rightarrow> bool" where
  "range_covers (V4 s) (V4 e) (V4 ip) \<longleftrightarrow> s \<le> ip \<and> ip \<le> e"
| "range_covers (V6 s) (V6 e) (V6 ip) \<longleftrightarrow> s \<le> ip \<and> ip \<le> e"
| "range_covers _ _ _ \<longleftrightarrow> False"

fun tables_cover :: "range_tables \<Rightarrow> ip_addr \<Rightarrow> bool" where
  "tables_cover (v4, v6) (V4 ip) \<longleftrightarrow> ip \<in> ranges_set v4"
| "tables_cover (v4, v6) (V6 ip) \<longleftrightarrow> ip \<in> ranges_set v6"

definition tables_proper :: "range_tables \<Rightarrow> bool" where
  "tables_proper t \<longleftrightarrow> proper_ranges (fst t) \<and> proper_ranges (snd t)"

definition line_covers :: "(string \<Rightarrow> ip_net option) \<Rightarrow> string \<Rightarrow> ip_addr \<Rightarrow> bool" where
  "line_covers parse_net raw ip =
     (let line = str_trim raw in
      line \<noteq> [] \<and> \<not> prefix ''#'' line \<and>
      (case split_whitespace line of
         [single] \<Rightarrow>
           (case parse_net single of
              Some net \<Rightarrow> net_covers net ip
            | None \<Rightarrow> parse_ip single = Some ip)
       | [start, end] \<Rightarrow>
           (case (parse_ip start, parse_ip end) of
              (Some s, Some e) \<Rightarrow> range_covers s e ip
            | _ \<Rightarrow> False)
       | _ \<Rightarrow> False))"

lemma drop_bit_word_mono: "x \<le> y \<Longrightarrow> drop_bit k x \<le> drop_bit k y" for x y :: "'a::len word"
  by (simp only: word_le_nat_alt unat_drop_bit_eq) (simp add: drop_bit_eq_div div_le_mono)

lemma and_not_mask_drop_bit: "x AND NOT (mask k) = push_bit k (drop_bit k x)" for x :: "'a::len word"
  by (rule bit_word_eqI) (auto simp: bit_simps)

lemma network_range:
  fixes n x :: "'a::len word"
  assumes n: "n AND NOT (mask k) = n"
  shows "(n \<le> x \<and> x \<le> n OR mask k) \<longleftrightarrow> x AND NOT (mask k) = n"
proof
  assume "n \<le> x \<and> x \<le> n OR mask k"
  then have "drop_bit k n \<le> drop_bit k x" "drop_bit k x \<le> drop_bit k (n OR mask k)"
    by (blast intro: drop_bit_word_mono)+
  moreover have "drop_bit k (n OR mask k) = drop_bit k n"
    by (rule bit_word_eqI) (auto simp: bit_simps)
  ultimately have "drop_bit k x = drop_bit k n" by simp
  then show "x AND NOT (mask k) = n" using n by (simp add: and_not_mask_drop_bit)
next
  assume x: "x AND NOT (mask k) = n"
  have "x = n OR (x AND mask k)"
    unfolding x [symmetric] by (rule bit_word_eqI) (auto simp: bit_simps)
  also have "\<dots> = (n OR (x AND mask k)) AND (n OR mask k)"
    by (rule bit_word_eqI) (auto simp: bit_simps)
  also have "\<dots> \<le> n OR mask k" by (rule word_and_le1)
  finally have "x \<le> n OR mask k" .
  moreover have "n \<le> x" unfolding x [symmetric] by (rule word_and_le2)
  ultimately show "n \<le> x \<and> x \<le> n OR mask k" by simp
qed

lemma push_net_covers:
  assumes "net_ok net"
  shows "tables_cover (push_net net t) ip \<longleftrightarrow> tables_cover t ip \<or> net_covers net ip"
proof (cases net)
  case (NetV4 n b)
  then show ?thesis by (cases t; cases ip) auto
next
  case (NetV6 n m)
  then obtain k where m: "m = NOT (mask k)" and n: "n AND NOT (mask k) = n"
    using assms by auto
  show ?thesis
    using network_range [OF n] NetV6 m by (cases t; cases ip) (auto simp: Let_def)
qed

lemma or_ge: "n \<le> n OR m" for n m :: "'a::len word"
proof -
  have "n = n AND (n OR m)" by (rule bit_word_eqI) (auto simp: bit_simps)
  also have "\<dots> \<le> n OR m" by (rule word_and_le1)
  finally show ?thesis .
qed

lemma push_net_proper:
  "net_ok net \<Longrightarrow> tables_proper t \<Longrightarrow> tables_proper (push_net net t)"
  by (cases net; cases t) (auto simp: tables_proper_def Let_def or_ge)

lemma push_range_covers:
  assumes "push_range s e t = Inr t'"
  shows "tables_cover t' ip \<longleftrightarrow> tables_cover t ip \<or> range_covers s e ip"
  using assms by (cases s; cases e; cases t; cases ip) (auto split: if_splits)

lemma push_range_proper:
  assumes "push_range s e t = Inr t'" "tables_proper t"
  shows "tables_proper t'"
  using assms by (cases s; cases e; cases t) (auto simp: tables_proper_def not_less split: if_splits)

lemma with_context_eq [res_simps]:
  "with_context c r = Inr x \<longleftrightarrow> r = Inr x"
  "with_context c r = Inl e \<longleftrightarrow> (\<exists>d. r = Inl d \<and> e = c d)"
  by (auto simp: with_context_def split: sum.splits)

lemma range_covers_single: "range_covers x x ip \<longleftrightarrow> x = ip"
  by (cases x; cases ip) auto

definition nets_ok :: "(string \<Rightarrow> ip_net option) \<Rightarrow> bool" where
  "nets_ok parse_net \<longleftrightarrow> (\<forall>s net. parse_net s = Some net \<longrightarrow> net_ok net)"

lemma read_entry_step:
  assumes "read_entry parse_net path idx raw t = Inr t'" "nets_ok parse_net"
  shows "tables_cover t' ip \<longleftrightarrow> tables_cover t ip \<or> line_covers parse_net raw ip"
    and "tables_proper t \<Longrightarrow> tables_proper t'"
  using assms
  by (auto simp: read_entry_def line_covers_def Let_def nets_ok_def res_simps push_net_covers
      push_range_covers range_covers_single push_net_proper
      split: if_splits list.splits option.splits dest: push_range_proper)

lemma read_entries_ConsE:
  assumes "read_entries parse_net path idx (l # ls) t = Inr t'"
  obtains u where "read_entry parse_net path idx l t = Inr u"
    "read_entries parse_net path (idx + 1) ls u = Inr t'"
  using assms by (cases "read_entry parse_net path idx l t") simp_all

lemma read_entries_covers:
  assumes "read_entries parse_net path idx ls t = Inr t'" "nets_ok parse_net"
  shows "tables_cover t' ip \<longleftrightarrow> tables_cover t ip \<or> (\<exists>l \<in> set ls. line_covers parse_net l ip)"
    and "tables_proper t \<Longrightarrow> tables_proper t'"
proof -
  have "(tables_cover t' ip \<longleftrightarrow> tables_cover t ip \<or> (\<exists>l \<in> set ls. line_covers parse_net l ip))
    \<and> (tables_proper t \<longrightarrow> tables_proper t')"
    using assms(1)
  proof (induction ls arbitrary: idx t)
    case Nil
    then show ?case by simp
  next
    case (Cons l ls)
    from Cons.prems obtain u where u: "read_entry parse_net path idx l t = Inr u"
        "read_entries parse_net path (idx + 1) ls u = Inr t'"
      by (rule read_entries_ConsE)
    show ?case
      using Cons.IH [OF u(2)] read_entry_step [OF u(1) assms(2)] by (simp add: disj_assoc)
  qed
  then show "tables_cover t' ip \<longleftrightarrow> tables_cover t ip \<or> (\<exists>l \<in> set ls. line_covers parse_net l ip)"
    and "tables_proper t \<Longrightarrow> tables_proper t'" by blast+
qed

definition file_covers ::
  "(string \<Rightarrow> string option) \<Rightarrow> (string \<Rightarrow> ip_net option) \<Rightarrow> string \<Rightarrow> ip_addr \<Rightarrow> bool" where
  "file_covers fs parse_net path ip =
     (case fs path of
        None \<Rightarrow> False
      | Some raw \<Rightarrow> \<exists>l \<in> set (str_lines raw). line_covers parse_net l ip)"

lemma read_ip_table_covers:
  assumes "read_ip_table fs parse_net path t = Inr t'" "nets_ok parse_net"
  shows "tables_cover t' ip \<longleftrightarrow> tables_cover t ip \<or> file_covers fs parse_net path ip"
    and "tables_proper t \<Longrightarrow> tables_proper t'"
proof -
  obtain raw where raw: "fs path = Some raw" and r: "read_entries parse_net path 0 (str_lines raw) t = Inr t'"
    using assms(1) by (cases "fs path") (simp_all add: read_ip_table_def)
  show "tables_cover t' ip \<longleftrightarrow> tables_cover t ip \<or> file_covers fs parse_net path ip"
    using read_entries_covers(1) [OF r assms(2)] raw by (simp add: file_covers_def)
  show "tables_proper t \<Longrightarrow> tables_proper t'"
    by (rule read_entries_covers(2) [OF r assms(2)])
qed

lemma contains_iff:
  "normal_ranges rs \<Longrightarrow> contains_u32 rs ip \<longleftrightarrow> ip \<in> ranges_set rs"
  "normal_ranges rs' \<Longrightarrow> contains_u128 rs' ip' \<longleftrightarrow> ip' \<in> ranges_set rs'"
  by (simp_all add: contains_u32_def contains_u128_def lookup.contains_with_iff)

lemma merge_correct:
  "proper_ranges rs \<Longrightarrow> normal_ranges (merge_u32_ranges rs)"
  "proper_ranges rs \<Longrightarrow> ranges_set (merge_u32_ranges rs) = ranges_set rs"
  "proper_ranges rs' \<Longrightarrow> normal_ranges (merge_u128_ranges rs')"
  "proper_ranges rs' \<Longrightarrow> ranges_set (merge_u128_ranges rs') = ranges_set rs'"
  by (simp_all add: merge_u32_ranges_def merge_u128_ranges_def std_range_sort.merge_with_correct)

lemma china_load_tables:
  assumes "china_load fs parse_net route = Inr s" "nets_ok parse_net"
  obtains v4 v6 where
    "s = \<lparr>cs_v4 = merge_u32_ranges v4, cs_v6 = merge_u128_ranges v6\<rparr>"
    "tables_proper (v4, v6)"
    "\<And>ip. tables_cover (v4, v6) ip \<longleftrightarrow>
        file_covers fs parse_net (rc_china_ipv4_cidrs route) ip \<or>
        file_covers fs parse_net (rc_china_ipv6_cidrs route) ip"
proof -
  obtain t v4 v6 where r: "read_ip_table fs parse_net (rc_china_ipv4_cidrs route) ([], []) = Inr t"
      "read_ip_table fs parse_net (rc_china_ipv6_cidrs route) t = Inr (v4, v6)"
    and s: "s = \<lparr>cs_v4 = merge_u32_ranges v4, cs_v6 = merge_u128_ranges v6\<rparr>"
    using assms(1) by (auto simp: china_load_def res_simps)
  have p: "tables_proper (v4, v6)"
    using read_ip_table_covers(2) [OF r(1) assms(2)] read_ip_table_covers(2) [OF r(2) assms(2)]
    by (simp add: tables_proper_def)
  have "\<not> tables_cover ([], []) ip" for ip by (cases ip) auto
  then show ?thesis
    using read_ip_table_covers(1) [OF r(1) assms(2)] read_ip_table_covers(1) [OF r(2) assms(2)]
    by (intro that [OF s p]) auto
qed

lemma china_contains_tables:
  assumes "tables_proper (v4, v6)"
  shows "china_contains \<lparr>cs_v4 = merge_u32_ranges v4, cs_v6 = merge_u128_ranges v6\<rparr> ip
    \<longleftrightarrow> tables_cover (v4, v6) ip"
  using assms by (cases ip) (auto simp: tables_proper_def contains_iff merge_correct)

section \<open>Malformed tables\<close>

definition line_ok :: "(string \<Rightarrow> ip_net option) \<Rightarrow> string \<Rightarrow> bool" where
  "line_ok parse_net raw =
     (let line = str_trim raw in
      line = [] \<or> prefix ''#'' line \<or>
      (case split_whitespace line of
         [single] \<Rightarrow> parse_net single \<noteq> None \<or> parse_ip single \<noteq> None
       | [start, end] \<Rightarrow> (\<exists>s e. parse_ip start = Some s \<and> parse_ip end = Some e \<and> range_covers s e s)
       | _ \<Rightarrow> False))"

lemma push_range_ok: "is_ok (push_range s e t) \<longleftrightarrow> range_covers s e s"
  by (cases s; cases e; cases t) (auto simp: not_less)

lemma is_ok_res [simp]:
  "is_ok (with_context c r) = is_ok r"
  "is_ok (rbind (ok_or d x) f) \<longleftrightarrow> (\<exists>y. x = Some y \<and> is_ok (f y))"
  by (auto simp: with_context_def split: sum.splits) (cases x; simp)+

lemma push_range_self: "range_covers s s s"
  by (simp add: range_covers_single)

lemma read_entry_ok: "is_ok (read_entry parse_net path idx raw t) \<longleftrightarrow> line_ok parse_net raw"
  by (simp add: read_entry_def line_ok_def Let_def push_range_ok push_range_self
      split: list.splits option.splits)

fun table_error_line :: "table_error \<Rightarrow> nat option" where
  "table_error_line (ReadFailed path) = None"
| "table_error_line (InvalidEntry path n) = Some n"
| "table_error_line (InvalidRangeStart path n) = Some n"
| "table_error_line (InvalidRangeEnd path n) = Some n"
| "table_error_line (InvalidRange path n e) = Some n"

lemma read_entry_error_line:
  "read_entry parse_net path idx raw t = Inl e \<Longrightarrow> table_error_line e = Some (idx + 1)"
  by (auto simp: read_entry_def Let_def res_simps split: if_splits list.splits option.splits)

lemma read_entries_ok: "is_ok (read_entries parse_net path idx ls t) \<longleftrightarrow> (\<forall>l \<in> set ls. line_ok parse_net l)"
proof (induction ls arbitrary: idx t)
  case Nil
  then show ?case by simp
next
  case (Cons l ls)
  show ?case
    using Cons.IH read_entry_ok [of parse_net path idx l t]
    by (cases "read_entry parse_net path idx l t") simp_all
qed

lemma read_entries_error:
  "read_entries parse_net path idx ls t = Inl e \<Longrightarrow>
     \<exists>i < length ls. (\<forall>j < i. line_ok parse_net (ls ! j)) \<and> \<not> line_ok parse_net (ls ! i) \<and>
       table_error_line e = Some (idx + i + 1)"
proof (induction ls arbitrary: idx t)
  case Nil
  then show ?case by simp
next
  case (Cons l ls)
  show ?case
  proof (cases "read_entry parse_net path idx l t")
    case (Inl d)
    then have "\<not> line_ok parse_net l" using read_entry_ok [of parse_net path idx l t] by simp
    with Inl Cons.prems show ?thesis
      by (intro exI [of _ 0]) (simp add: read_entry_error_line)
  next
    case (Inr u)
    then have l: "line_ok parse_net l" using read_entry_ok [of parse_net path idx l t] by simp
    have "read_entries parse_net path (idx + 1) ls u = Inl e" using Cons.prems Inr by simp
    from Cons.IH [OF this] obtain i where i: "i < length ls" "\<forall>j < i. line_ok parse_net (ls ! j)"
        "\<not> line_ok parse_net (ls ! i)" "table_error_line e = Some (idx + 1 + i + 1)"
      by blast
    have "line_ok parse_net ((l # ls) ! j)" if "j < Suc i" for j
      using that i(2) l by (cases j) auto
    with i show ?thesis by (intro exI [of _ "Suc i"]) simp
  qed
qed

section \<open>Properties\<close>

text \<open>
  C9. The set that \<open>ChinaIpSet::load\<close> builds from the two table files contains an address
  exactly when some line of one of the files covers it: sorting, merging and the binary
  search lose and add nothing.
\<close>

theorem china_load_contains:
  assumes "china_load fs parse_net route = Inr s" and "nets_ok parse_net"
  shows "china_contains s ip \<longleftrightarrow>
    file_covers fs parse_net (rc_china_ipv4_cidrs route) ip \<or>
    file_covers fs parse_net (rc_china_ipv6_cidrs route) ip"
proof -
  obtain v4 v6 where "s = \<lparr>cs_v4 = merge_u32_ranges v4, cs_v6 = merge_u128_ranges v6\<rparr>"
    "tables_proper (v4, v6)" "tables_cover (v4, v6) ip \<longleftrightarrow>
        file_covers fs parse_net (rc_china_ipv4_cidrs route) ip \<or>
        file_covers fs parse_net (rc_china_ipv6_cidrs route) ip"
    using china_load_tables [OF assms] by metis
  then show ?thesis using china_contains_tables by simp
qed

definition demo_files :: "string \<Rightarrow> string option" where
  "demo_files path =
     (if path = default_geoip_v4 then Some (''1.0.2.0 1.0.3.255'' @ [LF] @ ''1.0.1.0/24'')
      else if path = default_geoip_v6 then Some ''::1'' else None)"

definition demo_net :: "string \<Rightarrow> ip_net option" where
  "demo_net s = (if s = ''1.0.1.0/24'' then Some (NetV4 0x01000100 0x010001ff) else None)"

lemma nets_ok_demo_net: "nets_ok demo_net"
  by (auto simp: nets_ok_def demo_net_def)

lemma demo_load:
  "china_load demo_files demo_net route_config_default =
     Inr \<lparr>cs_v4 = [(0x01000100, 0x010003ff)], cs_v6 = [(1, 1)]\<rparr>"
  by code_simp

theorem china_load_contains_witness:
  "china_contains \<lparr>cs_v4 = [(0x01000100, 0x010003ff)],
      cs_v6 = [(1, 1)]\<rparr> (V4 0x010002ff)
   \<and> (file_covers demo_files demo_net ''chn_ip.txt'' (V4 0x010002ff) \<or>
      file_covers demo_files demo_net ''chn_ip_v6.txt'' (V4 0x010002ff))"
proof -
  have "china_contains \<lparr>cs_v4 = [(0x01000100, 0x010003ff)],
      cs_v6 = [(1, 1)]\<rparr> (V4 0x010002ff)"
    by code_simp
  then show ?thesis
    using china_load_contains [OF demo_load nets_ok_demo_net, of "V4 0x010002ff"]
    by (simp add: route_config_default_def default_geoip_v4_def default_geoip_v6_def)
qed

text \<open>
  C10. The lookup after merging agrees with a linear scan of the unmerged ranges, for both
  families.
\<close>

theorem merged_lookup_is_scan:
  assumes "proper_ranges rs" and "proper_ranges rs'"
  shows "(contains_u32 (merge_u32_ranges rs) ip \<longleftrightarrow> (\<exists>r \<in> set rs. fst r \<le> ip \<and> ip \<le> snd r)) \<and>
    (contains_u128 (merge_u128_ranges rs') ip' \<longleftrightarrow> (\<exists>r \<in> set rs'. fst r \<le> ip' \<and> ip' \<le> snd r))"
proof -
  have "contains_u32 (merge_u32_ranges rs) ip \<longleftrightarrow> ip \<in> ranges_set rs"
    using assms by (simp add: contains_iff merge_correct)
  moreover have "contains_u128 (merge_u128_ranges rs') ip' \<longleftrightarrow> ip' \<in> ranges_set rs'"
    using assms by (simp add: contains_iff merge_correct)
  ultimately show ?thesis by (simp add: ranges_set_def)
qed

theorem merged_lookup_is_scan_witness:
  "contains_u32 (merge_u32_ranges [(5, 9), (1, 2), (3, 4)]) 4 \<and>
   \<not> contains_u128 (merge_u128_ranges [(5, 9), (11, 0xffffffff)]) 10"
  using merged_lookup_is_scan [of "[(5, 9), (1, 2), (3, 4)]" "[(5, 9), (11, 0xffffffff)]" 4 10]
  by (simp add: word_le_nat_alt)

text \<open>
  The merged table does not depend on the order in which the unstable sort leaves ranges
  with equal starts: any sorted permutation gives the same list.
\<close>

theorem merge_order_irrelevant:
  assumes "\<And>f xs. mset (srt f xs) = mset xs" and "\<And>f xs. sorted (map f (srt f xs))"
    and "proper_ranges rs"
  shows "merge_with srt rs = merge_u32_ranges rs"
proof -
  have "range_sort srt" by unfold_locales (rule assms)+
  from range_sort.merge_with_correct [OF this assms(3)] show ?thesis
    using merge_correct(1,2) [OF assms(3)] by (intro normal_ranges_unique) simp_all
qed

theorem merge_order_irrelevant_witness:
  "merge_with (\<lambda>f xs. sort_key f (rev xs)) [(1, 2), (1, 7), (9, 9)] = merge_u32_ranges [(1, 2), (1, 7), (9, 9)]"
  by (rule merge_order_irrelevant) simp_all

text \<open>
  C11. Loading fails only at a table that cannot be read or at its first malformed line, whose
  number the error carries; a table with no malformed line is accepted.
\<close>

theorem read_ip_table_error:
  assumes "fs path = Some raw"
  shows "(is_ok (read_ip_table fs parse_net path t) \<longleftrightarrow> (\<forall>l \<in> set (str_lines raw). line_ok parse_net l)) \<and>
    (\<forall>e. read_ip_table fs parse_net path t = Inl e \<longrightarrow>
      (\<exists>i < length (str_lines raw). (\<forall>j < i. line_ok parse_net (str_lines raw ! j)) \<and>
        \<not> line_ok parse_net (str_lines raw ! i) \<and> table_error_line e = Some (i + 1)))"
proof -
  have "read_ip_table fs parse_net path t = read_entries parse_net path 0 (str_lines raw) t"
    using assms by (simp add: read_ip_table_def)
  then show ?thesis
    using read_entries_error [of parse_net path 0 "str_lines raw" t, unfolded add_0]
    by (simp only: read_entries_ok) blast
qed

theorem read_ip_table_error_witness:
  "let fs = (\<lambda>_. Some (''1.0.0.1'' @ [LF] @ ''9.9.9.9 8.8.8.8'')) in
   \<not> is_ok (read_ip_table fs demo_net ''t'' ([], [])) \<and>
   (\<exists>l \<in> set (str_lines (''1.0.0.1'' @ [LF] @ ''9.9.9.9 8.8.8.8'')). \<not> line_ok demo_net l)"
proof -
  let ?raw = "''1.0.0.1'' @ [LF] @ ''9.9.9.9 8.8.8.8''"
  have "\<not> is_ok (read_ip_table (\<lambda>_. Some ?raw) demo_net ''t'' ([], []))"
    by code_simp
  then show ?thesis
    using read_ip_table_error [of "\<lambda>_. Some ?raw" "''t''" ?raw demo_net "([], [])"] by (simp add: Let_def)
qed

end
