(* ===== verification/Ech_Dns.thy ===== *)
theory Ech_Dns
  imports Rust_Str
begin

text \<open>
  The DNS wire format code of \<open>client/src/ech_tls.rs\<close>: building the HTTPS (type 65) query
  and finding the \<open>ech\<close> service parameter in the response. Offsets are \<open>usize\<close> values kept
  as naturals, with the \<open>checked_add\<close> of the code; an index or slice out of range is the error
  value \<open>Panicked\<close>, so that its absence is a theorem and not an assumption.
\<close>

unbundle bit_operations_syntax

datatype dns_error =
    InvalidName | InvalidLabel
  | ResponseTooShort | NotAResponse | BadRcode u16
  | RdataLengthOverflow | RdataExceedsMessage | NoEchParameter
  | TruncatedParameter | ParameterOverflow | ParameterExceedsRdata
  | TruncatedName | TruncatedPointer | BadLabelType | LabelOverflow
  | OffsetOverflow | TruncatedMessage | TruncatedU16 | TruncatedU32
  | Panicked

section \<open>Building the query\<close>

fun push_labels :: "string list \<Rightarrow> u8 list \<Rightarrow> dns_error + u8 list" where
  "push_labels [] out = Inr out"
| "push_labels (label # labels) out =
     (if label = [] \<or> 63 < length label then Inl InvalidLabel
      else push_labels labels (out @ [word_of_nat (length label)] @ bytes_of_str label))"

definition query_header :: "u8 list" where
  "query_header =
     to_be 2 (0x4543 :: u16) @ to_be 2 (0x0100 :: u16) @ to_be 2 (1 :: u16)
       @ to_be 2 (0 :: u16) @ to_be 2 (0 :: u16) @ to_be 2 (0 :: u16)"

definition build_https_query :: "string \<Rightarrow> dns_error + u8 list" where
  "build_https_query name =
     (if name = [] \<or> 253 < length name then Inl InvalidName
      else rbind (push_labels (str_split CHR ''.'' (trim_end_matches CHR ''.'' name)) query_header)
             (\<lambda>out. Inr (out @ [0] @ to_be 2 (65 :: u16) @ to_be 2 (1 :: u16))))"

section \<open>Reading fields\<close>

text \<open>\<open>message.get(a..b)\<close> and \<open>message[a..b]\<close>.\<close>

definition get_range :: "u8 list \<Rightarrow> nat \<Rightarrow> nat \<Rightarrow> u8 list option" where
  "get_range m a b = (if a \<le> b \<and> b \<le> length m then Some (take (b - a) (drop a m)) else None)"

definition index_range :: "u8 list \<Rightarrow> nat \<Rightarrow> nat \<Rightarrow> dns_error + u8 list" where
  "index_range m a b = ok_or Panicked (get_range m a b)"

definition index_byte :: "u8 list \<Rightarrow> nat \<Rightarrow> dns_error + u8" where
  "index_byte m i = (if i < length m then Inr (m ! i) else Inl Panicked)"

definition skip_bytes :: "u8 list \<Rightarrow> nat \<Rightarrow> nat \<Rightarrow> dns_error + nat" where
  "skip_bytes m offset n =
     rbind (ok_or OffsetOverflow (usize_checked_add offset n)) (\<lambda>end.
     if length m < end then Inl TruncatedMessage else Inr end)"

definition read_u16 :: "u8 list \<Rightarrow> nat \<Rightarrow> dns_error + u16" where
  "read_u16 m offset =
     rbind (ok_or OffsetOverflow (usize_checked_add offset 2)) (\<lambda>end.
     rbind (ok_or TruncatedU16 (get_range m offset end)) (\<lambda>bytes.
     Inr (from_be bytes)))"

definition read_u16_at :: "u8 list \<Rightarrow> nat \<Rightarrow> dns_error + u16 \<times> nat" where
  "read_u16_at m offset = rbind (read_u16 m offset) (\<lambda>v. Inr (v, offset + 2))"

definition read_u32_at :: "u8 list \<Rightarrow> nat \<Rightarrow> dns_error + u32 \<times> nat" where
  "read_u32_at m offset =
     rbind (ok_or OffsetOverflow (usize_checked_add offset 4)) (\<lambda>end.
     rbind (ok_or TruncatedU32 (get_range m offset end)) (\<lambda>bytes.
     Inr (from_be bytes, end)))"

section \<open>Names\<close>


function skip_name_loop :: "u8 list \<Rightarrow> nat \<Rightarrow> nat \<Rightarrow> dns_error + nat" where
  "skip_name_loop m end pos =
     (if end \<le> pos \<or> length m \<le> pos then Inl TruncatedName
      else rbind (index_byte m pos) (\<lambda>len.
        if len AND 0xc0 = 0xc0 then
          (if end \<le> pos + 1 \<or> length m \<le> pos + 1 then Inl TruncatedPointer else Inr (pos + 2))
        else if len AND 0xc0 \<noteq> 0 then Inl BadLabelType
        else if len = 0 then Inr (pos + 1)
        else rbind (ok_or LabelOverflow (usize_checked_add (pos + 1) (unat len)))
               (skip_name_loop m end)))"
  by pat_completeness auto
termination
  by (relation "measure (\<lambda>(m, end, pos). length m - pos)") (auto simp: res_simps)

declare skip_name_loop.simps [simp del]

definition skip_name :: "u8 list \<Rightarrow> nat \<Rightarrow> dns_error + nat" where
  "skip_name m offset = skip_name_loop m (length m) offset"

definition skip_name_bounded :: "u8 list \<Rightarrow> nat \<Rightarrow> nat \<Rightarrow> dns_error + nat" where
  "skip_name_bounded m offset end = skip_name_loop m end offset"

section \<open>The service parameters of one record\<close>

lemma read_u16_at_offset [simp]: "read_u16_at m offset = Inr (v, o') \<Longrightarrow> o' = offset + 2"
  by (auto simp: read_u16_at_def res_simps)

function find_ech_param :: "u8 list \<Rightarrow> nat \<Rightarrow> nat \<Rightarrow> dns_error + u8 list option" where
  "find_ech_param m end offset =
     (if offset < end then
        (if end - offset < 4 then Inl TruncatedParameter
         else rbind (read_u16_at m offset) (\<lambda>(key, o1).
              rbind (read_u16_at m o1) (\<lambda>(len, o2).
              rbind (ok_or ParameterOverflow (usize_checked_add o2 (unat len))) (\<lambda>value_end.
              if end < value_end then Inl ParameterExceedsRdata
              else if key = 5 then rbind (index_range m o2 value_end) (\<lambda>v. Inr (Some v))
              else find_ech_param m end value_end))))
      else Inr None)"
  by pat_completeness auto
termination
  by (relation "measure (\<lambda>(m, end, offset). end - offset)")
    (auto simp: res_simps dest!: read_u16_at_offset)

declare find_ech_param.simps [simp del]

definition parse_https_rdata_for_ech :: "u8 list \<Rightarrow> nat \<Rightarrow> nat \<Rightarrow> dns_error + u8 list option" where
  "parse_https_rdata_for_ech m offset end =
     rbind (skip_bytes m offset 2) (\<lambda>o1.
     rbind (skip_name_bounded m o1 end) (\<lambda>o2.
     find_ech_param m end o2))"

section \<open>The response\<close>

definition default_ech_cache_ttl :: nat where "default_ech_cache_ttl = 300"

fun skip_questions :: "u8 list \<Rightarrow> nat \<Rightarrow> nat \<Rightarrow> dns_error + nat" where
  "skip_questions m 0 offset = Inr offset"
| "skip_questions m (Suc n) offset =
     rbind (skip_name m offset) (\<lambda>o1.
     rbind (skip_bytes m o1 4) (skip_questions m n))"

text \<open>The time to live is a duration in seconds.\<close>

fun read_answers :: "u8 list \<Rightarrow> nat \<Rightarrow> nat \<Rightarrow> dns_error + u8 list \<times> nat" where
  "read_answers m 0 offset = Inl NoEchParameter"
| "read_answers m (Suc n) offset =
     rbind (skip_name m offset) (\<lambda>o1.
     rbind (read_u16_at m o1) (\<lambda>(rr_type, o2).
     rbind (read_u16_at m o2) (\<lambda>(_, o3).
     rbind (read_u32_at m o3) (\<lambda>(ttl, o4).
     rbind (read_u16_at m o4) (\<lambda>(rdlen, rdata_start).
     rbind (ok_or RdataLengthOverflow (usize_checked_add rdata_start (unat rdlen))) (\<lambda>rdata_end.
     if length m < rdata_end then Inl RdataExceedsMessage
     else if rr_type = 65 then
       rbind (parse_https_rdata_for_ech m rdata_start rdata_end) (\<lambda>found.
       case found of
         Some ech \<Rightarrow> Inr (ech, if ttl = 0 then default_ech_cache_ttl else unat ttl)
       | None \<Rightarrow> read_answers m n rdata_end)
     else read_answers m n rdata_end))))))"

definition parse_https_response_for_ech :: "u8 list \<Rightarrow> dns_error + u8 list \<times> nat" where
  "parse_https_response_for_ech m =
     (if length m < 12 then Inl ResponseTooShort
      else rbind (read_u16 m 2) (\<lambda>flags.
        if flags AND 0x8000 = 0 then Inl NotAResponse
        else if flags AND 0x000f \<noteq> 0 then Inl (BadRcode (flags AND 0x000f))
        else rbind (read_u16 m 4) (\<lambda>qdcount.
             rbind (read_u16 m 6) (\<lambda>ancount.
             rbind (skip_questions m (unat qdcount) 12) (\<lambda>offset.
             read_answers m (unat ancount) offset)))))"

section \<open>Every message: no panic, offsets in range\<close>

lemma index_byte_inside [simp]: "i < length m \<Longrightarrow> index_byte m i = Inr (m ! i)"
  by (simp add: index_byte_def)

lemma get_range_Some [res_simps]:
  "get_range m a b = Some v \<longleftrightarrow> a \<le> b \<and> b \<le> length m \<and> v = take (b - a) (drop a m)"
  by (auto simp: get_range_def)

lemma read_u16_at_bounds: "read_u16_at m off = Inr (v, o') \<Longrightarrow> o' = off + 2 \<and> o' \<le> length m"
  by (auto simp: read_u16_at_def read_u16_def res_simps)

lemma read_u32_at_bounds: "read_u32_at m off = Inr (v, o') \<Longrightarrow> o' = off + 4 \<and> o' \<le> length m"
  by (auto simp: read_u32_at_def res_simps)

lemma read_no_panic [simp]:
  "read_u16 m off \<noteq> Inl Panicked" "read_u16_at m off \<noteq> Inl Panicked"
  "read_u32_at m off \<noteq> Inl Panicked" "skip_bytes m off n \<noteq> Inl Panicked"
  by (auto simp: read_u16_at_def read_u16_def read_u32_at_def skip_bytes_def res_simps)

lemma skip_name_loop_bounds:
  "skip_name_loop m end pos = Inr p \<Longrightarrow> pos < p \<and> p \<le> end \<and> p \<le> length m"
proof (induction m "end" pos rule: skip_name_loop.induct)
  case (1 m "end" pos)
  from "1.prems" have "pos < end" "pos < length m"
    by (auto simp: skip_name_loop.simps [of m "end" pos] split: if_splits)
  with "1" show ?case
    by (subst (asm) (2) skip_name_loop.simps) (fastforce simp: res_simps split: if_splits)
qed

lemma skip_name_loop_no_panic: "skip_name_loop m end pos \<noteq> Inl Panicked"
proof (induction m "end" pos rule: skip_name_loop.induct)
  case (1 m "end" pos)
  show ?case
    using "1.IH" by (subst skip_name_loop.simps) (auto simp: res_simps)
qed

lemma find_ech_param_no_panic: "end \<le> length m \<Longrightarrow> find_ech_param m end off \<noteq> Inl Panicked"
proof (induction m "end" off rule: find_ech_param.induct)
  case (1 m "end" off)
  show ?case
  proof
    assume e: "find_ech_param m end off = Inl Panicked"
    then have "off < end" "\<not> end - off < 4"
      by (auto simp: find_ech_param.simps [of m "end" off] split: if_splits)
    moreover from this e obtain k o1 l o2 where
      r: "read_u16_at m off = Inr (k, o1)" "read_u16_at m o1 = Inr (l, o2)"
        "o2 + unat l < usize_limit"
      by (subst (asm) find_ech_param.simps) (auto simp: res_simps)
    moreover from this have "o2 \<le> o2 + unat l" "o2 \<le> length m"
      by (auto dest: read_u16_at_bounds)
    ultimately show False using e "1.IH" "1.prems"
      by (subst (asm) find_ech_param.simps)
        (auto simp: res_simps index_range_def get_range_def split: if_splits)
  qed
qed

lemma read_u16_at_take:
  assumes "read_u16_at m off = Inr (v, o')"
  shows "take 2 (drop off m) = to_be 2 v"
proof -
  from assms have v: "v = from_be (take 2 (drop off m))" and "off + 2 \<le> length m"
    by (auto simp: read_u16_at_def read_u16_def res_simps)
  then have "length (take 2 (drop off m)) = 2" by simp
  then show ?thesis unfolding v by (subst to_be_from_be) simp_all
qed

lemma find_ech_param_Some:
  "find_ech_param m end off = Inr (Some ech) \<Longrightarrow>
     \<exists>p q len. m = p @ to_be 2 (5 :: u16) @ to_be 2 (len :: u16) @ ech @ q \<and>
       length ech = unat len \<and> off \<le> length p \<and> length p + 4 + length ech \<le> end"
proof (induction m "end" off rule: find_ech_param.induct)
  case (1 m "end" off)
  from "1.prems" have lt: "off < end" "\<not> end - off < 4"
    by (auto simp: find_ech_param.simps [of m "end" off] split: if_splits)
  with "1.prems" obtain k o1 l o2 where
    r: "read_u16_at m off = Inr (k, o1)" "read_u16_at m o1 = Inr (l, o2)"
      "usize_checked_add o2 (unat l) = Some (o2 + unat l)" "o2 + unat l \<le> end"
    by (subst (asm) find_ech_param.simps) (auto simp: res_simps split: if_splits)
  note eq = "1.prems" [unfolded find_ech_param.simps [of m "end" off]]
  have o: "o1 = off + 2" "o2 = off + 4" using r by (auto dest!: read_u16_at_bounds)
  show ?case
  proof (cases "k = 5")
    case True
    with eq lt r have v: "ech = take (unat l) (drop o2 m)" "o2 + unat l \<le> length m"
      by (auto simp: res_simps index_range_def)
    have "take 2 (drop off m) = to_be 2 (5 :: u16)" "take 2 (drop (off + 2) m) = to_be 2 l"
      using read_u16_at_take [OF r(1)] read_u16_at_take [OF r(2)] True o(1) by simp_all
    then have "drop off m = to_be 2 (5 :: u16) @ drop (off + 2) m"
      "drop (off + 2) m = to_be 2 l @ drop o2 m" "drop o2 m = ech @ drop (o2 + unat l) m"
      using append_take_drop_id [of 2 "drop off m"] append_take_drop_id [of 2 "drop (off + 2) m"]
        append_take_drop_id [of "unat l" "drop o2 m"] v(1) o
      by (simp_all add: ac_simps del: add_2_eq_Suc add_2_eq_Suc')
    then have "m = take off m @ to_be 2 (5 :: u16) @ to_be 2 l @ ech @ drop (o2 + unat l) m"
      by (metis append_take_drop_id)
    with v r o show ?thesis
      by (intro exI [of _ "take off m"] exI [of _ "drop (o2 + unat l) m"] exI [of _ l])
        (auto simp: min_def)
  next
    case False
    with eq lt r have "find_ech_param m end (o2 + unat l) = Inr (Some ech)"
      by (auto simp: res_simps)
    with "1.IH" [OF lt r(1) refl r(2) refl, of "o2 + unat l"] r(3,4) False obtain p q len where
      "m = p @ to_be 2 (5 :: u16) @ to_be 2 (len :: u16) @ ech @ q" "length ech = unat len"
      "o2 + unat l \<le> length p" "length p + 4 + length ech \<le> end"
      by auto
    with o show ?thesis
      by (intro exI [of _ p] exI [of _ q] exI [of _ len]) simp
  qed
qed

lemma parse_https_rdata_no_panic:
  "end \<le> length m \<Longrightarrow> parse_https_rdata_for_ech m off end \<noteq> Inl Panicked"
  by (auto simp: parse_https_rdata_for_ech_def skip_name_bounded_def res_simps
      skip_name_loop_no_panic find_ech_param_no_panic)

lemma skip_questions_no_panic: "skip_questions m n off \<noteq> Inl Panicked"
  by (induction m n off rule: skip_questions.induct)
    (auto simp: res_simps skip_name_def skip_name_loop_no_panic)

lemma read_answers_no_panic: "read_answers m n off \<noteq> Inl Panicked"
proof (induction n arbitrary: off)
  case (Suc n)
  then show ?case
    by (auto simp: res_simps skip_name_def skip_name_loop_no_panic parse_https_rdata_no_panic
        split: if_splits option.splits)
qed simp

lemma read_answers_sound:
  "read_answers m n off = Inr (ech, ttl) \<Longrightarrow>
     \<exists>p q len. m = p @ to_be 2 (5 :: u16) @ to_be 2 (len :: u16) @ ech @ q \<and>
       length ech = unat len \<and> 0 < ttl \<and> ttl < 2 ^ 32"
proof (induction n arbitrary: off)
  case (Suc n)
  have lt: "unat (t :: u32) < 2 ^ 32" for t
    using unsigned_less [of t] by simp
  from Suc.prems obtain o3 t o4 l o5 ty where
    "read_u32_at m o3 = Inr (t, o4)" and "read_u16_at m o4 = Inr (l, o5)" and
    "(ty = 65 \<and> parse_https_rdata_for_ech m o5 (o5 + unat l) = Inr (Some ech) \<and>
        ttl = (if t = 0 then default_ech_cache_ttl else unat t)) \<or>
     read_answers m n (o5 + unat l) = Inr (ech, ttl)"
    by (force simp: res_simps split: if_splits option.splits)
  then consider "parse_https_rdata_for_ech m o5 (o5 + unat l) = Inr (Some ech)"
      "ttl = (if t = 0 then default_ech_cache_ttl else unat t)"
    | "read_answers m n (o5 + unat l) = Inr (ech, ttl)" by blast
  then show ?case
  proof cases
    case 1
    then obtain o6 where "find_ech_param m (o5 + unat l) o6 = Inr (Some ech)"
      by (auto simp: res_simps parse_https_rdata_for_ech_def)
    moreover have "0 < ttl" "ttl < 2 ^ 32"
      using 1(2) lt [of t] by (auto simp: default_ech_cache_ttl_def unat_gt_0)
    ultimately show ?thesis using find_ech_param_Some by blast
  next
    case 2
    then show ?thesis by (rule Suc.IH)
  qed
qed simp

section \<open>A reference encoder of responses\<close>

text \<open>
  What the parser is for: a response laid out as RFC 1035 and RFC 9460 lay it out. A name is a
  list of labels followed by the root label or a two-byte compression pointer.
\<close>

type_synonym wire_name = "u8 list list \<times> u8 list"

definition wire_name_ok :: "wire_name \<Rightarrow> bool" where
  "wire_name_ok n \<longleftrightarrow>
     list_all (\<lambda>l. l \<noteq> [] \<and> length l < 64) (fst n) \<and>
     (snd n = [0] \<or> (length (snd n) = 2 \<and> hd (snd n) AND 0xc0 = 0xc0))"

definition enc_label :: "u8 list \<Rightarrow> u8 list" where
  "enc_label l = word_of_nat (length l) # l"

definition enc_name :: "wire_name \<Rightarrow> u8 list" where
  "enc_name n = concat (map enc_label (fst n)) @ snd n"

definition enc_param :: "u16 \<times> u8 list \<Rightarrow> u8 list" where
  "enc_param p = to_be 2 (fst p) @ to_be 2 (word_of_nat (length (snd p)) :: u16) @ snd p"

definition param_ok :: "u16 \<times> u8 list \<Rightarrow> bool" where
  "param_ok p \<longleftrightarrow> length (snd p) < 65536"

definition enc_svcb :: "u16 \<Rightarrow> wire_name \<Rightarrow> (u16 \<times> u8 list) list \<Rightarrow> u8 list" where
  "enc_svcb priority target params =
     to_be 2 priority @ enc_name target @ concat (map enc_param params)"

datatype dns_answer =
    HttpsAnswer wire_name u16 u32 u16 wire_name "(u16 \<times> u8 list) list"
  | OtherAnswer wire_name u16 u16 u32 "u8 list"

definition enc_rr :: "wire_name \<Rightarrow> u16 \<Rightarrow> u16 \<Rightarrow> u32 \<Rightarrow> u8 list \<Rightarrow> u8 list" where
  "enc_rr owner rr_type cls ttl rdata =
     enc_name owner @ to_be 2 rr_type @ to_be 2 cls @ to_be 4 ttl
       @ to_be 2 (word_of_nat (length rdata) :: u16) @ rdata"

fun enc_answer :: "dns_answer \<Rightarrow> u8 list" where
  "enc_answer (HttpsAnswer owner cls ttl priority target params) =
     enc_rr owner 65 cls ttl (enc_svcb priority target params)"
| "enc_answer (OtherAnswer owner rr_type cls ttl rdata) = enc_rr owner rr_type cls ttl rdata"

fun answer_ok :: "dns_answer \<Rightarrow> bool" where
  "answer_ok (HttpsAnswer owner cls ttl priority target params) \<longleftrightarrow>
     wire_name_ok owner \<and> wire_name_ok target \<and> list_all param_ok params \<and>
     length (enc_svcb priority target params) < 65536"
| "answer_ok (OtherAnswer owner rr_type cls ttl rdata) \<longleftrightarrow>
     wire_name_ok owner \<and> rr_type \<noteq> 65 \<and> length rdata < 65536"

definition enc_question :: "wire_name \<times> u16 \<times> u16 \<Rightarrow> u8 list" where
  "enc_question q = enc_name (fst q) @ to_be 2 (fst (snd q)) @ to_be 2 (snd (snd q))"

definition enc_response ::
    "u16 \<Rightarrow> u16 \<Rightarrow> u8 list \<Rightarrow> (wire_name \<times> u16 \<times> u16) list \<Rightarrow> dns_answer list \<Rightarrow> u8 list \<Rightarrow> u8 list" where
  "enc_response ident flags counts questions answers tail =
     to_be 2 ident @ to_be 2 flags @ to_be 2 (word_of_nat (length questions) :: u16)
       @ to_be 2 (word_of_nat (length answers) :: u16) @ counts
       @ concat (map enc_question questions) @ concat (map enc_answer answers) @ tail"

fun first_ech :: "dns_answer list \<Rightarrow> (u8 list \<times> nat) option" where
  "first_ech [] = None"
| "first_ech (HttpsAnswer owner cls ttl priority target params # as) =
     (case map_of params 5 of
        Some v \<Rightarrow> Some (v, if ttl = 0 then 300 else unat ttl)
      | None \<Rightarrow> first_ech as)"
| "first_ech (OtherAnswer owner rr_type cls ttl rdata # as) = first_ech as"

section \<open>Reading back what the encoder writes\<close>

text \<open>\<open>at_offset m off xs\<close>: from \<open>off\<close> on, the message is \<open>xs\<close>. Memory holds less than
  \<open>isize::MAX\<close> bytes, so no offset inside a message overflows.\<close>

definition at_offset :: "u8 list \<Rightarrow> nat \<Rightarrow> u8 list \<Rightarrow> bool" where
  "at_offset m off xs \<longleftrightarrow> length m < 2 ^ 63 \<and> off \<le> length m \<and> drop off m = xs"

lemma at_offset_0: "at_offset m 0 m \<longleftrightarrow> length m < 2 ^ 63"
  by (simp add: at_offset_def)

lemma at_offset_length: "at_offset m off xs \<Longrightarrow> length m = off + length xs"
  by (auto simp: at_offset_def)

lemma at_offset_append:
  assumes "at_offset m off (a @ xs)"
  shows "at_offset m (off + length a) xs"
proof -
  have "drop (length a) (drop off m) = xs" using assms by (simp add: at_offset_def)
  then have "drop (off + length a) m = xs" by (simp add: add.commute)
  then show ?thesis using at_offset_length [OF assms] assms by (simp add: at_offset_def)
qed

lemma at_offset_take: "at_offset m off (a @ xs) \<Longrightarrow> take (length a) (drop off m) = a"
  by (simp add: at_offset_def)

lemma at_offset_nth: "at_offset m off (b # xs) \<Longrightarrow> off < length m \<and> m ! off = b"
  by (metis at_offset_def at_offset_length add_diff_cancel_left' hd_drop_conv_nth length_drop
      length_greater_0_conv list.distinct(1) list.sel(1) zero_less_diff)

lemma at_offset_usize:
  assumes "at_offset m off xs" "n \<le> length xs"
  shows "off + n < usize_limit"
  using at_offset_length [OF assms(1)] assms by (simp add: at_offset_def usize_limit_def)

lemma read_u16_at_offset_to_be:
  assumes "at_offset m off (to_be 2 v @ xs)"
  shows "read_u16_at m off = Inr (v, off + 2) \<and> read_u16 m off = Inr v \<and> at_offset m (off + 2) xs"
  using at_offset_append [OF assms] at_offset_take [OF assms] at_offset_length [OF assms]
    at_offset_usize [OF assms, of 2]
  by (simp add: read_u16_at_def read_u16_def usize_checked_add_def get_range_def)

lemma read_u32_at_offset_to_be:
  assumes "at_offset m off (to_be 4 v @ xs)"
  shows "read_u32_at m off = Inr (v, off + 4) \<and> at_offset m (off + 4) xs"
  using at_offset_append [OF assms] at_offset_take [OF assms] at_offset_length [OF assms]
    at_offset_usize [OF assms, of 4]
  by (simp add: read_u32_at_def usize_checked_add_def get_range_def)

lemma label_length_byte:
  "n < 64 \<Longrightarrow> (word_of_nat n :: u8) AND 0xc0 = 0"
proof -
  assume "n < 64"
  then have "word_of_nat n = take_bit 6 (word_of_nat n :: u8)"
    by (intro word_unat_eq_iff [THEN iffD2])
      (simp add: unsigned_take_bit_eq take_bit_nat_eq_self)
  then have "(word_of_nat n :: u8) AND 0xc0 = (word_of_nat n AND mask 6) AND 0xc0"
    by (simp add: take_bit_eq_mask)
  also have "\<dots> = word_of_nat n AND (mask 6 AND 0xc0)"
    by (simp only: and.assoc)
  also have "mask 6 AND 0xc0 = (0 :: u8)" by (simp add: mask_eq_exp_minus_1)
  finally show ?thesis by simp
qed

lemma skip_name_loop_enc:
  assumes "at_offset m off (concat (map enc_label ls) @ t @ xs)"
    and "list_all (\<lambda>l. l \<noteq> [] \<and> length l < 64) ls"
    and "t = [0] \<or> (length t = 2 \<and> hd t AND 0xc0 = 0xc0)"
    and "off + length (concat (map enc_label ls) @ t) \<le> end" "end \<le> length m"
  shows "skip_name_loop m end off = Inr (off + length (concat (map enc_label ls) @ t))"
  using assms
proof (induction ls arbitrary: off)
  case Nil
  from Nil.prems(3) obtain b t' where t: "t = b # t'" by (cases t) auto
  with Nil.prems(1) have "off < length m" "m ! off = b" by (auto dest: at_offset_nth)
  with Nil t show ?case
    by (subst skip_name_loop.simps) (auto simp: index_byte_def)
next
  case (Cons l ls)
  let ?rest = "concat (map enc_label ls) @ t"
  have at: "at_offset m off (enc_label l @ ?rest @ xs)" using Cons.prems(1) by simp
  then have b: "off < length m" "m ! off = word_of_nat (length l)"
    by (auto simp: enc_label_def dest: at_offset_nth)
  have l: "length l < 64" "l \<noteq> []" using Cons.prems(2) by auto
  then have w: "unat (word_of_nat (length l) :: u8) = length l" by simp
  have nz: "(word_of_nat (length l) :: u8) \<noteq> 0"
    using w l by (metis length_0_conv unsigned_0)
  have next_at: "at_offset m (off + Suc (length l)) (?rest @ xs)"
    using at_offset_append [OF at] by (simp add: enc_label_def)
  have lim: "off + Suc (length l) < usize_limit"
    by (rule at_offset_usize [OF at]) (simp add: enc_label_def)
  have "skip_name_loop m end (off + Suc (length l)) = Inr (off + Suc (length l) + length ?rest)"
    by (rule Cons.IH) (use Cons.prems next_at in \<open>auto simp: enc_label_def [of l]\<close>)
  moreover have "off < end" using Cons.prems(4) by (simp add: enc_label_def)
  ultimately show ?case using b l w nz lim label_length_byte [OF l(1)]
    by (subst skip_name_loop.simps)
      (auto simp: index_byte_def enc_label_def [of l] usize_checked_add_def)
qed

lemma skip_name_loop_enc_name:
  assumes "at_offset m off (enc_name n @ xs)" "wire_name_ok n"
    and "off + length (enc_name n) \<le> end" "end \<le> length m"
  shows "skip_name_loop m end off = Inr (off + length (enc_name n))"
  using skip_name_loop_enc [of m off "fst n" "snd n" xs "end"] assms
  by (simp add: enc_name_def wire_name_ok_def add.assoc)

lemma skip_name_enc:
  assumes "at_offset m off (enc_name n @ xs)" "wire_name_ok n"
  shows "skip_name m off = Inr (off + length (enc_name n))"
  unfolding skip_name_def
  by (rule skip_name_loop_enc_name [OF assms]) (simp_all add: at_offset_length [OF assms(1)])

lemma skip_bytes_at:
  assumes "at_offset m off (a @ xs)" "length a = n"
  shows "skip_bytes m off n = Inr (off + n)"
  using at_offset_length [OF assms(1)] at_offset_usize [OF assms(1), of n] assms(2)
  by (simp add: skip_bytes_def usize_checked_add_def)

lemma find_ech_param_enc:
  assumes "at_offset m off (concat (map enc_param ps) @ xs)" "list_all param_ok ps"
    and "end = off + length (concat (map enc_param ps))"
  shows "find_ech_param m end off = Inr (map_of ps 5)"
  using assms
proof (induction ps arbitrary: off)
  case Nil
  then show ?case by (simp add: find_ech_param.simps)
next
  case (Cons p ps)
  obtain k v where p: "p = (k, v)" by (cases p)
  let ?rest = "concat (map enc_param ps)"
  from Cons.prems(2) p have v: "length v < 65536" by (simp add: param_ok_def)
  then have w: "unat (word_of_nat (length v) :: u16) = length v" by simp
  have 0: "at_offset m off (to_be 2 k @ to_be 2 (word_of_nat (length v) :: u16) @ v @ ?rest @ xs)"
    using Cons.prems(1) p by (simp add: enc_param_def [of "(k, v)"])
  note 1 = read_u16_at_offset_to_be [OF 0]
  note 2 = read_u16_at_offset_to_be [OF conjunct2 [OF conjunct2 [OF 1]]]
  have at: "at_offset m (off + 4) (v @ ?rest @ xs)"
    using 2 by (simp add: add.assoc del: add_2_eq_Suc add_2_eq_Suc')
  have 3: "at_offset m (off + 4 + length v) (?rest @ xs)" by (rule at_offset_append [OF at])
  have lim: "off + 4 + length v < usize_limit" by (rule at_offset_usize [OF at]) simp
  have e: "end = off + 4 + length v + length ?rest"
    using Cons.prems(3) p by (simp add: enc_param_def [of "(k, v)"])
  have IH: "find_ech_param m end (off + 4 + length v) = Inr (map_of ps 5)"
    by (rule Cons.IH [OF 3 _ e]) (use Cons.prems in simp)
  have val: "index_range m (off + 4) (off + 4 + length v) = Inr v"
    using at_offset_take [OF at] at_offset_length [OF at]
    by (simp add: index_range_def get_range_def)
  have r1: "read_u16_at m off = Inr (k, off + 2)" using 1 by blast
  have r2: "read_u16_at m (off + 2) = Inr (word_of_nat (length v), off + 4)"
    using 2 by (simp add: add.assoc del: add_2_eq_Suc add_2_eq_Suc')
  show ?case
    using r1 r2 lim IH val w e p
    by (subst find_ech_param.simps)
      (simp add: usize_checked_add_def del: add_2_eq_Suc add_2_eq_Suc')
qed

lemma parse_https_rdata_enc:
  assumes "at_offset m off (enc_svcb priority target params @ xs)"
    and "wire_name_ok target" "list_all param_ok params"
    and "end = off + length (enc_svcb priority target params)"
  shows "parse_https_rdata_for_ech m off end = Inr (map_of params 5)"
proof -
  let ?ps = "concat (map enc_param params)"
  have 0: "at_offset m off (to_be 2 priority @ enc_name target @ ?ps @ xs)"
    using assms(1) by (simp add: enc_svcb_def)
  have 1: "at_offset m (off + 2) (enc_name target @ ?ps @ xs)"
    using at_offset_append [OF 0] by simp
  have 2: "at_offset m (off + 2 + length (enc_name target)) (?ps @ xs)"
    by (rule at_offset_append [OF 1])
  have e: "end = off + 2 + length (enc_name target) + length ?ps"
    using assms(4) by (simp add: enc_svcb_def)
  have s: "skip_bytes m off 2 = Inr (off + 2)" by (rule skip_bytes_at [OF 0]) simp
  have n: "skip_name_bounded m (off + 2) end = Inr (off + 2 + length (enc_name target))"
    unfolding skip_name_bounded_def
    by (rule skip_name_loop_enc_name [OF 1 assms(2)])
      (simp_all add: e at_offset_length [OF 1])
  show ?thesis
    by (simp add: parse_https_rdata_for_ech_def s n find_ech_param_enc [OF 2 assms(3) e]
        del: add_2_eq_Suc add_2_eq_Suc')
qed

lemma skip_questions_enc:
  assumes "at_offset m off (concat (map enc_question qs) @ xs)"
    and "list_all (\<lambda>q. wire_name_ok (fst q)) qs"
  shows "skip_questions m (length qs) off = Inr (off + length (concat (map enc_question qs)))"
  using assms
proof (induction qs arbitrary: off)
  case Nil
  then show ?case by simp
next
  case (Cons q qs)
  let ?n = "enc_name (fst q)" and ?rest = "concat (map enc_question qs)"
  have 0: "at_offset m off (?n @ (to_be 2 (fst (snd q)) @ to_be 2 (snd (snd q))) @ ?rest @ xs)"
    using Cons.prems(1) by (simp add: enc_question_def [of q])
  note 1 = at_offset_append [OF 0]
  have 2: "at_offset m (off + length ?n + 4) (?rest @ xs)"
    using at_offset_append [OF 1] by simp
  have n: "skip_name m off = Inr (off + length ?n)"
    by (rule skip_name_enc [OF 0]) (use Cons.prems in simp)
  have b: "skip_bytes m (off + length ?n) 4 = Inr (off + length ?n + 4)"
    by (rule skip_bytes_at [OF 1]) simp
  show ?case
    using n b Cons.IH [OF 2] Cons.prems(2) by (simp add: enc_question_def [of q])
qed

lemma read_answers_rr:
  assumes "at_offset m off (enc_rr owner ty cls ttl rdata @ xs)"
    and "wire_name_ok owner" "length rdata < 65536"
  shows "\<exists>start. at_offset m start (rdata @ xs) \<and>
     start + length rdata = off + length (enc_rr owner ty cls ttl rdata) \<and>
     read_answers m (Suc n) off =
       (if ty = 65 then
          rbind (parse_https_rdata_for_ech m start (start + length rdata)) (\<lambda>found.
            case found of
              Some ech \<Rightarrow> Inr (ech, if ttl = 0 then default_ech_cache_ttl else unat ttl)
            | None \<Rightarrow> read_answers m n (start + length rdata))
        else read_answers m n (start + length rdata))"
proof -
  let ?l = "word_of_nat (length rdata) :: u16"
  have w: "unat ?l = length rdata" using assms(3) by simp
  have 0: "at_offset m off (enc_name owner @ to_be 2 ty @ to_be 2 cls @ to_be 4 ttl @ to_be 2 ?l @ rdata @ xs)"
    using assms(1) by (simp add: enc_rr_def)
  define o1 where "o1 = off + length (enc_name owner)"
  have n: "skip_name m off = Inr o1" unfolding o1_def by (rule skip_name_enc [OF 0 assms(2)])
  note 1 = read_u16_at_offset_to_be [OF at_offset_append [OF 0, folded o1_def]]
  note 2 = read_u16_at_offset_to_be [OF conjunct2 [OF conjunct2 [OF 1]]]
  note 3 = read_u32_at_offset_to_be [OF conjunct2 [OF conjunct2 [OF 2]]]
  note 4 = read_u16_at_offset_to_be [OF conjunct2 [OF 3]]
  define start where "start = o1 + 2 + 2 + 4 + 2"
  have at: "at_offset m start (rdata @ xs)" using 4 unfolding start_def by blast
  have lim: "start + length rdata < usize_limit" by (rule at_offset_usize [OF at]) simp
  have le: "\<not> length m < start + length rdata" using at_offset_length [OF at] by simp
  have "start + length rdata = off + length (enc_rr owner ty cls ttl rdata)"
    by (simp add: start_def o1_def enc_rr_def)
  moreover have "read_u16_at m (o1 + 2 + 2 + 4) = Inr (?l, start)" using 4 unfolding start_def by blast
  ultimately show ?thesis
    using at n 1 2 3 lim le w
    by (intro exI [of _ start])
      (simp add: usize_checked_add_def del: add_2_eq_Suc add_2_eq_Suc')
qed

lemma read_answers_enc:
  assumes "at_offset m off (concat (map enc_answer as) @ xs)" "list_all answer_ok as"
  shows "read_answers m (length as) off = ok_or NoEchParameter (first_ech as)"
  using assms
proof (induction as arbitrary: off)
  case Nil
  then show ?case by simp
next
  case (Cons a as)
  show ?case
  proof (cases a)
    case (HttpsAnswer owner cls ttl priority target params)
    let ?rd = "enc_svcb priority target params"
    from Cons.prems HttpsAnswer
    have 0: "at_offset m off (enc_rr owner 65 cls ttl ?rd @ concat (map enc_answer as) @ xs)"
      and ok: "wire_name_ok owner" "length ?rd < 65536"
      and ok': "wire_name_ok target" "list_all param_ok params" by auto
    obtain start where s: "at_offset m start (?rd @ concat (map enc_answer as) @ xs)"
      and r: "read_answers m (Suc (length as)) off =
          rbind (parse_https_rdata_for_ech m start (start + length ?rd)) (\<lambda>found.
            case found of
              Some ech \<Rightarrow> Inr (ech, if ttl = 0 then default_ech_cache_ttl else unat ttl)
            | None \<Rightarrow> read_answers m (length as) (start + length ?rd))"
      using read_answers_rr [OF 0 ok, of "length as"] by auto
    show ?thesis
      using r HttpsAnswer Cons.IH [OF at_offset_append [OF s]] Cons.prems(2)
      by (simp add: parse_https_rdata_enc [OF s ok' refl] default_ech_cache_ttl_def
          split: option.splits)
  next
    case (OtherAnswer owner ty cls ttl rd)
    with Cons.prems
    have 0: "at_offset m off (enc_rr owner ty cls ttl rd @ concat (map enc_answer as) @ xs)"
      and ok: "wire_name_ok owner" "length rd < 65536" and ty: "ty \<noteq> 65" by auto
    obtain start where s: "at_offset m start (rd @ concat (map enc_answer as) @ xs)"
      and r: "read_answers m (Suc (length as)) off = read_answers m (length as) (start + length rd)"
      using read_answers_rr [OF 0 ok, of "length as"] ty by auto
    show ?thesis
      using r OtherAnswer Cons.IH [OF at_offset_append [OF s]] Cons.prems(2) by simp
  qed
qed

lemma parse_response_enc:
  assumes flags: "flags AND 0x8000 \<noteq> 0" "flags AND 0x000f = 0"
    and counts: "length counts = 4" "length questions < 65536" "length answers < 65536"
    and ok: "list_all (\<lambda>q. wire_name_ok (fst q)) questions" "list_all answer_ok answers"
    and size: "length (enc_response ident flags counts questions answers tail) < 2 ^ 63"
  shows "parse_https_response_for_ech (enc_response ident flags counts questions answers tail) =
           ok_or NoEchParameter (first_ech answers)"
proof -
  define m where "m = enc_response ident flags counts questions answers tail"
  let ?q = "word_of_nat (length questions) :: u16" and ?a = "word_of_nat (length answers) :: u16"
  have w: "unat ?q = length questions" "unat ?a = length answers" using counts by simp_all
  have 0: "at_offset m 0 (to_be 2 ident @ to_be 2 flags @ to_be 2 ?q @ to_be 2 ?a @ counts @
      concat (map enc_question questions) @ concat (map enc_answer answers) @ tail)"
    using size by (simp add: m_def at_offset_def enc_response_def)
  note 1 = read_u16_at_offset_to_be [OF conjunct2 [OF conjunct2 [OF read_u16_at_offset_to_be [OF 0]]]]
  note 2 = read_u16_at_offset_to_be [OF conjunct2 [OF conjunct2 [OF 1]]]
  note 3 = read_u16_at_offset_to_be [OF conjunct2 [OF conjunct2 [OF 2]]]
  have 4: "at_offset m 12 (concat (map enc_question questions) @
      concat (map enc_answer answers) @ tail)"
    using at_offset_append [OF conjunct2 [OF conjunct2 [OF 3]]] counts by simp
  have rs: "read_u16 m 2 = Inr flags" "read_u16 m 4 = Inr ?q" "read_u16 m 6 = Inr ?a"
    using 1 2 3 by (simp_all del: add_2_eq_Suc add_2_eq_Suc')
  have l: "\<not> length m < 12" using at_offset_length [OF 4] by simp
  show ?thesis
    using flags rs l w read_answers_enc [OF at_offset_append [OF 4] ok(2)]
    by (simp add: parse_https_response_for_ech_def skip_questions_enc [OF 4 ok(1)] flip: m_def)
qed

section \<open>The query read back\<close>

definition query_labels :: "string \<Rightarrow> u8 list list" where
  "query_labels name = map bytes_of_str (str_split CHR ''.'' (trim_end_matches CHR ''.'' name))"

lemma push_labels_eq:
  "push_labels ls out =
     (if list_all (\<lambda>l. l \<noteq> [] \<and> length l < 64) ls
      then Inr (out @ concat (map enc_label (map bytes_of_str ls))) else Inl InvalidLabel)"
  by (induction ls out rule: push_labels.induct) (auto simp: enc_label_def [of "bytes_of_str _"])

lemma build_https_query_eq:
  "build_https_query name =
     (if name = [] \<or> 253 < length name then Inl InvalidName
      else if wire_name_ok (query_labels name, [0])
      then Inr (query_header @ enc_name (query_labels name, [0]) @ to_be 2 (65 :: u16) @ to_be 2 (1 :: u16))
      else Inl InvalidLabel)"
proof -
  have "bytes_of_str l \<noteq> [] \<longleftrightarrow> l \<noteq> []" for l by (cases l) (auto simp: bytes_of_str_def)
  then show ?thesis
    by (auto simp: build_https_query_def push_labels_eq wire_name_ok_def query_labels_def
        enc_name_def list.pred_map comp_def)
qed

lemma str_split_length: "sum_list (map length (str_split c s)) + length (str_split c s) = length s + 1"
  by (induction s) (auto split: list.splits)

lemma enc_labels_length:
  "length (concat (map enc_label ls)) = sum_list (map length ls) + length ls"
  by (induction ls) (auto simp: enc_label_def)

lemma trim_end_matches_length: "length (trim_end_matches c s) \<le> length s"
  using length_dropWhile_le [of _ "rev s"] by (simp add: trim_end_matches_def)

lemma query_name_length:
  "length (enc_name (query_labels name, [0])) \<le> length name + 2"
proof -
  have m: "map length (query_labels name) = map length (str_split CHR ''.'' (trim_end_matches CHR ''.'' name))"
    by (simp add: query_labels_def)
  show ?thesis
    using trim_end_matches_length [of "CHR ''.''" name]
      str_split_length [of "CHR ''.''" "trim_end_matches CHR ''.'' name"]
    by (simp add: enc_name_def enc_labels_length m) (simp add: query_labels_def)
qed

lemma query_read_back:
  assumes "build_https_query name = Inr q"
  shows "length q \<le> 271 \<and> skip_name q 12 = Inr (length q - 4)"
proof -
  let ?n = "(query_labels name, [0 :: u8])" and ?t = "to_be 2 (65 :: u16) @ to_be 2 (1 :: u16) :: u8 list"
  from assms have q: "q = query_header @ enc_name ?n @ ?t" and ok: "wire_name_ok ?n"
    and l: "length name \<le> 253"
    by (auto simp: build_https_query_eq split: if_splits)
  have h: "length query_header = 12" by (simp add: query_header_def)
  have len: "length q = length (enc_name ?n) + 16" by (simp add: q h)
  with query_name_length [of name] l have le: "length q \<le> 271" by simp
  then have 0: "at_offset q 0 (query_header @ enc_name ?n @ ?t)" by (simp add: at_offset_def q)
  have 1: "at_offset q 12 (enc_name ?n @ ?t)" using at_offset_append [OF 0] h by simp
  have s: "skip_name q 12 = Inr (length q - 4)"
    using skip_name_enc [OF 1 ok] len by (simp add: add.commute)
  with le show ?thesis by blast
qed

text \<open>
  The labels of a name, without its splitting function: they contain no dot, and joined with dots
  they are the name up to the dots at its end. A name has exactly one such list.
\<close>

fun join_labels :: "string list \<Rightarrow> string" where
  "join_labels [] = []"
| "join_labels [l] = l"
| "join_labels (l # m # ls) = l @ CHR ''.'' # join_labels (m # ls)"

definition dns_labels :: "string \<Rightarrow> string list \<Rightarrow> bool" where
  "dns_labels name labels \<longleftrightarrow>
     labels \<noteq> [] \<and> list_all (\<lambda>l. CHR ''.'' \<notin> set l) labels \<and>
     \<not> suffix ''.'' (join_labels labels) \<and> (\<exists>dots. name = join_labels labels @ replicate dots CHR ''.'')"

lemma str_split_ne [simp]: "str_split c s \<noteq> []"
  by (cases s) (auto split: list.split)

lemma join_split: "join_labels (str_split CHR ''.'' s) = s \<and> list_all (\<lambda>l. CHR ''.'' \<notin> set l) (str_split CHR ''.'' s)"
proof (induction s)
  case (Cons c s)
  then show ?case by (cases "str_split CHR ''.'' s" rule: join_labels.cases) auto
qed simp

lemma split_dotless: "CHR ''.'' \<notin> set l \<Longrightarrow> str_split CHR ''.'' l = [l]"
  "CHR ''.'' \<notin> set l \<Longrightarrow> str_split CHR ''.'' (l @ CHR ''.'' # s) = l # str_split CHR ''.'' s"
  by (induction l) auto

lemma split_join: "ls \<noteq> [] \<Longrightarrow> list_all (\<lambda>l. CHR ''.'' \<notin> set l) ls \<Longrightarrow> str_split CHR ''.'' (join_labels ls) = ls"
  by (induction ls rule: join_labels.induct) (simp_all add: split_dotless)

lemma trim_end_snoc:
  "trim_end_matches d (s @ [c]) = (if c = d then trim_end_matches d s else s @ [c])"
  by (simp add: trim_end_matches_def)

lemma trim_dots: "\<not> suffix [d] s \<Longrightarrow> trim_end_matches d (s @ replicate n d) = s"
proof (induction n)
  case 0
  then show ?case by (cases s rule: rev_cases) (simp_all add: trim_end_snoc, simp add: trim_end_matches_def)
next
  case (Suc n)
  have "s @ replicate (Suc n) d = (s @ replicate n d) @ [d]" by (simp add: replicate_append_same)
  then have "trim_end_matches d (s @ replicate (Suc n) d) = trim_end_matches d (s @ replicate n d)"
    by (simp only: trim_end_snoc simp_thms if_True)
  with Suc show ?case by simp
qed

lemma trim_end_split: "\<not> suffix [d] (trim_end_matches d s) \<and> (\<exists>n. s = trim_end_matches d s @ replicate n d)"
proof (induction s rule: rev_induct)
  case (snoc c s)
  show ?case
  proof (cases "c = d")
    case True
    then have same: "trim_end_matches d (s @ [c]) = trim_end_matches d s" by (simp add: trim_end_snoc)
    obtain t n where t: "trim_end_matches d s = t" "s = t @ replicate n d" using snoc by blast
    then have "s @ [c] = t @ replicate (Suc n) d" using True by (simp add: replicate_append_same)
    with snoc show ?thesis unfolding same t(1) by blast
  next
    case False
    then show ?thesis by (simp add: trim_end_snoc exI [of _ 0])
  qed
qed (simp add: trim_end_matches_def)

lemma dns_labels_split: "dns_labels name (str_split CHR ''.'' (trim_end_matches CHR ''.'' name))"
  using trim_end_split [of "CHR ''.''" name] by (simp add: dns_labels_def join_split)

lemma dns_labels_unique: "dns_labels name labels \<longleftrightarrow> labels = str_split CHR ''.'' (trim_end_matches CHR ''.'' name)"
  using dns_labels_split by (auto simp: dns_labels_def split_join trim_dots)

lemma query_bytes:
  assumes "build_https_query name = Inr q"
  defines "labels \<equiv> str_split CHR ''.'' (trim_end_matches CHR ''.'' name)"
  shows "name \<noteq> [] \<and> length name \<le> 253 \<and> list_all (\<lambda>l. l \<noteq> [] \<and> length l \<le> 63) labels \<and>
    q = [0x45, 0x43, 1, 0, 0, 1, 0, 0, 0, 0, 0, 0] @
      concat (map (\<lambda>l. word_of_nat (length l) # bytes_of_str l) labels) @ [0, 0, 65, 0, 1]"
proof -
  have header: "query_header = [0x45, 0x43, 1, 0, 0, 1, 0, 0, 0, 0, 0, 0]" by code_simp
  have footer: "to_be 2 (65 :: u16) @ to_be 2 (1 :: u16) = ([0, 65, 0, 1] :: u8 list)" by code_simp
  show ?thesis
    using assms(1) unfolding labels_def
    by (auto simp: build_https_query_def push_labels_eq enc_label_def header footer res_simps list_all_iff not_less
        comp_def split: if_splits)
qed

section \<open>Properties\<close>

text \<open>
  C12. Reading an untrusted DNS response never indexes out of range, whatever the bytes are; and
  when a configuration is returned, it is exactly the value of a service parameter with key 5
  whose declared length fits inside the message, with a positive 32-bit time to live.
\<close>

theorem dns_response_sound:
  "case parse_https_response_for_ech m of
     Inl e \<Rightarrow> e \<noteq> Panicked
   | Inr (ech, ttl) \<Rightarrow>
       (\<exists>p q len. m = p @ to_be 2 (5 :: u16) @ to_be 2 (len :: u16) @ ech @ q \<and>
         length ech = unat len \<and> 0 < ttl \<and> ttl < 2 ^ 32)"
proof (cases "parse_https_response_for_ech m")
  case (Inl e)
  then show ?thesis
    by (auto simp: parse_https_response_for_ech_def res_simps skip_questions_no_panic
        read_answers_no_panic split: if_splits)
next
  case (Inr r)
  moreover obtain ech ttl where r: "r = (ech, ttl)" by (cases r)
  ultimately obtain n off where "read_answers m n off = Inr (ech, ttl)"
    by (auto simp: parse_https_response_for_ech_def res_simps split: if_splits)
  from read_answers_sound [OF this] show ?thesis using Inr r by simp
qed

text \<open>
  C13. A well-formed response, encoded with any number of questions, records and parameters,
  labels or compression pointers, and trailing sections, is parsed to the \<open>ech\<close> value of the
  first HTTPS record that carries one (time to live 0 read as 300 seconds), and to the missing
  parameter error when none does.
\<close>

theorem dns_response_roundtrip:
  assumes "flags AND 0x8000 \<noteq> 0" "flags AND 0x000f = 0"
    and "length counts = 4" "length questions < 65536" "length answers < 65536"
    and "list_all (\<lambda>q. wire_name_ok (fst q)) questions" "list_all answer_ok answers"
    and "length (enc_response ident flags counts questions answers tail) < 2 ^ 63"
  shows "parse_https_response_for_ech (enc_response ident flags counts questions answers tail) =
           ok_or NoEchParameter (first_ech answers)"
  by (rule parse_response_enc [OF assms])

theorem dns_response_roundtrip_witness:
  "parse_https_response_for_ech
     (enc_response 7 0x8180 [0, 0, 0, 0] [(([[97], [98]], [0]), 65, 1)]
        [OtherAnswer ([], [0xc0, 12]) 5 1 60 [1, 97, 0],
         HttpsAnswer ([], [0xc0, 12]) 1 0 1 ([], [0]) [(1, [2, 104, 50]), (5, [9, 8, 7])]] []) =
   Inr ([9, 8, 7], 300)"
  by (subst dns_response_roundtrip)
    (simp_all add: wire_name_ok_def param_ok_def enc_svcb_def enc_name_def enc_param_def enc_response_def
      enc_question_def enc_rr_def enc_label_def)

text \<open>
  C14. What \<open>build_https_query\<close> does with a name is decided by its labels, the pieces between its dots
  without the dots at its end: it reports a name or a label that is empty or too long, the name
  first, and otherwise gives the message of one question of type HTTPS and class IN for exactly
  these labels in their order, each after its length. The message has at most 271 bytes, and the
  name skipper of the response parser walks over its question name exactly.
\<close>

theorem dns_query_shape:
  "\<exists>labels. dns_labels name labels \<and>
     (case build_https_query name of
        Inl e \<Rightarrow>
          (name = [] \<or> 253 < length name) \<and> e = InvalidName \<or>
          name \<noteq> [] \<and> length name \<le> 253 \<and> (\<exists>l \<in> set labels. l = [] \<or> 63 < length l) \<and> e = InvalidLabel
      | Inr q \<Rightarrow>
          name \<noteq> [] \<and> length name \<le> 253 \<and> list_all (\<lambda>l. l \<noteq> [] \<and> length l \<le> 63) labels \<and>
          q = [0x45, 0x43, 1, 0, 0, 1, 0, 0, 0, 0, 0, 0] @
                concat (map (\<lambda>l. word_of_nat (length l) # bytes_of_str l) labels) @ [0, 0, 65, 0, 1] \<and>
          length q \<le> 271 \<and> skip_name q 12 = Inr (length q - 4))"
proof (intro exI conjI)
  let ?ls = "str_split CHR ''.'' (trim_end_matches CHR ''.'' name)"
  show "dns_labels name ?ls" by (rule dns_labels_split)
  show "case build_https_query name of
        Inl e \<Rightarrow>
          (name = [] \<or> 253 < length name) \<and> e = InvalidName \<or>
          name \<noteq> [] \<and> length name \<le> 253 \<and> (\<exists>l \<in> set ?ls. l = [] \<or> 63 < length l) \<and> e = InvalidLabel
      | Inr q \<Rightarrow>
          name \<noteq> [] \<and> length name \<le> 253 \<and> list_all (\<lambda>l. l \<noteq> [] \<and> length l \<le> 63) ?ls \<and>
          q = [0x45, 0x43, 1, 0, 0, 1, 0, 0, 0, 0, 0, 0] @
                concat (map (\<lambda>l. word_of_nat (length l) # bytes_of_str l) ?ls) @ [0, 0, 65, 0, 1] \<and>
          length q \<le> 271 \<and> skip_name q 12 = Inr (length q - 4)"
  proof (cases "build_https_query name")
    case (Inl e)
    then show ?thesis
      by (auto simp: build_https_query_def push_labels_eq res_simps list_all_iff split: if_splits intro!: bexI)
  next
    case (Inr q)
    with query_read_back [OF Inr] query_bytes [OF Inr] show ?thesis by simp
  qed
qed

end
