(* ===== verification/Ech_Tls.thy ===== *)
theory Ech_Tls
  imports Client_Config Ech_Dns
begin

text \<open>
  How the client reaches a backend: \<open>client/src/ech_tls.rs\<close> (the bootstrap of the ECH
  configuration over DNS-over-HTTPS, its cache, and \<open>connect_channel\<close> with its policies) and
  \<open>client/src/ech_connector.rs\<close> (the BoringSSL connector). The libraries underneath (\<open>http\<close>,
  \<open>reqwest\<close>, \<open>tonic\<close>, \<open>boring\<close>, the file system, the network and the clock) are the fields of
  the record \<open>tls_env\<close>: what they answer may depend on everything that happened before. The
  record \<open>tls_world\<close> is the state the code changes: the two caches, and the log of the
  network actions it has taken.
\<close>

section \<open>Data\<close>

text \<open>What the code reads of an \<open>http::Uri\<close>.\<close>

record uri =
  uri_scheme :: "string option"
  uri_authority :: "string option"
  uri_host :: "string option"
  uri_port :: "u16 option"

text \<open>\<open>tonic::transport::Endpoint\<close> and \<open>ClientTlsConfig\<close>; durations in milliseconds.\<close>

record tls_config =
  tc_domain_name :: string
  tc_ca_certificate :: "u8 list option"

record endpoint =
  ep_uri :: string
  ep_connect_timeout :: nat
  ep_keep_alive_interval :: nat
  ep_keep_alive_timeout :: nat
  ep_keep_alive_while_idle :: bool
  ep_tls :: "tls_config option"

text \<open>A BoringSSL connector, one configured connection, and what a handshake reports.\<close>

record ssl_connector =
  sc_default_paths :: bool
  sc_roots :: "u8 list list"
  sc_verify_peer :: bool
  sc_alpn_protos :: "u8 list"
  sc_ca_file :: "string option"

record ssl =
  ssl_from :: ssl_connector
  ssl_verify_hostname :: bool
  ssl_name :: string
  ssl_ech_config_list :: "u8 list"

record handshake =
  hs_alpn :: "u8 list option"
  hs_ech_accepted :: bool
  hs_retry_configs :: "u8 list option"

datatype net_event =
    DohPost string "u8 list"
  | TcpConnect string
  | EchHandshake ssl
  | PlainConnect endpoint

datatype connect_error =
    InvalidEndpoint string | MissingHost | MissingAuthority | BadConnectorUri | BadInternalEndpoint
  | TlsConfigRejected | CaCertUnreadable string | ConnectFailed string
  | StrictBootstrapFailed string connect_error
  | DohSend | DohStatus | DohBody | DnsError dns_error
  | NotHttps | TcpFailed string | SslConfigure | SslNew | EchConfigRejected | HandshakeFailed
  | NoH2Alpn | EchRejectedWithRetry nat | EchNotAccepted
  | SslBuilder | DefaultPaths | NativeCerts | BadNativeCert | NoUsableRoots | AlpnRejected
  | CaFile string
  | EchTransport connect_error
  | NoBackends | BackendInit string connect_error | SemaphorePanic

record cached_ech_config =
  ce_config :: "u8 list"
  ce_expires_at :: nat

type_synonym ech_cache = "string \<Rightarrow> cached_ech_config option"

record tls_world =
  tw_instants :: nat
  tw_ech_cache :: ech_cache
  tw_ssl_cache :: "string option \<Rightarrow> ssl_connector option"
  tw_events :: "net_event list"

type_synonym 'a tls_io = "(tls_world, connect_error, 'a) io"

text \<open>
  The environment. \<open>te_instant n\<close> is the value of the \<open>n\<close>-th call of \<open>Instant::now\<close>, in
  nanoseconds; a network answer is a function of the log so far. \<open>te_connect_with_connector\<close> is
  \<open>tonic\<close>'s: it gets the connector it is to call.
\<close>

record 'ch tls_env =
  te_parse_uri :: "string \<Rightarrow> uri option"
  te_uri_to_string :: "uri \<Rightarrow> string"
  te_endpoint_ok :: "string \<Rightarrow> bool"
  te_tls_config_ok :: "tls_config \<Rightarrow> bool"
  te_read_file :: "string \<Rightarrow> u8 list option"
  te_instant :: "nat \<Rightarrow> nat"
  te_doh_post :: "net_event list \<Rightarrow> string \<Rightarrow> u8 list \<Rightarrow> connect_error + u8 list"
  te_connect :: "net_event list \<Rightarrow> endpoint \<Rightarrow> 'ch option"
  te_tcp_connect :: "net_event list \<Rightarrow> string \<Rightarrow> bool"
  te_ssl_builder :: bool
  te_default_verify_paths :: bool
  te_native_certs :: "u8 list list option"
  te_x509_ok :: "u8 list \<Rightarrow> bool"
  te_add_cert :: "u8 list list \<Rightarrow> u8 list \<Rightarrow> bool"
  te_alpn_ok :: "u8 list \<Rightarrow> bool"
  te_ca_file_ok :: "string \<Rightarrow> bool"
  te_configure :: "ssl_connector \<Rightarrow> bool"
  te_into_ssl :: "string \<Rightarrow> bool"
  te_ech_list_ok :: "u8 list \<Rightarrow> bool"
  te_handshake :: "net_event list \<Rightarrow> ssl \<Rightarrow> handshake option"
  te_connect_with_connector :: "endpoint \<Rightarrow> ssl tls_io \<Rightarrow> 'ch tls_io"

definition log_event :: "net_event \<Rightarrow> unit tls_io" where
  "log_event e w = (Inr (), w\<lparr>tw_events := tw_events w @ [e]\<rparr>)"

definition instant_now :: "'ch tls_env \<Rightarrow> nat tls_io" where
  "instant_now env w =
     (Inr (te_instant env (tw_instants w)), w\<lparr>tw_instants := tw_instants w + 1\<rparr>)"

section \<open>The cache of ECH configurations\<close>

definition min_ech_cache_ttl :: nat where "min_ech_cache_ttl = 30"
definition max_ech_cache_ttl :: nat where "max_ech_cache_ttl = 3600"

definition seconds :: "nat \<Rightarrow> nat" where "seconds s = s * 1000000000"

definition clamp :: "nat \<Rightarrow> nat \<Rightarrow> nat \<Rightarrow> nat" where
  "clamp lo hi x = (if x < lo then lo else if hi < x then hi else x)"

definition cache_get :: "ech_cache \<Rightarrow> string \<Rightarrow> nat \<Rightarrow> u8 list option \<times> ech_cache" where
  "cache_get cache key now =
     (case cache key of
        Some entry \<Rightarrow>
          if now < ce_expires_at entry then (Some (ce_config entry), cache)
          else (None, cache(key := None))
      | None \<Rightarrow> (None, cache(key := None)))"

definition cache_put :: "ech_cache \<Rightarrow> string \<Rightarrow> u8 list \<Rightarrow> nat \<Rightarrow> nat \<Rightarrow> ech_cache" where
  "cache_put cache key config ttl now =
     cache(key \<mapsto> \<lparr>ce_config = config,
                  ce_expires_at = now + seconds (clamp min_ech_cache_ttl max_ech_cache_ttl ttl)\<rparr>)"

definition get_cached_ech_config :: "'ch tls_env \<Rightarrow> string \<Rightarrow> u8 list option tls_io" where
  "get_cached_ech_config env key =
     io_bind (instant_now env) (\<lambda>now w.
       (case cache_get (tw_ech_cache w) key now of
          (found, cache) \<Rightarrow> (Inr found, w\<lparr>tw_ech_cache := cache\<rparr>)))"

definition put_cached_ech_config :: "'ch tls_env \<Rightarrow> string \<Rightarrow> u8 list \<Rightarrow> nat \<Rightarrow> unit tls_io" where
  "put_cached_ech_config env key config ttl =
     io_bind (instant_now env) (\<lambda>now w.
       (Inr (), w\<lparr>tw_ech_cache := cache_put (tw_ech_cache w) key config ttl now\<rparr>))"

section \<open>Bootstrap\<close>

definition backend_tls_name :: "'ch tls_env \<Rightarrow> backend_config \<Rightarrow> connect_error + string" where
  "backend_tls_name env backend =
     (case (case bc_tls_domain backend of None \<Rightarrow> bc_ech_name backend | Some d \<Rightarrow> Some d) of
        Some name \<Rightarrow> Inr name
      | None \<Rightarrow>
          rbind (ok_or (InvalidEndpoint (bc_endpoint backend)) (te_parse_uri env (bc_endpoint backend)))
            (\<lambda>u. ok_or MissingHost (uri_host u)))"

definition doh_post :: "'ch tls_env \<Rightarrow> string \<Rightarrow> u8 list \<Rightarrow> u8 list tls_io" where
  "doh_post env doh query w =
     (te_doh_post env (tw_events w) doh query,
      w\<lparr>tw_events := tw_events w @ [DohPost doh query]\<rparr>)"

definition dns_result :: "dns_error + 'a \<Rightarrow> connect_error + 'a" where
  "dns_result r = (case r of Inl e \<Rightarrow> Inl (DnsError e) | Inr x \<Rightarrow> Inr x)"

definition ech_cache_key :: "string \<Rightarrow> string \<Rightarrow> string" where
  "ech_cache_key doh name = doh @ [CHR 0x00] @ name"

text \<open>The part of \<open>bootstrap_ech_config\<close> after a miss in the cache.\<close>

definition fetch_ech_config :: "'ch tls_env \<Rightarrow> string \<Rightarrow> string \<Rightarrow> string \<Rightarrow> u8 list tls_io" where
  "fetch_ech_config env doh name key =
     io_bind (io_lift (dns_result (build_https_query name))) (\<lambda>query.
     io_bind (doh_post env doh query) (\<lambda>response.
     io_bind (io_lift (dns_result (parse_https_response_for_ech response))) (\<lambda>(config, ttl).
     io_bind (put_cached_ech_config env key config ttl) (\<lambda>_.
     io_return config))))"

definition bootstrap_ech_config :: "'ch tls_env \<Rightarrow> backend_config \<Rightarrow> ech_config \<Rightarrow> u8 list tls_io" where
  "bootstrap_ech_config env backend ech =
     io_bind (io_lift (backend_tls_name env backend)) (\<lambda>name.
     let doh = effective_ech_bootstrap_doh backend ech; key = ech_cache_key doh name in
     io_bind (get_cached_ech_config env key) (\<lambda>cached.
     case cached of
       Some config \<Rightarrow> io_return config
     | None \<Rightarrow> fetch_ech_config env doh name key))"

section \<open>The BoringSSL connector\<close>

fun load_certs :: "'ch tls_env \<Rightarrow> u8 list list \<Rightarrow> u8 list list \<Rightarrow> connect_error + u8 list list" where
  "load_certs env [] roots = Inr roots"
| "load_certs env (cert # certs) roots =
     (if te_x509_ok env cert
      then load_certs env certs (if te_add_cert env roots cert then roots @ [cert] else roots)
      else Inl BadNativeCert)"

definition load_native_roots :: "'ch tls_env \<Rightarrow> connect_error + u8 list list" where
  "load_native_roots env =
     rbind (ok_or NativeCerts (te_native_certs env)) (\<lambda>certs.
     rbind (load_certs env certs []) (\<lambda>roots.
     if length roots = 0 then Inl NoUsableRoots else Inr roots))"

definition h2_alpn :: "u8 list" where "h2_alpn = bytes_of_str ''h2''"

definition build_ssl_connector :: "'ch tls_env \<Rightarrow> string option \<Rightarrow> connect_error + ssl_connector" where
  "build_ssl_connector env ca_cert =
     rbind (ensure (te_ssl_builder env) SslBuilder) (\<lambda>_.
     rbind (ensure (te_default_verify_paths env) DefaultPaths) (\<lambda>_.
     rbind (load_native_roots env) (\<lambda>roots.
     rbind (ensure (te_alpn_ok env (2 # h2_alpn)) AlpnRejected) (\<lambda>_.
     rbind (case ca_cert of None \<Rightarrow> Inr () | Some path \<Rightarrow> ensure (te_ca_file_ok env path) (CaFile path)) (\<lambda>_.
     Inr \<lparr>sc_default_paths = True, sc_roots = roots, sc_verify_peer = True,
          sc_alpn_protos = 2 # h2_alpn, sc_ca_file = ca_cert\<rparr>)))))"

definition cached_ssl_connector :: "'ch tls_env \<Rightarrow> string option \<Rightarrow> ssl_connector tls_io" where
  "cached_ssl_connector env ca_cert w =
     (case tw_ssl_cache w ca_cert of
        Some connector \<Rightarrow> (Inr connector, w)
      | None \<Rightarrow>
          (case build_ssl_connector env ca_cert of
             Inl e \<Rightarrow> (Inl e, w)
           | Inr connector \<Rightarrow>
               (case tw_ssl_cache w ca_cert of
                  Some other \<Rightarrow> (Inr other, w)
                | None \<Rightarrow> (Inr connector, w\<lparr>tw_ssl_cache := (tw_ssl_cache w)(ca_cert \<mapsto> connector)\<rparr>))))"

record ech_connector =
  ech_connect_addr :: string
  ech_sni_name :: string
  ech_list :: "u8 list"
  ech_ssl_connector :: ssl_connector

definition ech_connector_new ::
    "'ch tls_env \<Rightarrow> backend_config \<Rightarrow> u8 list \<Rightarrow> ech_connector tls_io" where
  "ech_connector_new env backend ech_config_list =
     io_bind (io_lift (ok_or (InvalidEndpoint (bc_endpoint backend)) (te_parse_uri env (bc_endpoint backend)))) (\<lambda>u.
     if uri_scheme u \<noteq> Some ''https'' then io_fail NotHttps
     else
       io_bind (io_lift (ok_or MissingHost (uri_host u))) (\<lambda>endpoint_host.
       let port = (case uri_port u of None \<Rightarrow> 443 | Some p \<Rightarrow> p) in
       io_bind (io_lift (backend_tls_name env backend)) (\<lambda>sni_name.
       let connect_addr = (case bc_connect_addr backend of
             Some a \<Rightarrow> a
           | None \<Rightarrow> endpoint_host @ '':'' @ show_dec (unat port)) in
       io_bind (cached_ssl_connector env (bc_ca_cert backend)) (\<lambda>connector.
       io_return \<lparr>ech_connect_addr = connect_addr, ech_sni_name = sni_name,
                  ech_list = ech_config_list, ech_ssl_connector = connector\<rparr>))))"

text \<open>\<open>EchConnector::connect\<close>; the stream it returns is named by the session it runs.\<close>

definition ech_connector_connect :: "'ch tls_env \<Rightarrow> ech_connector \<Rightarrow> ssl tls_io" where
  "ech_connector_connect env c =
     io_bind (\<lambda>w. (ensure (te_tcp_connect env (tw_events w) (ech_connect_addr c)) (TcpFailed (ech_connect_addr c)),
                   w\<lparr>tw_events := tw_events w @ [TcpConnect (ech_connect_addr c)]\<rparr>)) (\<lambda>_.
     io_bind (io_lift (ensure (te_configure env (ech_ssl_connector c)) SslConfigure)) (\<lambda>_.
     io_bind (io_lift (ensure (te_into_ssl env (ech_sni_name c)) SslNew)) (\<lambda>_.
     io_bind (io_lift (ensure (te_ech_list_ok env (ech_list c)) EchConfigRejected)) (\<lambda>_.
     let ssl = \<lparr>ssl_from = ech_ssl_connector c, ssl_verify_hostname = True,
                ssl_name = ech_sni_name c, ssl_ech_config_list = ech_list c\<rparr> in
     io_bind (\<lambda>w. (ok_or HandshakeFailed (te_handshake env (tw_events w) ssl),
                   w\<lparr>tw_events := tw_events w @ [EchHandshake ssl]\<rparr>)) (\<lambda>hs.
     if hs_alpn hs \<noteq> Some h2_alpn then io_fail NoH2Alpn
     else if \<not> hs_ech_accepted hs then
       (case hs_retry_configs hs of
          Some retry \<Rightarrow> io_fail (EchRejectedWithRetry (length retry))
        | None \<Rightarrow> io_fail EchNotAccepted)
     else io_return ssl)))))"

section \<open>Connecting a channel\<close>

definition base_endpoint :: "backend_config \<Rightarrow> string \<Rightarrow> endpoint" where
  "base_endpoint backend uri =
     \<lparr>ep_uri = uri, ep_connect_timeout = backend_connect_timeout backend,
      ep_keep_alive_interval = 30000, ep_keep_alive_timeout = 10000,
      ep_keep_alive_while_idle = True, ep_tls = None\<rparr>"

definition connect_ech_channel :: "'ch tls_env \<Rightarrow> backend_config \<Rightarrow> u8 list \<Rightarrow> 'ch tls_io" where
  "connect_ech_channel env backend ech_config =
     io_bind (io_lift (ok_or (InvalidEndpoint (bc_endpoint backend)) (te_parse_uri env (bc_endpoint backend)))) (\<lambda>u.
     io_bind (io_lift (ok_or MissingAuthority (uri_authority u))) (\<lambda>authority.
     io_bind (io_lift (ok_or BadConnectorUri (te_parse_uri env (''http://'' @ authority)))) (\<lambda>connector_uri.
     io_bind (io_lift (ensure (te_endpoint_ok env (te_uri_to_string env connector_uri)) BadInternalEndpoint)) (\<lambda>_.
     io_bind (ech_connector_new env backend ech_config) (\<lambda>connector.
     te_connect_with_connector env (base_endpoint backend (te_uri_to_string env connector_uri))
       (ech_connector_connect env connector))))))"

definition read_ca :: "'ch tls_env \<Rightarrow> backend_config \<Rightarrow> connect_error + u8 list option" where
  "read_ca env backend =
     (case bc_ca_cert backend of
        None \<Rightarrow> Inr None
      | Some path \<Rightarrow> rbind (ok_or (CaCertUnreadable path) (te_read_file env path)) (\<lambda>pem. Inr (Some pem)))"

text \<open>The part of \<open>connect_channel\<close> after the ECH block: an ordinary channel.\<close>

definition connect_plain_channel :: "'ch tls_env \<Rightarrow> backend_config \<Rightarrow> 'ch tls_io" where
  "connect_plain_channel env backend =
     io_bind (io_lift (ensure (te_endpoint_ok env (bc_endpoint backend)) (InvalidEndpoint (bc_endpoint backend)))) (\<lambda>_.
     io_bind
       (if prefix ''https://'' (bc_endpoint backend) then
          io_bind (io_lift (backend_tls_name env backend)) (\<lambda>name.
          io_bind (io_lift (read_ca env backend)) (\<lambda>ca.
          let tls = \<lparr>tc_domain_name = name, tc_ca_certificate = ca\<rparr> in
          io_bind (io_lift (ensure (te_tls_config_ok env tls) TlsConfigRejected)) (\<lambda>_.
          io_return ((base_endpoint backend (bc_endpoint backend))\<lparr>ep_tls := Some tls\<rparr>))))
        else io_return (base_endpoint backend (bc_endpoint backend))) (\<lambda>endpoint w.
     (ok_or (ConnectFailed (bc_endpoint backend)) (te_connect env (tw_events w) endpoint),
      w\<lparr>tw_events := tw_events w @ [PlainConnect endpoint]\<rparr>)))"

definition connect_channel :: "'ch tls_env \<Rightarrow> backend_config \<Rightarrow> ech_config \<Rightarrow> 'ch tls_io" where
  "connect_channel env backend ech =
     (if bc_ech backend then
        io_bind (io_lift (backend_tls_name env backend)) (\<lambda>ech_name.
        io_bind (io_try (bootstrap_ech_config env backend ech)) (\<lambda>ech_config.
        if effective_ech_policy backend ech = ''strict'' then
          (case ech_config of
             Inr config \<Rightarrow> connect_ech_channel env backend config
           | Inl err \<Rightarrow> io_fail (StrictBootstrapFailed ech_name err))
        else
          (case ech_config of
             Inr config \<Rightarrow>
               io_bind (io_try (connect_ech_channel env backend config)) (\<lambda>attempt.
               case attempt of
                 Inr channel \<Rightarrow> io_return channel
               | Inl err \<Rightarrow> connect_plain_channel env backend)
           | Inl err \<Rightarrow> connect_plain_channel env backend)))
      else connect_plain_channel env backend)"

section \<open>Effects of the operations\<close>

text \<open>
  The contract of \<open>tonic\<close> the code relies on: connecting with a connector runs that connector
  and nothing else, and gives a channel only when the connector gave a stream.
\<close>

definition connector_law :: "'ch tls_env \<Rightarrow> bool" where
  "connector_law env \<longleftrightarrow>
     (\<forall>ep conn w. snd (te_connect_with_connector env ep conn w) = snd (conn w) \<and>
       (is_ok (fst (te_connect_with_connector env ep conn w)) \<longrightarrow> is_ok (fst (conn w))))"

definition ssl_cache_ok :: "tls_world \<Rightarrow> bool" where
  "ssl_cache_ok w \<longleftrightarrow>
     (\<forall>ca c. tw_ssl_cache w ca = Some c \<longrightarrow>
        sc_verify_peer c \<and> sc_ca_file c = ca \<and> sc_roots c \<noteq> [] \<and> sc_alpn_protos c = 2 # h2_alpn)"

definition event_log :: "net_event list \<Rightarrow> (net_event \<Rightarrow> bool) \<Rightarrow> tls_world \<Rightarrow> bool" where
  "event_log base P w \<longleftrightarrow> (\<exists>es. tw_events w = base @ es \<and> list_all P es)"

lemma build_ssl_connector_ok:
  "build_ssl_connector env ca = Inr c \<Longrightarrow>
     sc_verify_peer c \<and> sc_ca_file c = ca \<and> sc_roots c \<noteq> [] \<and> sc_alpn_protos c = 2 # h2_alpn"
  by (auto simp: build_ssl_connector_def load_native_roots_def res_simps split: if_splits)

lemma ssl_cache_step [keeps]: "preserves ssl_cache_ok (cached_ssl_connector env ca)"
  by (rule preservesI)
    (auto simp: cached_ssl_connector_def ssl_cache_ok_def dest: build_ssl_connector_ok
      split: option.splits sum.splits)

lemma event_step_ssl [keeps]: "preserves (event_log base P) (cached_ssl_connector env ca)"
  by (rule preservesI)
    (auto simp: cached_ssl_connector_def event_log_def split: option.splits sum.splits)

lemma preserves_cache [keeps]:
  "preserves ssl_cache_ok (get_cached_ech_config env key)"
  "preserves ssl_cache_ok (put_cached_ech_config env key config ttl)"
  "preserves (event_log base P) (get_cached_ech_config env key)"
  "preserves (event_log base P) (put_cached_ech_config env key config ttl)"
  by (rule preservesI; simp add: get_cached_ech_config_def put_cached_ech_config_def io_bind_def
      instant_now_def ssl_cache_ok_def event_log_def split: prod.split)+

lemma preserves_doh [keeps]:
  "preserves ssl_cache_ok (doh_post env doh query)"
  "P (DohPost doh query) \<Longrightarrow> preserves (event_log base P) (doh_post env doh query)"
  by (rule preservesI; auto simp: doh_post_def ssl_cache_ok_def event_log_def)+

lemma preserves_logged [keeps]:
  "preserves ssl_cache_ok (\<lambda>w. (f w, w\<lparr>tw_events := tw_events w @ [e]\<rparr>))"
  "P e \<Longrightarrow> preserves (event_log base P) (\<lambda>w. (f w, w\<lparr>tw_events := tw_events w @ [e]\<rparr>))"
  by (rule preservesI; auto simp: ssl_cache_ok_def event_log_def)+

lemma preserves_connector [keeps]:
  "connector_law env \<Longrightarrow> preserves I conn \<Longrightarrow> preserves I (te_connect_with_connector env ep conn)"
  by (simp add: preserves_def connector_law_def)

lemma preserves_bootstrap [keeps]:
  "preserves ssl_cache_ok (bootstrap_ech_config env backend ech)"
  "(\<And>d q. P (DohPost d q)) \<Longrightarrow> preserves (event_log base P) (bootstrap_ech_config env backend ech)"
  by (simp_all only: bootstrap_ech_config_def fetch_ech_config_def Let_def) (intro keeps; assumption?)+

lemma preserves_ech_channel [keeps]:
  "connector_law env \<Longrightarrow> preserves ssl_cache_ok (connect_ech_channel env backend config)"
  "connector_law env \<Longrightarrow> (\<And>a. P (TcpConnect a)) \<Longrightarrow> (\<And>s. P (EchHandshake s)) \<Longrightarrow>
     preserves (event_log base P) (connect_ech_channel env backend config)"
  by (simp_all only: connect_ech_channel_def ech_connector_new_def ech_connector_connect_def Let_def)
    (intro keeps; assumption?)+

lemma preserves_plain_channel [keeps]:
  "preserves ssl_cache_ok (connect_plain_channel env backend)"
  by (simp only: connect_plain_channel_def Let_def) (intro keeps)

lemma preserves_connect_channel [keeps]:
  "connector_law env \<Longrightarrow> preserves ssl_cache_ok (connect_channel env backend ech)"
  by (simp only: connect_channel_def) (intro keeps; assumption?)

lemma ech_connector_new_Inr:
  assumes "ech_connector_new env backend config w = (Inr c, w1)" "ssl_cache_ok w"
  shows "tw_events w1 = tw_events w" "ech_list c = config" "backend_tls_name env backend = Inr (ech_sni_name c)"
    "sc_verify_peer (ech_ssl_connector c)" "sc_ca_file (ech_ssl_connector c) = bc_ca_cert backend"
proof -
  show "tw_events w1 = tw_events w" "ech_list c = config" "backend_tls_name env backend = Inr (ech_sni_name c)"
    using assms(1)
    by (auto simp: ech_connector_new_def io_simps Let_def cached_ssl_connector_def
        split: if_splits option.splits sum.splits)
  from assms(1) obtain w0 where "cached_ssl_connector env (bc_ca_cert backend) w = (Inr (ech_ssl_connector c), w0)"
    by (auto simp: ech_connector_new_def io_simps Let_def split: if_splits)
  then show "sc_verify_peer (ech_ssl_connector c)" "sc_ca_file (ech_ssl_connector c) = bc_ca_cert backend"
    using assms(2) by (auto simp: cached_ssl_connector_def ssl_cache_ok_def
        dest: build_ssl_connector_ok split: option.splits sum.splits)
qed

lemma ech_channel_success:
  assumes "connect_ech_channel env backend config w = (Inr ch, w')" "connector_law env"
    and "ssl_cache_ok w"
  shows "\<exists>ssl hs es. tw_events w' = tw_events w @ es @ [EchHandshake ssl] \<and>
     te_handshake env (tw_events w @ es) ssl = Some hs \<and> hs_ech_accepted hs \<and>
     hs_alpn hs = Some h2_alpn \<and> ssl_ech_config_list ssl = config \<and> ssl_verify_hostname ssl \<and>
     backend_tls_name env backend = Inr (ssl_name ssl) \<and> sc_verify_peer (ssl_from ssl) \<and>
     sc_ca_file (ssl_from ssl) = bc_ca_cert backend"
proof -
  from assms(1) obtain ep c w1 where
    new: "ech_connector_new env backend config w = (Inr c, w1)" and
    conn: "te_connect_with_connector env ep (ech_connector_connect env c) w1 = (Inr ch, w')"
    by (auto simp: connect_ech_channel_def io_simps)
  from conn assms(2) have w': "w' = snd (ech_connector_connect env c w1)"
    and "is_ok (fst (ech_connector_connect env c w1))"
    by (metis connector_law_def snd_conv, metis connector_law_def fst_conv is_ok_simps(2))
  then obtain ssl where run: "ech_connector_connect env c w1 = (Inr ssl, w')"
    by (metis is_ok_iff prod.collapse)
  from run show ?thesis
    by (auto simp: ech_connector_connect_def io_simps Let_def res_simps ech_connector_new_Inr [OF new assms(3)]
        split: if_splits option.splits)
qed

section \<open>The contract of an expiring cache\<close>

datatype ('k, 'v) cache_op = CacheGet 'k nat | CachePut 'k 'v nat nat

fun cache_run ::
    "('c \<Rightarrow> 'k \<Rightarrow> nat \<Rightarrow> 'v option \<times> 'c) \<Rightarrow> ('c \<Rightarrow> 'k \<Rightarrow> 'v \<Rightarrow> nat \<Rightarrow> nat \<Rightarrow> 'c) \<Rightarrow>
     'c \<Rightarrow> ('k, 'v) cache_op list \<Rightarrow> 'c" where
  "cache_run get put c [] = c"
| "cache_run get put c (CacheGet k t # ops) = cache_run get put (snd (get c k t)) ops"
| "cache_run get put c (CachePut k v ttl t # ops) = cache_run get put (put c k v ttl t) ops"

fun op_keeps_entry :: "'k \<Rightarrow> nat \<Rightarrow> ('k, 'v) cache_op \<Rightarrow> bool" where
  "op_keeps_entry k expiry (CacheGet k' t) \<longleftrightarrow> k' = k \<longrightarrow> t < expiry"
| "op_keeps_entry k expiry (CachePut k' v ttl t) \<longleftrightarrow> k' \<noteq> k"

locale expiring_cache =
  fixes get :: "'c \<Rightarrow> 'k \<Rightarrow> nat \<Rightarrow> 'v option \<times> 'c"
    and put :: "'c \<Rightarrow> 'k \<Rightarrow> 'v \<Rightarrow> nat \<Rightarrow> nat \<Rightarrow> 'c"
    and life :: "nat \<Rightarrow> nat"
  assumes get_put: "fst (get (put c k v ttl now) k' t) =
      (if k' = k then if t < now + life ttl then Some v else None else fst (get c k' t))"
    and get_get: "fst (get (snd (get c k t)) k' t') =
      (if k' = k \<and> fst (get c k t) = None then None else fst (get c k' t'))"
begin

lemma run_keeps_entry:
  assumes "\<And>t. fst (get c k t) = (if t < expiry then Some v else None)"
    and "list_all (op_keeps_entry k expiry) ops"
  shows "fst (get (cache_run get put c ops) k t) = (if t < expiry then Some v else None)"
  using assms
proof (induction ops arbitrary: c)
  case (Cons op ops)
  show ?case
  proof (cases op)
    case (CacheGet k' t')
    have "fst (get (snd (get c k' t')) k t) = (if t < expiry then Some v else None)" for t
      using Cons.prems CacheGet by (auto simp: get_get split: if_splits)
    from Cons.IH [OF this] show ?thesis using Cons.prems CacheGet by simp
  next
    case (CachePut k' v' ttl t')
    then have "fst (get (put c k' v' ttl t') k t) = (if t < expiry then Some v else None)" for t
      using Cons.prems by (auto simp: get_put)
    from Cons.IH [OF this] show ?thesis using Cons.prems CachePut by simp
  qed
qed simp

lemma hit_until_expiry:
  assumes "list_all (op_keeps_entry k (now + life ttl)) ops"
  shows "fst (get (cache_run get put (put c k v ttl now) ops) k t) =
           (if t < now + life ttl then Some v else None)"
  by (rule run_keeps_entry [OF _ assms]) (simp add: get_put)

end

definition ech_cache_life :: "nat \<Rightarrow> nat" where
  "ech_cache_life ttl = seconds (clamp min_ech_cache_ttl max_ech_cache_ttl ttl)"

interpretation ech_cache: expiring_cache cache_get cache_put ech_cache_life
  by unfold_locales (auto simp: cache_get_def cache_put_def ech_cache_life_def split: option.splits)

lemma ech_cache_life_bounds: "seconds 30 \<le> ech_cache_life ttl \<and> ech_cache_life ttl \<le> seconds 3600"
  by (auto simp: ech_cache_life_def seconds_def clamp_def min_ech_cache_ttl_def max_ech_cache_ttl_def)

section \<open>Where a cached configuration comes from\<close>

lemma ech_cache_key_inject:
  assumes "ech_cache_key doh name = ech_cache_key doh' name'"
    and "CHR 0x00 \<notin> set doh" "CHR 0x00 \<notin> set doh'"
  shows "doh = doh' \<and> name = name'"
proof -
  have "takeWhile (\<lambda>c. c \<noteq> CHR 0x00) (ech_cache_key d n) = d" if "CHR 0x00 \<notin> set d" for d n
    using that by (auto simp: ech_cache_key_def takeWhile_append2 takeWhile_append)
  with assms have "doh = doh'" by metis
  with assms(1) show ?thesis by (simp add: ech_cache_key_def)
qed

text \<open>
  \<open>ech_source\<close>: the configuration was parsed out of the answer to a query for \<open>name\<close> that the
  client posted to \<open>doh\<close>.
\<close>

definition ech_source :: "'ch tls_env \<Rightarrow> net_event list \<Rightarrow> string \<Rightarrow> string \<Rightarrow> u8 list \<Rightarrow> bool" where
  "ech_source env log doh name config \<longleftrightarrow>
     (\<exists>pre q resp ttl. prefix (pre @ [DohPost doh q]) log \<and> build_https_query name = Inr q \<and>
        te_doh_post env pre doh q = Inr resp \<and>
        parse_https_response_for_ech resp = Inr (config, ttl))"

definition ech_cache_sourced :: "'ch tls_env \<Rightarrow> tls_world \<Rightarrow> bool" where
  "ech_cache_sourced env w \<longleftrightarrow>
     (\<forall>key entry. tw_ech_cache w key = Some entry \<longrightarrow>
        (\<exists>doh name. key = ech_cache_key doh name \<and> CHR 0x00 \<notin> set doh \<and>
           ech_source env (tw_events w) doh name (ce_config entry)))"

lemma ech_source_mono: "ech_source env log doh name config \<Longrightarrow> ech_source env (log @ es) doh name config"
  unfolding ech_source_def by (meson prefix_order.trans prefixI)

lemma sourced_log: "ech_cache_sourced env w \<Longrightarrow> ech_cache_sourced env (w\<lparr>tw_events := tw_events w @ es\<rparr>)"
  unfolding ech_cache_sourced_def using ech_source_mono by fastforce

lemma get_cached_step:
  assumes "get_cached_ech_config env key w = (Inr found, w')"
  shows "tw_events w' = tw_events w \<and> tw_ssl_cache w' = tw_ssl_cache w \<and>
    (\<forall>k e. tw_ech_cache w' k = Some e \<longrightarrow> tw_ech_cache w k = Some e) \<and>
    (\<forall>c. found = Some c \<longrightarrow> (\<exists>e. tw_ech_cache w key = Some e \<and> ce_config e = c))"
  using assms
  by (auto simp: get_cached_ech_config_def io_simps instant_now_def cache_get_def
      split: option.splits if_splits)

lemma get_cached_sourced:
  assumes "get_cached_ech_config env key w = (Inr found, w')" "ech_cache_sourced env w"
  shows "ech_cache_sourced env w'"
  using get_cached_step [OF assms(1)] assms(2) by (metis ech_cache_sourced_def)

lemma fetch_eq:
  assumes "build_https_query name = Inr q"
  shows "fetch_ech_config env doh name key w =
    io_bind (io_lift (rbind (te_doh_post env (tw_events w) doh q)
        (\<lambda>resp. dns_result (parse_https_response_for_ech resp)))) (\<lambda>(config, ttl).
      io_bind (put_cached_ech_config env key config ttl) (\<lambda>_. io_return config))
      (w\<lparr>tw_events := tw_events w @ [DohPost doh q]\<rparr>)"
  using assms
  by (cases "te_doh_post env (tw_events w) doh q")
    (simp_all add: fetch_ech_config_def dns_result_def io_bind_def doh_post_def split: sum.split)

lemma fetch_sourced:
  assumes run: "fetch_ech_config env doh name (ech_cache_key doh name) w = (r, w')"
    and inv: "ech_cache_sourced env w" and nul: "CHR 0x00 \<notin> set doh"
  shows "ech_cache_sourced env w' \<and>
    (\<forall>config. r = Inr config \<longrightarrow> ech_source env (tw_events w') doh name config)"
proof (cases "build_https_query name")
  case (Inl e)
  with run inv show ?thesis by (auto simp: fetch_ech_config_def dns_result_def io_bind_def)
next
  case (Inr q)
  define w2 where "w2 = w\<lparr>tw_events := tw_events w @ [DohPost doh q]\<rparr>"
  have inv2: "ech_cache_sourced env w2" unfolding w2_def by (rule sourced_log [OF inv])
  let ?answer = "rbind (te_doh_post env (tw_events w) doh q)
      (\<lambda>resp. dns_result (parse_https_response_for_ech resp))"
  have run2: "io_bind (io_lift ?answer) (\<lambda>(config, ttl).
       io_bind (put_cached_ech_config env (ech_cache_key doh name) config ttl) (\<lambda>_.
       io_return config)) w2 = (r, w')"
    unfolding run [symmetric] w2_def using Inr by (rule fetch_eq [symmetric])
  show ?thesis
  proof (cases ?answer)
    case (Inl e)
    with run2 inv2 show ?thesis by (auto simp: io_bind_def)
  next
    case (Inr ct)
    obtain config ttl where ct: "ct = (config, ttl)" by (cases ct)
    with Inr obtain resp where "te_doh_post env (tw_events w) doh q = Inr resp"
      "dns_result (parse_https_response_for_ech resp) = Inr (config, ttl)"
      by (auto simp: res_simps)
    moreover from this have "parse_https_response_for_ech resp = Inr (config, ttl)"
      by (cases "parse_https_response_for_ech resp") (simp_all add: dns_result_def)
    ultimately have "te_doh_post env (tw_events w) doh q = Inr resp"
      "parse_https_response_for_ech resp = Inr (config, ttl)" by blast+
    then have src: "ech_source env (tw_events w2) doh name config"
      unfolding ech_source_def w2_def using \<open>build_https_query name = Inr q\<close> by auto
    have r: "r = Inr config" and ev: "tw_events w' = tw_events w2" and
      cache: "tw_ech_cache w' = cache_put (tw_ech_cache w2) (ech_cache_key doh name) config ttl
        (te_instant env (tw_instants w2))"
      using run2 Inr ct
      by (auto simp: io_bind_def put_cached_ech_config_def instant_now_def)
    have "ech_cache_sourced env w'"
      using inv2 src nul by (auto simp: ech_cache_sourced_def cache_put_def ev cache)
    then show ?thesis using r ev src by auto
  qed
qed

lemma bootstrap_sourced:
  assumes run: "bootstrap_ech_config env backend ech w = (r, w')"
    and inv: "ech_cache_sourced env w"
    and nul: "CHR 0x00 \<notin> set (effective_ech_bootstrap_doh backend ech)"
  shows "ech_cache_sourced env w' \<and>
    (\<forall>config. r = Inr config \<longrightarrow>
       (\<exists>name. backend_tls_name env backend = Inr name \<and>
          ech_source env (tw_events w') (effective_ech_bootstrap_doh backend ech) name config))"
proof (cases "backend_tls_name env backend")
  case (Inl e)
  with run inv show ?thesis by (auto simp: bootstrap_ech_config_def io_bind_def)
next
  case (Inr name)
  define doh where "doh = effective_ech_bootstrap_doh backend ech"
  define key where "key = ech_cache_key doh name"
  obtain found w1 where get: "get_cached_ech_config env key w = (Inr found, w1)"
    by (cases "cache_get (tw_ech_cache w) key (te_instant env (tw_instants w))")
      (auto simp: get_cached_ech_config_def io_bind_def instant_now_def)
  have rest: "(case found of Some config \<Rightarrow> io_return config
      | None \<Rightarrow> fetch_ech_config env doh name key) w1 = (r, w')"
    using run get Inr unfolding doh_def key_def
    by (simp add: bootstrap_ech_config_def io_bind_def Let_def)
  note g = get_cached_step [OF get] and inv1 = get_cached_sourced [OF get inv]
  show ?thesis
  proof (cases found)
    case None
    with rest fetch_sourced [of env doh name w1 r w'] inv1 nul Inr show ?thesis
      by (auto simp: key_def doh_def)
  next
    case (Some config)
    with rest have r: "r = Inr config" "w' = w1" by auto
    from g Some obtain e where "tw_ech_cache w key = Some e" "ce_config e = config" by auto
    with inv obtain d n where "key = ech_cache_key d n" "CHR 0x00 \<notin> set d"
      "ech_source env (tw_events w) d n config" unfolding ech_cache_sourced_def by blast
    moreover from this ech_cache_key_inject [of doh name d n] nul have "d = doh" "n = name"
      by (auto simp: key_def doh_def)
    ultimately show ?thesis using r g inv1 Inr by (auto simp: doh_def)
  qed
qed

lemma sourced_step [keeps]:
  "CHR 0x00 \<notin> set (effective_ech_bootstrap_doh backend ech) \<Longrightarrow>
     preserves (ech_cache_sourced env) (bootstrap_ech_config env backend ech)"
  "preserves (ech_cache_sourced env) (cached_ssl_connector env ca)"
  "preserves (ech_cache_sourced env) (\<lambda>w. (f w, w\<lparr>tw_events := tw_events w @ [e]\<rparr>))"
  by (rule preservesI, metis bootstrap_sourced prod.collapse,
      rule preservesI, simp add: cached_ssl_connector_def ech_cache_sourced_def
        split: option.splits sum.splits,
      rule preservesI, simp add: sourced_log)

lemma sourced_ech_channel [keeps]:
  "connector_law env \<Longrightarrow> preserves (ech_cache_sourced env) (connect_ech_channel env backend config)"
  by (simp only: connect_ech_channel_def ech_connector_new_def ech_connector_connect_def Let_def)
    (intro keeps; assumption?)

lemma sourced_connect_channel [keeps]:
  "connector_law env \<Longrightarrow> CHR 0x00 \<notin> set (effective_ech_bootstrap_doh backend ech) \<Longrightarrow>
     preserves (ech_cache_sourced env) (connect_channel env backend ech)"
  by (simp only: connect_channel_def connect_plain_channel_def Let_def) (intro keeps; assumption?)

definition not_plain :: "net_event \<Rightarrow> bool" where
  "not_plain e = (case e of PlainConnect _ \<Rightarrow> False | _ \<Rightarrow> True)"

lemma strict_not_plain:
  assumes "bc_ech backend" "effective_ech_policy backend ech = ''strict''" "connector_law env"
  shows "preserves (event_log base not_plain) (connect_channel env backend ech)"
  using assms(1,2)
  by (simp only: connect_channel_def if_True)
    (intro keeps assms(3); simp add: not_plain_def)

lemma io_try_eq: "io_try m s = (r, t) \<longleftrightarrow> m s = (projr r, t) \<and> r = Inr (fst (m s))"
  by (cases "m s") (auto simp: io_try_def)

lemma strict_success:
  assumes run: "connect_channel env backend ech w = (Inr ch, w')"
    and strict: "bc_ech backend" "effective_ech_policy backend ech = ''strict''"
  shows "\<exists>config w1. bootstrap_ech_config env backend ech w = (Inr config, w1) \<and>
    connect_ech_channel env backend config w1 = (Inr ch, w')"
  using run strict
  by (cases "bootstrap_ech_config env backend ech w"; cases "backend_tls_name env backend")
    (auto simp: connect_channel_def io_bind_def io_try_def split: sum.splits)

text \<open>The guarantees of an accepted handshake for a backend.\<close>

definition ech_session_ok ::
    "'ch tls_env \<Rightarrow> backend_config \<Rightarrow> ech_config \<Rightarrow> net_event list \<Rightarrow> ssl \<Rightarrow> bool" where
  "ech_session_ok env backend ech log ssl \<longleftrightarrow>
     backend_tls_name env backend = Inr (ssl_name ssl) \<and>
     ssl_verify_hostname ssl \<and> sc_verify_peer (ssl_from ssl) \<and>
     sc_ca_file (ssl_from ssl) = bc_ca_cert backend \<and>
     ech_source env log (effective_ech_bootstrap_doh backend ech) (ssl_name ssl) (ssl_ech_config_list ssl) \<and>
     (case te_handshake env log ssl of
        None \<Rightarrow> False
      | Some hs \<Rightarrow> hs_ech_accepted hs \<and> hs_alpn hs = Some h2_alpn)"

lemma ech_session:
  assumes boot: "bootstrap_ech_config env backend ech w = (Inr config, w1)"
    and conn: "connect_ech_channel env backend config w1 = (Inr ch, w')"
    and law: "connector_law env" and nul: "CHR 0x00 \<notin> set (effective_ech_bootstrap_doh backend ech)"
    and inv: "ssl_cache_ok w" "ech_cache_sourced env w"
  shows "\<exists>log ssl. tw_events w' = log @ [EchHandshake ssl] \<and> ech_session_ok env backend ech log ssl"
proof -
  have ok: "ssl_cache_ok w1" by (rule preservesD [OF preserves_bootstrap(1) boot inv(1)])
  obtain name where name: "backend_tls_name env backend = Inr name" and
    src: "ech_source env (tw_events w1) (effective_ech_bootstrap_doh backend ech) name config"
    using bootstrap_sourced [OF boot inv(2) nul] by blast
  obtain ssl hs es where "tw_events w' = (tw_events w1 @ es) @ [EchHandshake ssl]"
    "te_handshake env (tw_events w1 @ es) ssl = Some hs" "hs_ech_accepted hs"
    "hs_alpn hs = Some h2_alpn" "ssl_ech_config_list ssl = config" "ssl_verify_hostname ssl"
    "backend_tls_name env backend = Inr (ssl_name ssl)" "sc_verify_peer (ssl_from ssl)"
    "sc_ca_file (ssl_from ssl) = bc_ca_cert backend"
    using ech_channel_success [OF conn law ok] by auto
  then show ?thesis
    using name ech_source_mono [OF src, of es]
    by (intro exI [of _ "tw_events w1 @ es"] exI [of _ ssl]) (simp add: ech_session_ok_def)
qed

lemma strict_session:
  assumes "connect_channel env backend ech w = (Inr ch, w')"
    and "bc_ech backend" "effective_ech_policy backend ech = ''strict''"
    and "connector_law env" "CHR 0x00 \<notin> set (effective_ech_bootstrap_doh backend ech)"
    and "ssl_cache_ok w" "ech_cache_sourced env w"
  shows "\<exists>log ssl. tw_events w' = log @ [EchHandshake ssl] \<and> ech_session_ok env backend ech log ssl"
  using strict_success [OF assms(1-3)] ech_session [OF _ _ assms(4-7)] by blast

section \<open>Falling back\<close>

text \<open>The ECH attempt of a connection: there is no configuration, or no channel with it.\<close>

definition ech_failed :: "'ch tls_env \<Rightarrow> backend_config \<Rightarrow> ech_config \<Rightarrow> tls_world \<Rightarrow> bool" where
  "ech_failed env backend ech w \<longleftrightarrow>
     (case bootstrap_ech_config env backend ech w of
        (Inl e, w1) \<Rightarrow> True
      | (Inr config, w1) \<Rightarrow> \<not> is_ok (fst (connect_ech_channel env backend config w1)))"

text \<open>The endpoint of an ordinary connection, and the errors by which there is none.\<close>

definition plain_endpoint_ok :: "'ch tls_env \<Rightarrow> backend_config \<Rightarrow> endpoint \<Rightarrow> bool" where
  "plain_endpoint_ok env backend ep \<longleftrightarrow>
     ep_uri ep = bc_endpoint backend \<and> te_endpoint_ok env (ep_uri ep) \<and>
     ep_connect_timeout ep = backend_connect_timeout backend \<and>
     (case ep_tls ep of
        None \<Rightarrow> \<not> prefix ''https://'' (bc_endpoint backend)
      | Some tls \<Rightarrow>
          prefix ''https://'' (bc_endpoint backend) \<and> backend_tls_name env backend = Inr (tc_domain_name tls) \<and>
          (case bc_ca_cert backend of
             None \<Rightarrow> tc_ca_certificate tls = None
           | Some path \<Rightarrow> tc_ca_certificate tls \<noteq> None \<and> tc_ca_certificate tls = te_read_file env path))"

definition plain_refused :: "'ch tls_env \<Rightarrow> backend_config \<Rightarrow> connect_error \<Rightarrow> bool" where
  "plain_refused env backend e \<longleftrightarrow>
     backend_tls_name env backend = Inl e \<or>
     e = InvalidEndpoint (bc_endpoint backend) \<and> \<not> te_endpoint_ok env (bc_endpoint backend) \<or>
     (\<exists>path. e = CaCertUnreadable path \<and> bc_ca_cert backend = Some path \<and> te_read_file env path = None) \<or>
     (\<exists>tls. e = TlsConfigRejected \<and> \<not> te_tls_config_ok env tls \<and> backend_tls_name env backend = Inr (tc_domain_name tls))"

lemma plain_channel_result:
  assumes "connect_plain_channel env backend w = (r, w')"
  shows "(\<exists>ep. plain_endpoint_ok env backend ep \<and> tw_events w' = tw_events w @ [PlainConnect ep] \<and>
       r = ok_or (ConnectFailed (bc_endpoint backend)) (te_connect env (tw_events w) ep)) \<or>
    (\<exists>e. r = Inl e \<and> plain_refused env backend e \<and> tw_events w' = tw_events w)"
proof (cases "te_endpoint_ok env (bc_endpoint backend)")
  case False
  with assms show ?thesis
    by (auto simp: connect_plain_channel_def io_bind_def io_lift_def ensure_def plain_refused_def)
next
  case ok: True
  show ?thesis
  proof (cases "prefix ''https://'' (bc_endpoint backend)")
    case False
    with assms ok show ?thesis
      by (auto simp: connect_plain_channel_def io_bind_def io_lift_def io_return_def ensure_def plain_endpoint_ok_def base_endpoint_def)
  next
    case True
    with assms ok show ?thesis
      by (cases "backend_tls_name env backend"; cases "bc_ca_cert backend")
        (auto simp: connect_plain_channel_def io_bind_def io_lift_def io_return_def ensure_def Let_def read_ca_def
          plain_endpoint_ok_def plain_refused_def base_endpoint_def ok_or_def
          split: if_splits option.splits sum.splits intro!: exI)
  qed
qed

lemma bootstrap_not_plain:
  assumes "bootstrap_ech_config env backend ech w = (r, w1)"
  shows "\<exists>es. list_all not_plain es \<and> tw_events w1 = tw_events w @ es"
  using preservesD [OF preserves_bootstrap(2) assms, of not_plain "tw_events w"]
  by (auto simp: event_log_def not_plain_def)

lemma ech_channel_not_plain:
  assumes "connect_ech_channel env backend config w = (r, w1)" "connector_law env"
  shows "\<exists>es. list_all not_plain es \<and> tw_events w1 = tw_events w @ es"
  using preservesD [OF preserves_ech_channel(2) [OF assms(2)] assms(1), of not_plain "tw_events w"]
  by (auto simp: event_log_def not_plain_def)

lemma ech_attempt_not_plain:
  assumes "bootstrap_ech_config env backend ech w = (Inr config, w1)"
    and "connect_ech_channel env backend config w1 = (r, w2)" "connector_law env"
  shows "\<exists>es. list_all not_plain es \<and> tw_events w2 = tw_events w @ es"
proof -
  from bootstrap_not_plain [OF assms(1)] obtain es1 where es1: "list_all not_plain es1" "tw_events w1 = tw_events w @ es1"
    by blast
  from ech_channel_not_plain [OF assms(2,3)] obtain es2 where "list_all not_plain es2" "tw_events w2 = tw_events w1 @ es2"
    by blast
  with es1 show ?thesis by (intro exI [of _ "es1 @ es2"]) simp
qed

text \<open>What a connection runs when no channel comes from ECH.\<close>

lemma fallback_runs:
  assumes run: "connect_channel env backend ech w = (r, w')"
    and policy: "bc_ech backend" "effective_ech_policy backend ech \<noteq> ''strict''" and law: "connector_law env"
  shows "(\<exists>config w1 ch. bootstrap_ech_config env backend ech w = (Inr config, w1) \<and>
       connect_ech_channel env backend config w1 = (Inr ch, w') \<and> r = Inr ch) \<or>
    (\<exists>e. backend_tls_name env backend = Inl e \<and> r = Inl e \<and> w' = w) \<or>
    (\<exists>w2. ech_failed env backend ech w \<and> (\<exists>es. list_all not_plain es \<and> tw_events w2 = tw_events w @ es) \<and>
       connect_plain_channel env backend w2 = (r, w'))"
proof (cases "backend_tls_name env backend")
  case (Inl e)
  with run policy show ?thesis by (auto simp: connect_channel_def io_bind_def io_lift_def)
next
  case (Inr name)
  obtain b w1 where boot: "bootstrap_ech_config env backend ech w = (b, w1)" by fastforce
  show ?thesis
  proof (cases b)
    case (Inl e)
    with run policy Inr boot have "connect_plain_channel env backend w1 = (r, w')"
      by (auto simp: connect_channel_def io_bind_def io_try_def io_lift_def)
    with bootstrap_not_plain [OF boot] Inl boot show ?thesis by (auto simp: ech_failed_def)
  next
    case config: (Inr config)
    obtain c w2 where attempt: "connect_ech_channel env backend config w1 = (c, w2)" by fastforce
    show ?thesis
    proof (cases c)
      case (Inl e)
      with run policy Inr boot config attempt have "connect_plain_channel env backend w2 = (r, w')"
        by (auto simp: connect_channel_def io_bind_def io_try_def io_lift_def)
      with ech_attempt_not_plain [OF boot [unfolded config] attempt law] Inl boot config attempt show ?thesis
        by (auto simp: ech_failed_def)
    next
      case (Inr ch)
      with run policy \<open>backend_tls_name env backend = Inr name\<close> boot config attempt show ?thesis
        by (auto simp: connect_channel_def io_bind_def io_try_def io_lift_def io_return_def)
    qed
  qed
qed

section \<open>A concrete environment\<close>

text \<open>A resolver that answers with one HTTPS record, and a backend that accepts ECH.\<close>

definition demo_answer :: "u8 list" where
  "demo_answer = enc_response 7 0x8180 [0, 0, 0, 0] []
     [HttpsAnswer ([], [0xc0, 12]) 1 60 1 ([], [0]) [(5, [9, 8, 7])]] []"

definition demo_ech_env :: "unit tls_env" where
  "demo_ech_env =
     \<lparr>te_parse_uri = (\<lambda>_. Some \<lparr>uri_scheme = Some ''https'', uri_authority = Some ''b'',
        uri_host = Some ''b'', uri_port = None\<rparr>),
      te_uri_to_string = (\<lambda>_. ''http://b/''), te_endpoint_ok = (\<lambda>_. True),
      te_tls_config_ok = (\<lambda>_. True), te_read_file = (\<lambda>_. None), te_instant = (\<lambda>n. n),
      te_doh_post = (\<lambda>_ _ _. Inr demo_answer), te_connect = (\<lambda>_ _. Some ()),
      te_tcp_connect = (\<lambda>_ _. True), te_ssl_builder = True, te_default_verify_paths = True,
      te_native_certs = Some [[1]], te_x509_ok = (\<lambda>_. True), te_add_cert = (\<lambda>_ _. True),
      te_alpn_ok = (\<lambda>_. True), te_ca_file_ok = (\<lambda>_. True), te_configure = (\<lambda>_. True),
      te_into_ssl = (\<lambda>_. True), te_ech_list_ok = (\<lambda>_. True),
      te_handshake = (\<lambda>_ _. Some \<lparr>hs_alpn = Some h2_alpn, hs_ech_accepted = True,
        hs_retry_configs = None\<rparr>),
      te_connect_with_connector = (\<lambda>ep conn w. case conn w of
          (Inl e, w') \<Rightarrow> (Inl (EchTransport e), w') | (Inr _, w') \<Rightarrow> (Inr (), w'))\<rparr>"

definition demo_backend :: backend_config where
  "demo_backend =
     \<lparr>bc_endpoint = ''https://b'', bc_connect_addr = None, bc_auth_token = ''t'', bc_ech = True,
      bc_ech_name = Some ''b'', bc_ech_bootstrap_doh = Some ''d'', bc_pool_size = 2,
      bc_max_streams_per_channel = 2, bc_ech_policy = Some ''strict'', bc_tls_domain = None,
      bc_ca_cert = None, bc_connect_timeout_ms = 8000\<rparr>"

definition demo_world :: tls_world where
  "demo_world = \<lparr>tw_instants = 0, tw_ech_cache = (\<lambda>_. None), tw_ssl_cache = (\<lambda>_. None), tw_events = []\<rparr>"

lemma demo_ech_env_law: "connector_law demo_ech_env"
  by (auto simp: connector_law_def demo_ech_env_def split: sum.splits prod.splits)

lemma demo_world_ok: "ssl_cache_ok demo_world" "ech_cache_sourced env demo_world"
  by (simp_all add: ssl_cache_ok_def ech_cache_sourced_def demo_world_def)

lemma demo_backend_doh: "CHR 0x00 \<notin> set (effective_ech_bootstrap_doh demo_backend ech)"
  by (simp add: demo_backend_def effective_ech_bootstrap_doh_def)

section \<open>Properties\<close>

text \<open>
  C15. Under the strict policy no ordinary TLS connection is ever attempted, and a channel is
  only returned after an ECH handshake that the backend accepted, over HTTP/2, with peer and
  host name verification on for the backend's TLS name, with the CA file of the backend, and
  with an ECH configuration parsed from a DoH answer for that name from the backend's resolver.
\<close>

theorem strict_policy_ech_only:
  assumes "bc_ech backend" "effective_ech_policy backend ech = ''strict''"
    and "connector_law env" "CHR 0x00 \<notin> set (effective_ech_bootstrap_doh backend ech)"
    and "ssl_cache_ok w" "ech_cache_sourced env w"
    and "connect_channel env backend ech w = (r, w')"
  shows "(\<exists>es. tw_events w' = tw_events w @ es \<and> list_all not_plain es) \<and>
    (case r of
       Inl e \<Rightarrow> True
     | Inr ch \<Rightarrow> \<exists>log ssl. tw_events w' = log @ [EchHandshake ssl] \<and>
         ech_session_ok env backend ech log ssl)"
proof
  have "event_log (tw_events w) not_plain w" by (simp add: event_log_def)
  from preservesD [OF strict_not_plain [OF assms(1-3)] assms(7) this]
  show "\<exists>es. tw_events w' = tw_events w @ es \<and> list_all not_plain es"
    by (simp add: event_log_def)
  show "case r of Inl e \<Rightarrow> True | Inr ch \<Rightarrow> \<exists>log ssl. tw_events w' = log @ [EchHandshake ssl] \<and>
         ech_session_ok env backend ech log ssl"
    using strict_session [of env backend ech w _ w'] assms by (cases r) auto
qed

theorem strict_policy_ech_only_witness:
  "is_ok (fst (connect_channel demo_ech_env demo_backend ech_config_default demo_world)) \<and>
   (\<exists>log ssl. tw_events (snd (connect_channel demo_ech_env demo_backend ech_config_default demo_world)) =
        log @ [EchHandshake ssl] \<and>
      ech_session_ok demo_ech_env demo_backend ech_config_default log ssl)"
proof -
  have ok: "is_ok (fst (connect_channel demo_ech_env demo_backend ech_config_default demo_world))"
    by code_simp
  have "bc_ech demo_backend" "effective_ech_policy demo_backend ech_config_default = ''strict''"
    by (simp_all add: demo_backend_def effective_ech_policy_def)
  from strict_policy_ech_only [OF this demo_ech_env_law demo_backend_doh demo_world_ok
      prod.collapse [symmetric]] ok
  show ?thesis by (auto simp: is_ok_def split: sum.splits)
qed

text \<open>
  C16. With any other policy ECH is tried first and its failure never reaches the caller: either the
  channel was connected with ECH, with every guarantee that the strict policy gives and no ordinary
  attempt; or ECH failed, and an ordinary connection was made exactly once, as the last action, to
  the backend's endpoint with the name and CA file of the backend when it is https, and its
  outcome is the result; or there is no channel because the configuration of the backend allows
  no ordinary connection (its name, endpoint, CA file or TLS settings).
\<close>

theorem fallback_policy:
  assumes "bc_ech backend" "effective_ech_policy backend ech \<noteq> ''strict''"
    and "connector_law env" "CHR 0x00 \<notin> set (effective_ech_bootstrap_doh backend ech)"
    and "ssl_cache_ok w" "ech_cache_sourced env w"
    and "connect_channel env backend ech w = (r, w')"
  shows "\<exists>es. list_all not_plain es \<and>
    ((\<exists>ch log ssl. r = Inr ch \<and> tw_events w' = tw_events w @ es \<and> tw_events w' = log @ [EchHandshake ssl] \<and>
        ech_session_ok env backend ech log ssl) \<or>
     (\<exists>ep. ech_failed env backend ech w \<and> plain_endpoint_ok env backend ep \<and>
        tw_events w' = tw_events w @ es @ [PlainConnect ep] \<and>
        r = ok_or (ConnectFailed (bc_endpoint backend)) (te_connect env (tw_events w @ es) ep)) \<or>
     (\<exists>e. r = Inl e \<and> plain_refused env backend e \<and> tw_events w' = tw_events w @ es))"
proof (cases "\<exists>config w1 ch. bootstrap_ech_config env backend ech w = (Inr config, w1) \<and>
    connect_ech_channel env backend config w1 = (Inr ch, w') \<and> r = Inr ch")
  case True
  then obtain config w1 ch where
    ech: "bootstrap_ech_config env backend ech w = (Inr config, w1)"
      "connect_ech_channel env backend config w1 = (Inr ch, w')" "r = Inr ch" by blast
  from ech_session [OF ech(1,2) assms(3-6)] ech_attempt_not_plain [OF ech(1,2) assms(3)] ech(3) show ?thesis
    by fastforce
next
  case False
  with fallback_runs [OF assms(7,1,2,3)] show ?thesis
  proof (elim disjE)
    assume "\<exists>e. backend_tls_name env backend = Inl e \<and> r = Inl e \<and> w' = w"
    then show ?thesis by (intro exI [of _ "[]"]) (auto simp: plain_refused_def)
  next
    assume "\<exists>w2. ech_failed env backend ech w \<and> (\<exists>es. list_all not_plain es \<and> tw_events w2 = tw_events w @ es) \<and>
        connect_plain_channel env backend w2 = (r, w')"
    then obtain w2 es where "ech_failed env backend ech w" "list_all not_plain es" "tw_events w2 = tw_events w @ es"
      "connect_plain_channel env backend w2 = (r, w')" by blast
    with plain_channel_result [OF this(4)] show ?thesis by (intro exI [of _ es]) auto
  qed blast
qed

theorem fallback_policy_witness:
  "\<exists>ep. plain_endpoint_ok (demo_ech_env\<lparr>te_handshake := \<lambda>_ _. None\<rparr>) (demo_backend\<lparr>bc_ech_policy := Some ''auto''\<rparr>) ep \<and>
     last (tw_events (snd (connect_channel (demo_ech_env\<lparr>te_handshake := \<lambda>_ _. None\<rparr>)
       (demo_backend\<lparr>bc_ech_policy := Some ''auto''\<rparr>) ech_config_default demo_world))) = PlainConnect ep"
proof -
  let ?env = "demo_ech_env\<lparr>te_handshake := \<lambda>_ _. None\<rparr>" and ?b = "demo_backend\<lparr>bc_ech_policy := Some ''auto''\<rparr>"
  have law: "connector_law ?env" using demo_ech_env_law by (simp add: connector_law_def demo_ech_env_def)
  have "bc_ech ?b" "effective_ech_policy ?b ech_config_default \<noteq> ''strict''"
      "CHR 0x00 \<notin> set (effective_ech_bootstrap_doh ?b ech_config_default)"
    by (simp_all add: demo_backend_def effective_ech_policy_def effective_ech_bootstrap_doh_def)
  note rule = fallback_policy [OF this(1,2) law this(3) demo_world_ok]
  obtain r w' where run: "connect_channel ?env ?b ech_config_default demo_world = (r, w')" by fastforce
  have "is_ok (fst (connect_channel ?env ?b ech_config_default demo_world))" by code_simp
  then have ok: "is_ok r" by (simp add: run)
  have "\<not> not_plain (last (tw_events (snd (connect_channel ?env ?b ech_config_default demo_world))))" by code_simp
  then have plain: "\<not> not_plain (last (tw_events w'))" by (simp add: run)
  from rule [OF run] have "\<exists>ep. plain_endpoint_ok ?env ?b ep \<and> last (tw_events w') = PlainConnect ep"
  proof (elim exE conjE disjE)
    fix log ssl assume "tw_events w' = log @ [EchHandshake ssl]"
    with plain have False by (simp add: not_plain_def)
    then show "\<exists>ep. plain_endpoint_ok ?env ?b ep \<and> last (tw_events w') = PlainConnect ep" ..
  next
    fix es ep assume "plain_endpoint_ok ?env ?b ep" "tw_events w' = tw_events demo_world @ es @ [PlainConnect ep]"
    then show "\<exists>ep. plain_endpoint_ok ?env ?b ep \<and> last (tw_events w') = PlainConnect ep" by auto
  next
    fix e assume "r = Inl e"
    with ok show "\<exists>ep. plain_endpoint_ok ?env ?b ep \<and> last (tw_events w') = PlainConnect ep" by simp
  qed
  then show ?thesis by (simp only: run snd_conv)
qed

text \<open>
  C18. The two caches keep their invariants over every way of connecting: a cached connector
  verifies peers with exactly the CA file it is filed under and at least one trusted root, and
  every cached ECH configuration was parsed from an answer of the resolver, for the name, that
  its key stands for.
\<close>

theorem connect_keeps_caches:
  assumes "connector_law env" "CHR 0x00 \<notin> set (effective_ech_bootstrap_doh backend ech)"
    and "ssl_cache_ok w" "ech_cache_sourced env w"
  shows "ssl_cache_ok (snd (connect_channel env backend ech w)) \<and>
    ech_cache_sourced env (snd (connect_channel env backend ech w))"
  using preserves_connect_channel [OF assms(1), of backend ech]
    sourced_connect_channel [OF assms(1,2)] assms(3,4)
  by (simp add: preserves_def)

theorem connect_keeps_caches_witness:
  "ssl_cache_ok (snd (connect_channel demo_ech_env demo_backend ech_config_default demo_world))"
  using connect_keeps_caches [OF demo_ech_env_law demo_backend_doh demo_world_ok] by blast

text \<open>
  C19. A configuration put into the cache with any time to live is served until, and no longer
  than, that time clamped to between 30 seconds and one hour, whatever lookups (before the
  expiry) and insertions of other keys happen in between.
\<close>

theorem ech_cache_expiry:
  assumes "list_all (op_keeps_entry key (now + ech_cache_life ttl)) ops"
  shows "fst (cache_get (cache_run cache_get cache_put (cache_put cache key config ttl now) ops) key t) =
      (if t < now + ech_cache_life ttl then Some config else None) \<and>
    seconds 30 \<le> ech_cache_life ttl \<and> ech_cache_life ttl \<le> seconds 3600"
  using ech_cache.hit_until_expiry [OF assms] ech_cache_life_bounds by blast

theorem ech_cache_expiry_witness:
  "fst (cache_get (cache_run cache_get cache_put
     (cache_put (\<lambda>_. None) ''a'' [1] 5 0) [CacheGet ''a'' 7, CachePut ''b'' [2] 60 8]) ''a'' 9) = Some [1]"
  using ech_cache_expiry [of "''a''" 0 5 "[CacheGet ''a'' 7, CachePut ''b'' [2] 60 8]" "\<lambda>_. None" "[1]" 9]
    ech_cache_life_bounds [of 5]
  by (simp add: seconds_def)

end
