(* ===== verification/Ech_Service.thy ===== *)
theory Ech_Service
  imports Ech_Tls
begin

text \<open>
  The rest of \<open>client/src/ech_connector.rs\<close>: \<open>EchConnector\<close> as the service that \<open>tonic\<close> calls whenever
  it needs a connection for a channel, the first time and after every loss of it, and \<open>EchTlsStream\<close>,
  the stream it gives.
\<close>

section \<open>The stream\<close>

datatype 'a poll = Ready 'a | Pending

text \<open>
  The interface of \<open>AsyncRead\<close> and \<open>AsyncWrite\<close>: \<open>poll_read\<close> with the room left in the buffer gives
  the bytes put there, \<open>poll_write\<close> the number of bytes taken.
\<close>

record 's async_stream =
  as_read :: "nat \<Rightarrow> 's \<Rightarrow> (string + u8 list) poll \<times> 's"
  as_write :: "u8 list \<Rightarrow> 's \<Rightarrow> (string + nat) poll \<times> 's"
  as_flush :: "'s \<Rightarrow> (string + unit) poll \<times> 's"
  as_shutdown :: "'s \<Rightarrow> (string + unit) poll \<times> 's"

record 's ech_tls_stream =
  es_inner :: 's

definition poll_inner :: "('s \<Rightarrow> 'r \<times> 's) \<Rightarrow> 's ech_tls_stream \<Rightarrow> 'r \<times> 's ech_tls_stream" where
  "poll_inner f s = (case f (es_inner s) of (r, inner) \<Rightarrow> (r, s\<lparr>es_inner := inner\<rparr>))"

definition ech_poll_read :: "'s async_stream \<Rightarrow> nat \<Rightarrow> 's ech_tls_stream \<Rightarrow> (string + u8 list) poll \<times> 's ech_tls_stream" where
  "ech_poll_read inner room = poll_inner (as_read inner room)"

definition ech_poll_write :: "'s async_stream \<Rightarrow> u8 list \<Rightarrow> 's ech_tls_stream \<Rightarrow> (string + nat) poll \<times> 's ech_tls_stream" where
  "ech_poll_write inner buf = poll_inner (as_write inner buf)"

definition ech_poll_flush :: "'s async_stream \<Rightarrow> 's ech_tls_stream \<Rightarrow> (string + unit) poll \<times> 's ech_tls_stream" where
  "ech_poll_flush inner = poll_inner (as_flush inner)"

definition ech_poll_shutdown :: "'s async_stream \<Rightarrow> 's ech_tls_stream \<Rightarrow> (string + unit) poll \<times> 's ech_tls_stream" where
  "ech_poll_shutdown inner = poll_inner (as_shutdown inner)"

text \<open>The operations of \<open>EchTlsStream\<close>, as a stream of the same interface.\<close>

definition ech_stream :: "'s async_stream \<Rightarrow> 's ech_tls_stream async_stream" where
  "ech_stream inner =
     \<lparr>as_read = ech_poll_read inner, as_write = ech_poll_write inner, as_flush = ech_poll_flush inner,
      as_shutdown = ech_poll_shutdown inner\<rparr>"

text \<open>A use of a stream: any sequence of its operations, with what they gave.\<close>

datatype stream_op = Read nat | Write "u8 list" | Flush | Shutdown

datatype op_result = ReadGave "(string + u8 list) poll" | WriteGave "(string + nat) poll" | Gave "(string + unit) poll"

fun do_op :: "'s async_stream \<Rightarrow> stream_op \<Rightarrow> 's \<Rightarrow> op_result \<times> 's" where
  "do_op io (Read room) s = map_prod ReadGave id (as_read io room s)"
| "do_op io (Write buf) s = map_prod WriteGave id (as_write io buf s)"
| "do_op io Flush s = map_prod Gave id (as_flush io s)"
| "do_op io Shutdown s = map_prod Gave id (as_shutdown io s)"

fun stream_run :: "'s async_stream \<Rightarrow> stream_op list \<Rightarrow> 's \<Rightarrow> op_result list \<times> 's" where
  "stream_run io [] s = ([], s)"
| "stream_run io (x # xs) s =
     (case do_op io x s of (r, s) \<Rightarrow> (case stream_run io xs s of (rs, s) \<Rightarrow> (r # rs, s)))"

lemma do_op_inner:
  "do_op (ech_stream inner) x s = (case do_op inner x (es_inner s) of (r, i) \<Rightarrow> (r, s\<lparr>es_inner := i\<rparr>))"
  by (cases x) (simp_all add: ech_stream_def ech_poll_read_def ech_poll_write_def ech_poll_flush_def
      ech_poll_shutdown_def poll_inner_def map_prod_def split: prod.split)

text \<open>Nothing can be told from the TLS stream inside: every use of the stream is one of that.\<close>

lemma ech_stream_transparent:
  "stream_run (ech_stream inner) xs s = (case stream_run inner xs (es_inner s) of (rs, i) \<Rightarrow> (rs, s\<lparr>es_inner := i\<rparr>))"
  by (induction xs arbitrary: s) (simp_all add: do_op_inner split: prod.split)

section \<open>The service\<close>

text \<open>\<open>io::Error::other\<close> around the error of \<open>connect\<close>.\<close>

datatype io_error = IoOther connect_error

definition ech_poll_ready :: "ech_connector \<Rightarrow> (io_error + unit) poll" where
  "ech_poll_ready connector = Ready (Inr ())"

text \<open>A call connects anew with a clone of the connector; the URI it is given is not used.\<close>

definition ech_call :: "'ch tls_env \<Rightarrow> ech_connector \<Rightarrow> string \<Rightarrow> (tls_world, io_error, ssl ech_tls_stream) io" where
  "ech_call env connector req =
     io_map_err IoOther (io_bind (ech_connector_connect env connector) (\<lambda>ssl. io_return \<lparr>es_inner = ssl\<rparr>))"

text \<open>The session of a connector: what a handshake it starts offers and demands.\<close>

definition connector_ssl :: "ech_connector \<Rightarrow> ssl" where
  "connector_ssl c = \<lparr>ssl_from = ech_ssl_connector c, ssl_verify_hostname = True,
     ssl_name = ech_sni_name c, ssl_ech_config_list = ech_list c\<rparr>"

lemma ech_connect_shape:
  assumes "ech_connector_connect env c w = (r, w')"
  shows "tw_ech_cache w' = tw_ech_cache w \<and> tw_ssl_cache w' = tw_ssl_cache w \<and>
    (tw_events w' = tw_events w @ [TcpConnect (ech_connect_addr c)] \<and> (\<exists>e. r = Inl e) \<or>
     tw_events w' = tw_events w @ [TcpConnect (ech_connect_addr c), EchHandshake (connector_ssl c)] \<and>
     (\<forall>ssl. r = Inr ssl \<longrightarrow> ssl = connector_ssl c \<and>
        (\<exists>hs. te_handshake env (tw_events w @ [TcpConnect (ech_connect_addr c)]) ssl = Some hs \<and>
           hs_ech_accepted hs \<and> hs_alpn hs = Some h2_alpn)))"
  using assms
  by (auto simp: ech_connector_connect_def connector_ssl_def io_bind_def io_lift_def io_fail_def io_return_def
      ensure_def ok_or_def Let_def split: if_splits option.splits sum.splits prod.splits)

lemma ech_call_eq:
  "ech_call env connector req w = (r, w') \<longleftrightarrow>
     (\<exists>q. ech_connector_connect env connector w = (q, w') \<and>
        r = (case q of Inl e \<Rightarrow> Inl (IoOther e) | Inr ssl \<Rightarrow> Inr \<lparr>es_inner = ssl\<rparr>))"
  by (auto simp: ech_call_def io_map_err_def io_bind_def split: prod.splits sum.splits)

section \<open>Properties\<close>

text \<open>
  C17. A channel that was connected with ECH stays with it: whenever \<open>tonic\<close> calls its connector again,
  at any later time and whatever the caches and the network have become, no ordinary connection is
  made, the handshake offers the very configuration that the channel started with and verifies the
  name and the roots of the backend, the caches are neither read nor written, and a stream is given
  only when ECH was accepted and HTTP/2 negotiated. (So a backend that gives up that configuration
  is lost to the channel, whatever newer one it offers.)
\<close>

theorem reconnects_stay_ech:
  assumes "ech_connector_new env backend config w0 = (Inr connector, w1)" "ssl_cache_ok w0"
    and "ech_call env connector req w = (r, w')"
  shows "\<exists>es ssl. tw_events w' = tw_events w @ es \<and> list_all not_plain es \<and>
    (\<forall>s. EchHandshake s \<in> set es \<longrightarrow> s = ssl) \<and>
    ssl_ech_config_list ssl = config \<and> ssl_verify_hostname ssl \<and> backend_tls_name env backend = Inr (ssl_name ssl) \<and>
    sc_verify_peer (ssl_from ssl) \<and> sc_ca_file (ssl_from ssl) = bc_ca_cert backend \<and>
    tw_ech_cache w' = tw_ech_cache w \<and> tw_ssl_cache w' = tw_ssl_cache w \<and>
    (case r of
       Inl e \<Rightarrow> True
     | Inr stream \<Rightarrow> es_inner stream = ssl \<and>
         (\<exists>log hs. tw_events w' = log @ [EchHandshake ssl] \<and> te_handshake env log ssl = Some hs \<and>
            hs_ech_accepted hs \<and> hs_alpn hs = Some h2_alpn))"
proof -
  note new = ech_connector_new_Inr [OF assms(1,2)]
  from assms(3) obtain q where run: "ech_connector_connect env connector w = (q, w')"
    and r: "r = (case q of Inl e \<Rightarrow> Inl (IoOther e) | Inr ssl \<Rightarrow> Inr \<lparr>es_inner = ssl\<rparr>)"
    by (auto simp: ech_call_eq)
  let ?ssl = "connector_ssl connector"
  have ssl: "ssl_ech_config_list ?ssl = config" "ssl_verify_hostname ?ssl" "backend_tls_name env backend = Inr (ssl_name ?ssl)"
      "sc_verify_peer (ssl_from ?ssl)" "sc_ca_file (ssl_from ?ssl) = bc_ca_cert backend"
    using new(2-5) by (simp_all add: connector_ssl_def)
  let ?tcp = "TcpConnect (ech_connect_addr connector)"
  from ech_connect_shape [OF run] have caches: "tw_ech_cache w' = tw_ech_cache w" "tw_ssl_cache w' = tw_ssl_cache w"
    and "(tw_events w' = tw_events w @ [?tcp] \<and> (\<exists>e. q = Inl e)) \<or> tw_events w' = tw_events w @ [?tcp, EchHandshake ?ssl] \<and>
      (\<forall>ssl. q = Inr ssl \<longrightarrow> ssl = ?ssl \<and> (\<exists>hs. te_handshake env (tw_events w @ [?tcp]) ssl = Some hs \<and>
         hs_ech_accepted hs \<and> hs_alpn hs = Some h2_alpn))" by blast+
  then obtain es where es: "tw_events w' = tw_events w @ es" "list_all not_plain es" "\<forall>s. EchHandshake s \<in> set es \<longrightarrow> s = ?ssl"
    and ok: "case r of Inl e \<Rightarrow> True
     | Inr stream \<Rightarrow> es_inner stream = ?ssl \<and>
         (\<exists>log hs. tw_events w' = log @ [EchHandshake ?ssl] \<and> te_handshake env log ?ssl = Some hs \<and>
            hs_ech_accepted hs \<and> hs_alpn hs = Some h2_alpn)"
    unfolding r by (cases q) (auto simp: not_plain_def)
  show ?thesis
    by (rule exI [of _ es], rule exI [of _ ?ssl]) (use es ok ssl caches in blast)
qed

text \<open>Once no handshake with the configuration is accepted any more, every call fails.\<close>

lemma rotated_key_never_reconnects:
  assumes "ech_connector_new env backend config w0 = (Inr connector, w1)" "ssl_cache_ok w0"
    and "\<And>log ssl hs. prefix (tw_events w) log \<Longrightarrow> ssl_ech_config_list ssl = config \<Longrightarrow>
      te_handshake env log ssl = Some hs \<Longrightarrow> \<not> hs_ech_accepted hs"
    and "ech_call env connector req w = (r, w')"
  shows "\<exists>e. r = Inl e"
proof (rule ccontr)
  assume "\<nexists>e. r = Inl e"
  then obtain stream where r: "r = Inr stream" by (cases r) auto
  from assms(4) obtain q where "ech_connector_connect env connector w = (q, w')"
    "Inr stream = (case q of Inl e \<Rightarrow> Inl (IoOther e) | Inr ssl \<Rightarrow> Inr \<lparr>es_inner = ssl\<rparr>)"
    unfolding ech_call_eq r by blast
  then obtain ssl where run: "ech_connector_connect env connector w = (Inr ssl, w')" by (cases q) auto
  from ech_connect_shape [OF run] obtain hs where
    "te_handshake env (tw_events w @ [TcpConnect (ech_connect_addr connector)]) ssl = Some hs" "hs_ech_accepted hs"
    "ssl = connector_ssl connector" by auto
  moreover have "ssl_ech_config_list (connector_ssl connector) = config"
    using ech_connector_new_Inr(2) [OF assms(1,2)] by (simp add: connector_ssl_def)
  ultimately show False
    using assms(3) [of "tw_events w @ [TcpConnect (ech_connect_addr connector)]" ssl hs] by simp
qed

section \<open>Witnesses\<close>

definition demo_later :: tls_world where
  "demo_later = demo_world\<lparr>tw_ech_cache := [''d|b'' \<mapsto> \<lparr>ce_config = [1], ce_expires_at = 9\<rparr>]\<rparr>"

theorem reconnects_stay_ech_witness:
  "is_ok (fst (ech_call demo_ech_env (projr (fst (ech_connector_new demo_ech_env demo_backend [9, 8, 7] demo_world))) [] demo_later)) \<and>
   (\<exists>ssl. last (tw_events (snd (ech_call demo_ech_env
        (projr (fst (ech_connector_new demo_ech_env demo_backend [9, 8, 7] demo_world))) [] demo_later))) = EchHandshake ssl \<and>
      ssl_ech_config_list ssl = [9, 8, 7])"
proof -
  let ?new = "ech_connector_new demo_ech_env demo_backend [9, 8, 7] demo_world"
  let ?call = "ech_call demo_ech_env (projr (fst ?new)) [] demo_later"
  have "is_ok (fst ?new)" by code_simp
  then obtain connector w1 where new: "?new = (Inr connector, w1)" by (metis is_ok_iff prod.collapse)
  have ok: "is_ok (fst ?call)" by code_simp
  obtain r w' where call: "?call = (r, w')" by fastforce
  then have again: "ech_call demo_ech_env connector [] demo_later = (r, w')" using new by simp
  from ok call obtain stream where r: "r = Inr stream" by (auto simp: is_ok_iff)
  from reconnects_stay_ech [OF new demo_world_ok(1) again, unfolded r] obtain log ssl where
    "tw_events w' = log @ [EchHandshake ssl]" "ssl_ech_config_list ssl = [9, 8, 7]" by auto
  with ok call show ?thesis by simp
qed

end
