(* ===== verification/Grpc_Pool.thy ===== *)
theory Grpc_Pool
  imports Ech_Tls
begin

text \<open>
  \<open>client/src/grpc_pool.rs\<close>: the registry of backend pools, the round-robin choice of a channel
  and the permits that bound the streams of a pool. The counter \<open>next\<close> is an \<open>AtomicUsize\<close>, a
  64-bit word that wraps. A \<open>tokio\<close> semaphore is its number of free permits; \<open>max_permits\<close> is
  the largest count it can be made with, above which \<open>Semaphore::new\<close> panics.
\<close>

section \<open>Data and operations\<close>

record 'ch backend_pool =
  bp_backend :: backend_config
  bp_channels :: "'ch list"
  bp_next :: u64
  bp_permits :: nat

text \<open>The product of two \<open>usize\<close> values, as the release build computes it.\<close>

definition usize_wrapping_mul :: "nat \<Rightarrow> nat \<Rightarrow> nat" where
  "usize_wrapping_mul a b = (a * b) mod usize_limit"

fun connect_channels ::
    "'ch tls_env \<Rightarrow> backend_config \<Rightarrow> ech_config \<Rightarrow> nat \<Rightarrow> 'ch list \<Rightarrow> 'ch list tls_io" where
  "connect_channels env backend ech 0 channels = io_return channels"
| "connect_channels env backend ech (Suc n) channels =
     io_bind (connect_channel env backend ech) (\<lambda>channel.
     connect_channels env backend ech n (channels @ [channel]))"

definition backend_pool_connect ::
    "'ch tls_env \<Rightarrow> nat \<Rightarrow> backend_config \<Rightarrow> ech_config \<Rightarrow> 'ch backend_pool tls_io" where
  "backend_pool_connect env max_permits backend ech =
     (let pool_size = max (bc_pool_size backend) 1;
          permits = usize_wrapping_mul pool_size (max (bc_max_streams_per_channel backend) 1) in
      io_bind (connect_channels env backend ech pool_size []) (\<lambda>channels.
      if max_permits < permits then io_fail SemaphorePanic
      else io_return \<lparr>bp_backend = backend, bp_channels = channels, bp_next = 0, bp_permits = permits\<rparr>))"

text \<open>\<open>with_context\<close> names the backend in the error of its initialisation.\<close>

definition with_backend_context :: "string \<Rightarrow> 'a tls_io \<Rightarrow> 'a tls_io" where
  "with_backend_context ident m w =
     (case m w of (Inl SemaphorePanic, w') \<Rightarrow> (Inl SemaphorePanic, w')
      | (Inl e, w') \<Rightarrow> (Inl (BackendInit ident e), w') | (Inr x, w') \<Rightarrow> (Inr x, w'))"

fun connect_pools ::
    "'ch tls_env \<Rightarrow> nat \<Rightarrow> ech_config \<Rightarrow> (string \<times> backend_config) list \<Rightarrow>
     (string \<rightharpoonup> 'ch backend_pool) \<Rightarrow> (string \<rightharpoonup> 'ch backend_pool) tls_io" where
  "connect_pools env max_permits ech [] pools = io_return pools"
| "connect_pools env max_permits ech ((ident, backend) # backends) pools =
     io_bind (with_backend_context ident (backend_pool_connect env max_permits backend ech)) (\<lambda>pool.
     connect_pools env max_permits ech backends (pools(ident \<mapsto> pool)))"

definition registry_connect ::
    "'ch tls_env \<Rightarrow> nat \<Rightarrow> (string \<times> backend_config) list \<Rightarrow> ech_config \<Rightarrow>
     (string \<rightharpoonup> 'ch backend_pool) tls_io" where
  "registry_connect env max_permits backends ech =
     (if backends = [] then io_fail NoBackends
      else connect_pools env max_permits ech backends (\<lambda>_. None))"

definition registry_get :: "(string \<rightharpoonup> 'ch backend_pool) \<Rightarrow> string \<Rightarrow> 'ch backend_pool option" where
  "registry_get pools ident = pools ident"

text \<open>\<open>pick\<close>: \<open>None\<close> is the panic of a remainder by zero.\<close>

definition pick :: "'ch backend_pool \<Rightarrow> 'ch option \<times> 'ch backend_pool" where
  "pick pool =
     (let n = length (bp_channels pool); old = unat (bp_next pool);
          pool' = pool\<lparr>bp_next := bp_next pool + 1\<rparr> in
      (if n = 0 then None else Some (bp_channels pool ! (old mod n)), pool'))"

definition pool_auth_token :: "'ch backend_pool \<Rightarrow> string" where
  "pool_auth_token pool = bc_auth_token (bp_backend pool)"

text \<open>
  \<open>acquire_stream_permit\<close> waits while no permit is free (\<open>None\<close>); the semaphore is never
  closed. Dropping the permit gives it back.
\<close>

definition acquire_stream_permit :: "'ch backend_pool \<Rightarrow> 'ch backend_pool option" where
  "acquire_stream_permit pool =
     (if bp_permits pool = 0 then None else Some (pool\<lparr>bp_permits := bp_permits pool - 1\<rparr>))"

definition drop_permit :: "'ch backend_pool \<Rightarrow> 'ch backend_pool" where
  "drop_permit pool = pool\<lparr>bp_permits := bp_permits pool + 1\<rparr>"

section \<open>Connecting\<close>

lemma connect_channels_length:
  "connect_channels env backend ech n channels w = (Inr cs, w') \<Longrightarrow>
     length cs = length channels + n"
  by (induction env backend ech n channels arbitrary: w rule: connect_channels.induct)
    (fastforce simp: io_simps)+

lemma backend_pool_connect_shape:
  assumes "backend_pool_connect env max_permits backend ech w = (Inr pool, w')"
  shows "bp_backend pool = backend \<and> length (bp_channels pool) = max (bc_pool_size backend) 1 \<and>
    bp_next pool = 0 \<and>
    bp_permits pool = usize_wrapping_mul (max (bc_pool_size backend) 1) (max (bc_max_streams_per_channel backend) 1)"
  using assms
  by (auto simp: backend_pool_connect_def Let_def io_simps split: if_splits
      dest: connect_channels_length)

lemma with_backend_context_Inr [io_simps]:
  "with_backend_context ident m w = (Inr x, w') \<longleftrightarrow> m w = (Inr x, w')"
  by (cases "m w") (auto simp: with_backend_context_def split: sum.splits connect_error.splits)

lemma connect_pools_result:
  assumes "connect_pools env max_permits ech backends pools w = (Inr pools', w')"
    and "distinct (map fst backends)"
  shows "(\<forall>ident. ident \<notin> fst ` set backends \<longrightarrow> pools' ident = pools ident) \<and>
    (\<forall>(ident, backend) \<in> set backends. \<exists>pool v v'. pools' ident = Some pool \<and>
       backend_pool_connect env max_permits backend ech v = (Inr pool, v'))"
  using assms
proof (induction backends arbitrary: pools w)
  case Nil
  then show ?case by simp
next
  case (Cons b backends)
  obtain ident backend where b: "b = (ident, backend)" by (cases b)
  with Cons.prems obtain pool w1 where
    p: "backend_pool_connect env max_permits backend ech w = (Inr pool, w1)" and
    rest: "connect_pools env max_permits ech backends (pools(ident \<mapsto> pool)) w1 = (Inr pools', w')"
    by (auto simp: io_simps)
  have fresh: "ident \<notin> fst ` set backends" and "distinct (map fst backends)"
    using Cons.prems(2) b by auto
  note IH = Cons.IH [OF rest this(2)]
  with fresh have "pools' ident = Some pool" by simp
  with IH p b show ?case by auto
qed

section \<open>Round robin\<close>

fun pick_n :: "nat \<Rightarrow> 'ch backend_pool \<Rightarrow> 'ch option list" where
  "pick_n 0 pool = []"
| "pick_n (Suc n) pool = fst (pick pool) # pick_n n (snd (pick pool))"

lemma pick_state: "snd (pick pool) = pool\<lparr>bp_next := bp_next pool + 1\<rparr>"
  by (simp add: pick_def Let_def)

lemma pick_n_eq:
  assumes "bp_channels pool \<noteq> []" "unat (bp_next pool) + m \<le> 2 ^ 64"
  shows "pick_n m pool =
    map (\<lambda>i. Some (bp_channels pool ! ((unat (bp_next pool) + i) mod length (bp_channels pool)))) [0..<m]"
  using assms
proof (induction m arbitrary: pool)
  case (Suc m)
  show ?case
  proof (cases m)
    case 0
    with Suc.prems show ?thesis by (simp add: pick_def Let_def)
  next
    case (Suc m')
    let ?pool = "pool\<lparr>bp_next := bp_next pool + 1\<rparr>"
    have lt: "unat (bp_next pool) + 1 < 2 ^ 64" using Suc.prems(2) Suc by simp
    then have u: "unat (bp_next pool + 1) = unat (bp_next pool) + 1"
      by (simp add: unat_word_ariths)
    have "pick_n m ?pool = map (\<lambda>i. Some (bp_channels ?pool !
        ((unat (bp_next ?pool) + i) mod length (bp_channels ?pool)))) [0..<m]"
      by (rule Suc.IH) (use Suc.prems u in simp_all)
    then have "pick_n m ?pool = map (\<lambda>i. Some (bp_channels pool !
        ((unat (bp_next pool) + i) mod length (bp_channels pool)))) (map Suc [0..<m])"
      by (simp add: u)
    then show ?thesis using Suc.prems(1)
      by (simp add: pick_state pick_def [of pool] Let_def upt_conv_Cons map_Suc_upt del: upt_Suc)
  qed
qed simp

lemma mset_round:
  assumes "xs \<noteq> []"
  shows "mset (map (\<lambda>i. xs ! ((c + i) mod length xs)) [0..<length xs]) = mset xs"
proof -
  have "map (\<lambda>i. xs ! ((c + i) mod length xs)) [0..<length xs] = rotate c xs"
    using assms by (intro nth_equalityI) (simp_all add: nth_rotate)
  also have "mset (rotate c xs) = mset xs"
    unfolding rotate_drop_take mset_append
    by (metis append_take_drop_id mset_append union_commute)
  finally show ?thesis .
qed

lemma mset_rounds:
  assumes "xs \<noteq> []"
  shows "mset (map (\<lambda>i. xs ! ((c + i) mod length xs)) [0..<k * length xs]) = repeat_mset k (mset xs)"
proof (induction k)
  case (Suc k)
  have "[0..<Suc k * length xs] = [0..<k * length xs] @ map (\<lambda>i. i + k * length xs) [0..<length xs]"
    using upt_add_eq_append [of 0 "k * length xs" "length xs"]
    by (simp add: map_add_upt add.commute)
  moreover have "mset (map (\<lambda>i. xs ! ((c + (i + k * length xs)) mod length xs)) [0..<length xs]) = mset xs"
    using mset_round [OF assms, of "c + k * length xs"] by (simp add: ac_simps)
  ultimately show ?case using Suc by (simp add: comp_def)
qed simp

section \<open>Permits\<close>

text \<open>A pool with its running streams: opening one takes a permit and a channel, ending one
  gives the permit back.\<close>

inductive pool_step :: "'ch backend_pool \<times> nat \<Rightarrow> 'ch backend_pool \<times> nat \<Rightarrow> bool" where
  Open: "acquire_stream_permit pool = Some pool' \<Longrightarrow>
    pool_step (pool, active) (snd (pick pool'), Suc active)"
| Finish: "pool_step (pool, Suc active) (drop_permit pool, active)"

inductive_cases pool_stepE: "pool_step (pool, active) s"

definition permits_inv :: "nat \<Rightarrow> 'ch list \<Rightarrow> 'ch backend_pool \<times> nat \<Rightarrow> bool" where
  "permits_inv capacity channels s \<longleftrightarrow>
     bp_permits (fst s) + snd s = capacity \<and> bp_channels (fst s) = channels"

lemma permits_inv_step: "pool_step s t \<Longrightarrow> permits_inv capacity channels s \<Longrightarrow> permits_inv capacity channels t"
  by (induction rule: pool_step.induct)
    (auto simp: permits_inv_def acquire_stream_permit_def drop_permit_def pick_state split: if_splits)

lemma permits_inv_run: "pool_step\<^sup>*\<^sup>* s t \<Longrightarrow> permits_inv capacity channels s \<Longrightarrow> permits_inv capacity channels t"
  by (induction rule: rtranclp_induct) (auto dest: permits_inv_step)

section \<open>Properties\<close>

text \<open>
  C20. A registry that connects has a pool for exactly the configured backends, each with as many
  channels as its configuration asks for and never none, so that \<open>pick\<close> cannot panic, and with
  the permits of all its channels.
\<close>

theorem registry_pools:
  assumes "registry_connect env max_permits backends ech w = (Inr pools, w')"
    and "distinct (map fst backends)"
  shows "dom pools = fst ` set backends \<and> dom pools \<noteq> {} \<and>
    (\<forall>(ident, backend) \<in> set backends. \<exists>pool. registry_get pools ident = Some pool \<and>
       bp_backend pool = backend \<and> length (bp_channels pool) = max (bc_pool_size backend) 1 \<and>
       fst (pick pool) \<noteq> None \<and>
       bp_permits pool = usize_wrapping_mul (max (bc_pool_size backend) 1)
         (max (bc_max_streams_per_channel backend) 1))"
proof -
  from assms(1) have ne: "backends \<noteq> []" and
    run: "connect_pools env max_permits ech backends (\<lambda>_. None) w = (Inr pools, w')"
    by (auto simp: registry_connect_def split: if_splits)
  note r = connect_pools_result [OF run assms(2)]
  have "dom pools = fst ` set backends" using r by (fastforce simp: dom_def)
  moreover have "\<exists>pool. registry_get pools ident = Some pool \<and>
       bp_backend pool = backend \<and> length (bp_channels pool) = max (bc_pool_size backend) 1 \<and>
       fst (pick pool) \<noteq> None \<and>
       bp_permits pool = usize_wrapping_mul (max (bc_pool_size backend) 1)
         (max (bc_max_streams_per_channel backend) 1)" if "(ident, backend) \<in> set backends" for ident backend
    using r that
    by (fastforce simp: registry_get_def pick_def Let_def dest!: backend_pool_connect_shape)
  ultimately show ?thesis using ne by auto
qed

theorem registry_pools_witness:
  "is_ok (fst (registry_connect demo_ech_env 1000 [(''p'', demo_backend)] ech_config_default demo_world)) \<and>
   dom (projr (fst (registry_connect demo_ech_env 1000 [(''p'', demo_backend)] ech_config_default demo_world))) = {''p''}"
proof -
  let ?run = "registry_connect demo_ech_env 1000 [(''p'', demo_backend)] ech_config_default demo_world"
  have ok: "is_ok (fst ?run)" by code_simp
  then obtain pools where "fst ?run = Inr pools" by (auto simp: is_ok_iff)
  moreover from this have "?run = (Inr pools, snd ?run)" by (metis prod.collapse)
  ultimately show ?thesis using ok registry_pools [of demo_ech_env 1000 "[(''p'', demo_backend)]"] by auto
qed

text \<open>
  Round robin is fair: as long as the counter does not wrap, any run of \<open>k\<close> rounds of \<open>pick\<close>,
  wherever the counter stands, uses every channel of the pool exactly \<open>k\<close> times.
\<close>

theorem round_robin_fair:
  assumes "bp_channels pool \<noteq> []"
    and "unat (bp_next pool) + k * length (bp_channels pool) \<le> 2 ^ 64"
  shows "mset (pick_n (k * length (bp_channels pool)) pool) =
    repeat_mset k (mset (map Some (bp_channels pool)))"
proof -
  let ?xs = "map Some (bp_channels pool)"
  have "pick_n (k * length ?xs) pool =
      map (\<lambda>i. ?xs ! ((unat (bp_next pool) + i) mod length ?xs)) [0..<k * length ?xs]"
    using pick_n_eq [of pool "k * length ?xs"] assms by simp
  then show ?thesis using mset_rounds [of ?xs "unat (bp_next pool)" k] assms(1) by simp
qed

theorem round_robin_fair_witness:
  "mset (pick_n 6 \<lparr>bp_backend = demo_backend, bp_channels = [10, 11, 12 :: nat], bp_next = 2, bp_permits = 1\<rparr>) =
     repeat_mset 2 (mset [Some 10, Some 11, Some 12])"
  using round_robin_fair [of "\<lparr>bp_backend = demo_backend, bp_channels = [10, 11, 12 :: nat], bp_next = 2, bp_permits = 1\<rparr>" 2]
  by simp

text \<open>
  However streams are opened and ended on a pool, no more than its permits are open at once,
  a stream can be opened exactly when fewer are open, and the channels never change.
\<close>

theorem stream_permits_bound:
  assumes "pool_step\<^sup>*\<^sup>* (pool, 0) (pool', active)"
  shows "active \<le> bp_permits pool \<and> bp_channels pool' = bp_channels pool \<and>
    ((\<exists>s. acquire_stream_permit pool' = Some s) \<longleftrightarrow> active < bp_permits pool)"
proof -
  have "permits_inv (bp_permits pool) (bp_channels pool) (pool', active)"
    by (rule permits_inv_run [OF assms]) (simp add: permits_inv_def)
  then show ?thesis by (auto simp: permits_inv_def acquire_stream_permit_def)
qed

theorem stream_permits_bound_witness:
  "pool_step\<^sup>*\<^sup>* (\<lparr>bp_backend = demo_backend, bp_channels = [()], bp_next = 0, bp_permits = 1\<rparr>, 0)
     (\<lparr>bp_backend = demo_backend, bp_channels = [()], bp_next = 1, bp_permits = 0\<rparr>, Suc 0) \<and>
   acquire_stream_permit \<lparr>bp_backend = demo_backend, bp_channels = [()], bp_next = 1, bp_permits = 0\<rparr> = None"
proof -
  let ?p = "\<lparr>bp_backend = demo_backend, bp_channels = [()], bp_next = 0, bp_permits = 1\<rparr>"
  let ?q = "\<lparr>bp_backend = demo_backend, bp_channels = [()], bp_next = 1, bp_permits = 0\<rparr>"
  have "pool_step (?p, 0) (snd (pick (?p\<lparr>bp_permits := 0\<rparr>)), Suc 0)"
    by (rule pool_step.Open) (simp add: acquire_stream_permit_def)
  moreover have "snd (pick (?p\<lparr>bp_permits := 0\<rparr>)) = ?q" by (simp add: pick_state)
  ultimately have run: "pool_step\<^sup>*\<^sup>* (?p, 0) (?q, Suc 0)" by auto
  then show ?thesis using stream_permits_bound [OF run] by auto
qed

end
