(* ===== verification/Server_Config.thy ===== *)
theory Server_Config
  imports Rust_Str
begin

text \<open>
  \<open>server/src/config.rs\<close> and \<open>server/src/auth.rs\<close>: the configuration with its environment
  overrides, and the check of the backend token. Reading files and the TOML decoder are
  parameters, as are the environment variables and the metadata of the request.
\<close>

section \<open>Configuration\<close>

record server_config =
  sv_listen :: string
  sv_cert :: "string option"
  sv_key :: "string option"

record auth_config =
  au_tokens :: "string list"

record policy_config =
  po_connect_timeout_ms :: u64
  po_idle_timeout_secs :: u64
  po_max_concurrent_streams :: u32
  po_deny_private_ip :: bool
  po_allowed_ports :: "u16 list"

record srv_config =
  sc_server :: server_config
  sc_auth :: auth_config
  sc_policy :: policy_config

datatype srv_error =
    ConfigUnreadable string | ConfigUnparsable string
  | EmptyListen | NoNonEmptyToken
  | NoTokens | PortZeroAllowed

text \<open>Durations, in milliseconds.\<close>

definition policy_connect_timeout_of :: "policy_config \<Rightarrow> nat" where
  "policy_connect_timeout_of c = unat (po_connect_timeout_ms c)"

definition policy_idle_timeout_of :: "policy_config \<Rightarrow> nat" where
  "policy_idle_timeout_of c = unat (po_idle_timeout_secs c) * 1000"

definition srv_default_connect_timeout_ms :: u64 where "srv_default_connect_timeout_ms = 8000"
definition srv_default_idle_timeout_secs :: u64 where "srv_default_idle_timeout_secs = 300"
definition srv_default_max_concurrent_streams :: u32 where
  "srv_default_max_concurrent_streams = 4096"
definition srv_default_listen :: string where "srv_default_listen = ''0.0.0.0:50051''"

definition srv_config_default :: srv_config where
  "srv_config_default =
     \<lparr>sc_server = \<lparr>sv_listen = srv_default_listen, sv_cert = None, sv_key = None\<rparr>,
      sc_auth = \<lparr>au_tokens = []\<rparr>,
      sc_policy = \<lparr>po_connect_timeout_ms = srv_default_connect_timeout_ms,
                   po_idle_timeout_secs = srv_default_idle_timeout_secs,
                   po_max_concurrent_streams = srv_default_max_concurrent_streams,
                   po_deny_private_ip = True, po_allowed_ports = []\<rparr>\<rparr>"

definition parse_tokens :: "string \<Rightarrow> srv_error + string list" where
  "parse_tokens raw =
     (let tokens = filter (\<lambda>token. token \<noteq> []) (map str_trim (str_split CHR '','' raw)) in
      if tokens = [] then Inl NoNonEmptyToken else Inr tokens)"

definition apply_env :: "(string \<Rightarrow> string option) \<Rightarrow> srv_config \<Rightarrow> srv_error + srv_config" where
  "apply_env var config =
     rbind
       (case var ''LISTEN'' of
          None \<Rightarrow> Inr config
        | Some listen \<Rightarrow>
            let listen = str_trim listen in
            if listen = [] then Inl EmptyListen
            else Inr (config\<lparr>sc_server := (sc_server config)\<lparr>sv_listen := listen\<rparr>\<rparr>)) (\<lambda>config.
     case var ''TOKENS'' of
       None \<Rightarrow> Inr config
     | Some tokens \<Rightarrow>
         rbind (parse_tokens tokens) (\<lambda>tokens.
         Inr (config\<lparr>sc_auth := (sc_auth config)\<lparr>au_tokens := tokens\<rparr>\<rparr>)))"

definition srv_config_load ::
    "(string \<Rightarrow> string option) \<Rightarrow> (string \<Rightarrow> srv_config option) \<Rightarrow> (string \<Rightarrow> string option) \<Rightarrow>
     string option \<Rightarrow> srv_error + srv_config" where
  "srv_config_load read_file from_toml var path =
     rbind
       (case path of
          Some path \<Rightarrow>
            rbind (ok_or (ConfigUnreadable path) (read_file path)) (\<lambda>raw.
            ok_or (ConfigUnparsable path) (from_toml raw))
        | None \<Rightarrow> Inr srv_config_default) (apply_env var)"

section \<open>Tokens\<close>

record token_auth = ta_tokens :: "string set"

datatype status = Unauthenticated string

definition token_auth_new :: "string list \<Rightarrow> srv_error + token_auth" where
  "token_auth_new tokens =
     (if tokens = [] then Inl NoTokens else Inr \<lparr>ta_tokens = set tokens\<rparr>)"

text \<open>
  The metadata of a request is a lookup of the first value under a key; \<open>to_str\<close> is the one of
  \<open>MetadataValue\<close>, which fails on a value that is not visible ASCII.
\<close>

definition authenticate_token ::
    "('m \<Rightarrow> string option) \<Rightarrow> (string \<Rightarrow> 'm option) \<Rightarrow> token_auth \<Rightarrow> status + string" where
  "authenticate_token to_str metadata auth =
     rbind (ok_or (Unauthenticated ''missing authorization metadata'') (metadata ''authorization'')) (\<lambda>entry.
     rbind (ok_or (Unauthenticated ''invalid authorization metadata'') (to_str entry)) (\<lambda>val.
     let token = str_trim
           (case (case strip_prefix ''Bearer '' val of
                    Some t \<Rightarrow> Some t | None \<Rightarrow> strip_prefix ''bearer '' val) of
              Some t \<Rightarrow> t | None \<Rightarrow> val) in
     if token = [] \<or> token \<notin> ta_tokens auth
     then Inl (Unauthenticated ''invalid backend token'')
     else Inr token))"

end
