(* ===== verification/Server_Policy.thy ===== *)
theory Server_Policy
  imports Server_Config Ip_Addr
begin

text \<open>
  \<open>server/src/policy.rs\<close>: which targets a tunnel may be opened to. The resolver behind
  \<open>to_socket_addrs\<close> is a parameter, a function of the \<open>host:port\<close> text that gives addresses or
  the text of an error.
\<close>

unbundle bit_operations_syntax

section \<open>Data and operations\<close>

record socket_addr =
  sa_ip :: ip_addr
  sa_port :: u16

datatype policy_error =
    InvalidHost | InvalidPort | PortDenied u16 | NoAddresses | AddressDenied ip_addr | Resolve string

fun policy_error_text :: "policy_error \<Rightarrow> string" where
  "policy_error_text InvalidHost = ''invalid target host''"
| "policy_error_text InvalidPort = ''target port is out of range''"
| "policy_error_text (PortDenied p) = ''target port '' @ show_dec (unat p) @ '' is not allowed''"
| "policy_error_text NoAddresses = ''target resolved to no addresses''"
| "policy_error_text (AddressDenied ip) = ''target address '' @ show_ip ip @ '' is denied''"
| "policy_error_text (Resolve e) = ''failed to resolve target: '' @ e"

record policy =
  pl_connect_timeout :: nat
  pl_deny_private_ip :: bool
  pl_allowed_ports :: "u16 set option"

definition policy_from_config :: "policy_config \<Rightarrow> srv_error + policy" where
  "policy_from_config config =
     (if list_ex (\<lambda>port. port = 0) (po_allowed_ports config) then Inl PortZeroAllowed
      else Inr \<lparr>pl_connect_timeout = policy_connect_timeout_of config,
                pl_deny_private_ip = po_deny_private_ip config,
                pl_allowed_ports =
                  (if po_allowed_ports config = [] then None else Some (set (po_allowed_ports config)))\<rparr>)"

definition is_ipv6_unique_local :: "u128 \<Rightarrow> bool" where
  "is_ipv6_unique_local ip = (v6_segments ip ! 0 AND 0xfe00 = 0xfc00)"

definition is_ipv6_unicast_link_local :: "u128 \<Rightarrow> bool" where
  "is_ipv6_unicast_link_local ip = (v6_segments ip ! 0 AND 0xffc0 = 0xfe80)"

definition is_ipv6_documentation :: "u128 \<Rightarrow> bool" where
  "is_ipv6_documentation ip = (v6_segments ip ! 0 = 0x2001 \<and> v6_segments ip ! 1 = 0x0db8)"

definition ip_denied :: "ip_addr \<Rightarrow> bool" where
  "ip_denied ip =
     (case ip of
        V4 ip \<Rightarrow>
          ipv4_is_private ip \<or> ipv4_is_loopback ip \<or> ipv4_is_link_local ip \<or>
          ipv4_is_multicast ip \<or> ipv4_is_broadcast ip \<or> ipv4_is_documentation ip \<or>
          ipv4_is_unspecified ip
      | V6 ip \<Rightarrow>
          ipv6_is_loopback ip \<or> ipv6_is_multicast ip \<or> ipv6_is_unspecified ip \<or>
          is_ipv6_unique_local ip \<or> is_ipv6_unicast_link_local ip \<or> is_ipv6_documentation ip)"

definition check_ip :: "policy \<Rightarrow> ip_addr \<Rightarrow> policy_error + unit" where
  "check_ip policy ip =
     (if \<not> pl_deny_private_ip policy then Inr ()
      else if ip_denied ip then Inl (AddressDenied ip) else Inr ())"

definition check_connected_addr :: "policy \<Rightarrow> socket_addr \<Rightarrow> policy_error + unit" where
  "check_connected_addr policy addr = check_ip policy (sa_ip addr)"

definition bad_host_byte :: "u8 \<Rightarrow> bool" where
  "bad_host_byte b \<longleftrightarrow>
     b = 0 \<or> b = byte_of_char CHR ''/'' \<or> b = byte_of_char CHR 0x5C \<or> b = byte_of_char CHR ''@'' \<or>
     is_ascii_whitespace (char_of_byte b)"

definition validate_host :: "string \<Rightarrow> policy_error + unit" where
  "validate_host host =
     (if host = [] \<or> 253 < length host then Inl InvalidHost
      else if list_ex bad_host_byte (bytes_of_str host) then Inl InvalidHost
      else Inr ())"

fun check_addrs :: "policy \<Rightarrow> socket_addr list \<Rightarrow> policy_error + unit" where
  "check_addrs policy [] = Inr ()"
| "check_addrs policy (addr # addrs) =
     rbind (check_ip policy (sa_ip addr)) (\<lambda>_. check_addrs policy addrs)"

definition u16_try_from :: "u32 \<Rightarrow> u16 option" where
  "u16_try_from v = (if unat v < 65536 then Some (word_of_nat (unat v)) else None)"

definition resolve_target ::
    "(string \<Rightarrow> string + socket_addr list) \<Rightarrow> policy \<Rightarrow> string \<Rightarrow> u32 \<Rightarrow> policy_error + socket_addr list" where
  "resolve_target to_socket_addrs policy host port32 =
     rbind (ok_or InvalidPort (u16_try_from port32)) (\<lambda>port.
     if port = 0 then Inl InvalidPort
     else if (case pl_allowed_ports policy of None \<Rightarrow> False | Some allowed \<Rightarrow> port \<notin> allowed)
     then Inl (PortDenied port)
     else
       rbind (validate_host host) (\<lambda>_.
       rbind
         (case parse_ip host of
            Some ip \<Rightarrow> Inr [\<lparr>sa_ip = ip, sa_port = port\<rparr>]
          | None \<Rightarrow>
              (case to_socket_addrs (host @ '':'' @ show_dec (unat port)) of
                 Inl e \<Rightarrow> Inl (Resolve e)
               | Inr addrs \<Rightarrow> Inr addrs)) (\<lambda>addrs.
       if addrs = [] then Inl NoAddresses
       else rbind (check_addrs policy addrs) (\<lambda>_. Inr addrs))))"

lemma unat_push_drop:
  "unat (push_bit k (drop_bit k x)) = unat x div 2 ^ k * 2 ^ k" for x :: "'a::len word"
proof -
  have "unat x div 2 ^ k * 2 ^ k \<le> unat x" by (simp add: div_mult2_eq)
  also have "unat x < 2 ^ LENGTH('a)" by (rule unsigned_less)
  finally have "unat x div 2 ^ k * 2 ^ k < 2 ^ LENGTH('a)" .
  then show ?thesis
    by (simp only: unsigned_push_bit_eq unat_drop_bit_eq)
      (simp add: push_bit_eq_mult drop_bit_eq_div take_bit_nat_eq_self)
qed

lemma and_high_mask:
  fixes x :: u16
  assumes "m = push_bit k (mask (16 - k))"
  shows "x AND m = push_bit k (drop_bit k x)"
  unfolding assms by (rule bit_word_eqI) (auto simp: bit_simps)

lemma masked_segment:
  fixes x y :: u16
  assumes "m = push_bit k (mask (16 - k))"
  shows "x AND m = y \<longleftrightarrow> unat x div 2 ^ k * 2 ^ k = unat y"
  unfolding and_high_mask [OF assms] word_unat_eq_iff unat_push_drop ..

lemma div_mult_eq_iff:
  fixes n :: nat
  assumes "0 < d"
  shows "n div d * d = q * d \<longleftrightarrow> q * d \<le> n \<and> n < q * d + d"
proof
  assume "n div d * d = q * d"
  with div_times_less_eq_dividend [of n d] dividend_less_div_times [OF assms, of n]
  show "q * d \<le> n \<and> n < q * d + d" by (simp add: add.commute)
next
  assume "q * d \<le> n \<and> n < q * d + d"
  then have "n div d = q" by (intro div_nat_eqI) (simp_all add: mult.commute)
  then show "n div d * d = q * d" by simp
qed

lemma segment_tests:
  "x AND 0xff00 = 0xff00 \<longleftrightarrow> 0xff00 \<le> unat x"
  "x AND 0xfe00 = 0xfc00 \<longleftrightarrow> 0xfc00 \<le> unat x \<and> unat x \<le> 0xfdff"
  "x AND 0xffc0 = 0xfe80 \<longleftrightarrow> 0xfe80 \<le> unat x \<and> unat x \<le> 0xfebf" for x :: u16
proof -
  have m: "0xff00 = push_bit 8 (mask (16 - 8) :: u16)" "0xfe00 = push_bit 9 (mask (16 - 9) :: u16)"
    "0xffc0 = push_bit 6 (mask (16 - 6) :: u16)"
    by (simp_all add: mask_eq_exp_minus_1 push_bit_eq_mult)
  have lt: "unat x < 65536" by (rule unat_u16_less)
  show "x AND 0xff00 = 0xff00 \<longleftrightarrow> 0xff00 \<le> unat x"
    unfolding masked_segment [OF m(1)] using lt div_mult_eq_iff [of 256 "unat x" 255] by auto
  show "x AND 0xfe00 = 0xfc00 \<longleftrightarrow> 0xfc00 \<le> unat x \<and> unat x \<le> 0xfdff"
    unfolding masked_segment [OF m(2)] using div_mult_eq_iff [of 512 "unat x" 126] by auto
  show "x AND 0xffc0 = 0xfe80 \<longleftrightarrow> 0xfe80 \<le> unat x \<and> unat x \<le> 0xfebf"
    unfolding masked_segment [OF m(3)] using div_mult_eq_iff [of 64 "unat x" 1018] by auto
qed

text \<open>An address as its four octets.\<close>

lemma v4_octets_digits:
  obtains a b c d where "v4_octets ip = map word_of_nat [a, b, c, d]"
    "a < 256" "b < 256" "c < 256" "d < 256"
    "unat ip = ((a * 256 + b) * 256 + c) * 256 + d"
proof -
  let ?ds = "base_digits 256 4 (unat ip)"
  have "length ?ds = Suc (Suc (Suc (Suc 0)))" by simp
  then obtain a b c d where ds: "?ds = [a, b, c, d]"
    by (simp only: length_Suc_conv length_0_conv) blast
  have "unat ip < 256 ^ 4" using unsigned_less [of ip] by simp
  then have n: "of_digits 256 ?ds = unat ip" by (simp only: of_digits_base_digits mod_less)
  have lt: "x < 256" if "x \<in> set ?ds" for x using base_digits_less [OF _ that] by simp
  show thesis
  proof (rule that)
    show "v4_octets ip = map word_of_nat [a, b, c, d]" by (simp add: to_be_def ds)
    show "a < 256" "b < 256" "c < 256" "d < 256" by (simp_all add: lt ds)
    show "unat ip = ((a * 256 + b) * 256 + c) * 256 + d"
      using n unfolding ds by (simp add: of_digits_def)
  qed
qed

lemma octet_tests:
  assumes "n < 256"
  shows "(word_of_nat n :: u8) = numeral k \<longleftrightarrow> n = unat (numeral k :: u8)"
    "(word_of_nat n :: u8) = 0 \<longleftrightarrow> n = 0"
    "numeral k \<le> (word_of_nat n :: u8) \<longleftrightarrow> unat (numeral k :: u8) \<le> n"
    "(word_of_nat n :: u8) \<le> numeral k \<longleftrightarrow> n \<le> unat (numeral k :: u8)"
  using assms by (simp_all add: word_unat_eq_iff word_le_nat_alt del: unat_numeral unsigned_numeral)

section \<open>The denied addresses as ranges\<close>

definition in_ranges :: "(nat \<times> nat) list \<Rightarrow> nat \<Rightarrow> bool" where
  "in_ranges rs n = list_ex (\<lambda>(lo, hi). lo \<le> n \<and> n \<le> hi) rs"

text \<open>Private use, loopback, link local, multicast, broadcast, documentation, unspecified.\<close>

definition reserved_v4 :: "(nat \<times> nat) list" where
  "reserved_v4 =
     [(0x0A000000, 0x0AFFFFFF), (0xAC100000, 0xAC1FFFFF), (0xC0A80000, 0xC0A8FFFF),
      (0x7F000000, 0x7FFFFFFF), (0xA9FE0000, 0xA9FEFFFF), (0xE0000000, 0xEFFFFFFF),
      (0xFFFFFFFF, 0xFFFFFFFF), (0xC0000200, 0xC00002FF), (0xC6336400, 0xC63364FF),
      (0xCB007100, 0xCB0071FF), (0, 0)]"

lemma byte_bound_nat:
  fixes d lo hi x :: nat
  assumes "d < 256"
  shows "lo mod 256 = 0 \<Longrightarrow> lo \<le> x * 256 + d \<longleftrightarrow> lo div 256 \<le> x"
    and "hi mod 256 = 255 \<Longrightarrow> x * 256 + d \<le> hi \<longleftrightarrow> x \<le> hi div 256"
    and "x * 256 + d = lo \<longleftrightarrow> x = lo div 256 \<and> d = lo mod 256"
proof -
  have lo: "lo = lo div 256 * 256 + lo mod 256" and hi: "hi = hi div 256 * 256 + hi mod 256" by simp_all
  show "lo \<le> x * 256 + d \<longleftrightarrow> lo div 256 \<le> x" if "lo mod 256 = 0"
    using lo that assms by linarith
  show "x * 256 + d \<le> hi \<longleftrightarrow> x \<le> hi div 256" if "hi mod 256 = 255"
    using hi that assms by linarith
  show "x * 256 + d = lo \<longleftrightarrow> x = lo div 256 \<and> d = lo mod 256"
    using assms by auto
qed

lemma byte_bound:
  fixes d x :: nat
  assumes "d < 256"
  shows "numeral lo mod 256 = (0 :: nat) \<Longrightarrow> numeral lo \<le> x * 256 + d \<longleftrightarrow> numeral lo div 256 \<le> x"
    "numeral hi mod 256 = (255 :: nat) \<Longrightarrow> x * 256 + d \<le> numeral hi \<longleftrightarrow> x \<le> numeral hi div 256"
    "x * 256 + d = numeral lo \<longleftrightarrow> x = numeral lo div 256 \<and> d = numeral lo mod 256"
  by (rule byte_bound_nat [OF assms]; assumption?)+

lemma numeral_antisym: "(numeral k :: nat) \<le> x \<and> x \<le> numeral k \<longleftrightarrow> x = numeral k"
  by auto

text \<open>The leading two and three octets of an address as numbers of their own.\<close>

lemma v4_view:
  obtains a b c d B C where "v4_octets ip = map word_of_nat [a, b, c, d]"
    "a < 256" "b < 256" "c < 256" "d < 256"
    "B = a * 256 + b" "C = B * 256 + c" "unat ip = C * 256 + d"
  by (rule v4_octets_digits [of ip]) blast

lemma second_octet_range:
  fixes a b :: nat
  assumes "b < 256"
  shows "44048 \<le> a * 256 + b \<and> a * 256 + b \<le> 44063 \<longleftrightarrow> a = 172 \<and> 16 \<le> b \<and> b \<le> 31"
proof
  assume r: "44048 \<le> a * 256 + b \<and> a * 256 + b \<le> 44063"
  then have "44032 \<le> a * 256 + b" "a * 256 + b \<le> 44287" by simp_all
  then have "a = 172" using assms by (simp add: byte_bound)
  with r show "a = 172 \<and> 16 \<le> b \<and> b \<le> 31" by simp
qed simp

lemma v4_reserved:
  "ip_denied (V4 ip) \<longleftrightarrow> in_ranges reserved_v4 (unat ip)"
proof -
  obtain a b c d B C where o: "v4_octets ip = map word_of_nat [a, b, c, d]"
    and lt: "a < 256" "b < 256" "c < 256" "d < 256"
    and B: "B = a * 256 + b" and C: "C = B * 256 + c" and n: "unat ip = C * 256 + d"
    by (rule v4_view)
  note t = o octet_tests [OF lt(1)] octet_tests [OF lt(2)] octet_tests [OF lt(3)]
    octet_tests [OF lt(4)] n byte_bound [OF lt(4), where x = C] numeral_antisym
    byte_bound [OF lt(3), where x = B, folded C] byte_bound [OF lt(2), where x = a, folded B]
  have "ipv4_is_private ip \<longleftrightarrow> in_ranges [(0x0A000000, 0x0AFFFFFF), (0xAC100000, 0xAC1FFFFF), (0xC0A80000, 0xC0A8FFFF)] (unat ip)"
    by (simp add: t in_ranges_def ipv4_is_private_def Let_def second_octet_range [OF lt(2), where a = a, folded B])
  moreover have "ipv4_is_loopback ip \<longleftrightarrow> in_ranges [(0x7F000000, 0x7FFFFFFF)] (unat ip)"
    by (simp add: t in_ranges_def ipv4_is_loopback_def)
  moreover have "ipv4_is_link_local ip \<longleftrightarrow> in_ranges [(0xA9FE0000, 0xA9FEFFFF)] (unat ip)"
    by (simp add: t in_ranges_def ipv4_is_link_local_def)
  moreover have "ipv4_is_multicast ip \<longleftrightarrow> in_ranges [(0xE0000000, 0xEFFFFFFF)] (unat ip)"
    by (simp add: t in_ranges_def ipv4_is_multicast_def)
  moreover have "unat ip < 2 ^ LENGTH(32)" by (rule unsigned_less)
  then have "4294967295 \<le> C * 256 + d \<longleftrightarrow> C * 256 + d = 4294967295" using n by auto
  then have "ipv4_is_broadcast ip \<longleftrightarrow> in_ranges [(0xFFFFFFFF, 0xFFFFFFFF)] (unat ip)"
    by (auto simp: t in_ranges_def ipv4_is_broadcast_def)
  moreover have "ipv4_is_documentation ip \<longleftrightarrow> in_ranges [(0xC0000200, 0xC00002FF), (0xC6336400, 0xC63364FF), (0xCB007100, 0xCB0071FF)] (unat ip)"
    by (simp add: t in_ranges_def ipv4_is_documentation_def)
  moreover have "ipv4_is_unspecified ip \<longleftrightarrow> in_ranges [(0, 0)] (unat ip)"
    using B C by (simp add: t in_ranges_def ipv4_is_unspecified_def)
  ultimately show ?thesis by (simp add: ip_denied_def reserved_v4_def in_ranges_def)
qed

section \<open>The denied IPv6 addresses\<close>

text \<open>Unspecified, loopback, unique local, link local, multicast, documentation.\<close>

definition reserved_v6 :: "(nat \<times> nat) list" where
  "reserved_v6 =
     [(0, 0), (1, 1),
      (0xfc00 * 2 ^ 112, 0xfe00 * 2 ^ 112 - 1), (0xfe80 * 2 ^ 112, 0xfec0 * 2 ^ 112 - 1),
      (0xff00 * 2 ^ 112, 0x10000 * 2 ^ 112 - 1), (0x20010db8 * 2 ^ 96, 0x20010db9 * 2 ^ 96 - 1)]"

lemma nth_base_digits: "i < k \<Longrightarrow> base_digits b k n ! i = n div b ^ (k - 1 - i) mod b"
proof (induction b k n rule: base_digits.induct)
  case (2 b k n)
  show ?case
  proof (cases "i < k")
    case True
    then have "k - i = Suc (k - 1 - i)" by simp
    with 2 True show ?thesis by (simp add: nth_append div_mult2_eq)
  next
    case False
    with 2 have "i = k" by simp
    then show ?thesis by (simp add: nth_append)
  qed
qed simp

lemma range_div:
  fixes n :: nat
  assumes "0 < m" "lo < hi"
  shows "lo * m \<le> n \<and> n \<le> hi * m - 1 \<longleftrightarrow> lo \<le> n div m \<and> n div m < hi"
proof -
  have "lo * m \<le> n \<longleftrightarrow> lo \<le> n div m" using assms(1) by (simp add: less_eq_div_iff_mult_less_eq)
  moreover have "n < hi * m \<longleftrightarrow> n div m < hi" using assms(1) by (simp add: div_less_iff_less_mult)
  moreover have "0 < hi * m" using assms by simp
  then have "n \<le> hi * m - 1 \<longleftrightarrow> n < hi * m" by linarith
  ultimately show ?thesis by simp
qed

lemma v6_segments_eq: "v6_segments ip = v6_segments k \<longleftrightarrow> ip = k"
proof
  assume "v6_segments ip = v6_segments k"
  then have "(from_be (v6_segments ip) :: u128) = from_be (v6_segments k)" by simp
  then show "ip = k" by simp
qed simp

lemma v6_segment_values:
  "unat (v6_segments ip ! 0) = unat ip div 2 ^ 112"
  "unat (v6_segments ip ! 1) = unat ip div 2 ^ 96 mod 65536"
proof -
  have "unat ip < 2 ^ LENGTH(128)" by (rule unsigned_less)
  then have lt: "unat ip div 2 ^ 112 < 2 ^ 16" by simp
  have seg: "v6_segments ip ! i = word_of_nat (base_digits (2 ^ 16) 8 (unat ip) ! i)" if "i < 8" for i
    using that by (simp add: to_be_def)
  have e: "((2::nat) ^ 16) ^ 7 = 2 ^ 112" "((2::nat) ^ 16) ^ 6 = 2 ^ 96" by simp_all
  show "unat (v6_segments ip ! 0) = unat ip div 2 ^ 112"
    using lt by (simp add: seg nth_base_digits)
  show "unat (v6_segments ip ! 1) = unat ip div 2 ^ 96 mod 65536"
    by (simp add: seg nth_base_digits)
qed

lemma in_reserved_v6:
  "in_ranges reserved_v6 n \<longleftrightarrow> n = 0 \<or> n = 1 \<or>
      (0xfc00 \<le> n div 2 ^ 112 \<and> n div 2 ^ 112 < 0xfe00) \<or>
      (0xfe80 \<le> n div 2 ^ 112 \<and> n div 2 ^ 112 < 0xfec0) \<or>
      (0xff00 \<le> n div 2 ^ 112 \<and> n div 2 ^ 112 < 0x10000) \<or>
      (0x20010db8 \<le> n div 2 ^ 96 \<and> n div 2 ^ 96 < 0x20010db9)"
proof -
  have r112: "lo * 2 ^ 112 \<le> n \<and> n \<le> hi * 2 ^ 112 - 1 \<longleftrightarrow> lo \<le> n div 2 ^ 112 \<and> n div 2 ^ 112 < hi"
    and r96: "lo * 2 ^ 96 \<le> n \<and> n \<le> hi * 2 ^ 96 - 1 \<longleftrightarrow> lo \<le> n div 2 ^ 96 \<and> n div 2 ^ 96 < hi"
    if "lo < hi" for lo hi n :: nat
    by (rule range_div [OF _ that]; simp)+
  have less: "(0xfc00 :: nat) < 0xfe00" "(0xfe80 :: nat) < 0xfec0" "(0xff00 :: nat) < 0x10000"
    "(0x20010db8 :: nat) < 0x20010db9" by simp_all
  have single: "k \<le> n \<and> n \<le> k \<longleftrightarrow> n = k" for k n :: nat by auto
  show ?thesis
    by (simp only: in_ranges_def reserved_v6_def list_ex_Nil_iff list_ex_Cons_iff prod.case r112 [OF less(1)]
        r112 [OF less(2)] r112 [OF less(3)] r96 [OF less(4)] single simp_thms)
qed

lemma v6_reserved: "ip_denied (V6 ip) \<longleftrightarrow> in_ranges reserved_v6 (unat ip)"
proof -
  let ?n = "unat ip" and ?s = "v6_segments ip"
  have "?n < 2 ^ LENGTH(128)" by (rule unsigned_less)
  then have top: "?n div 2 ^ 112 < 65536" by simp
  have "v6_segments 1 = [0, 0, 0, 0, 0, 0, 0, 1]" "v6_segments 0 = [0, 0, 0, 0, 0, 0, 0, 0]" by code_simp+
  note v6_segments_eq [of ip 1, unfolded this(1)] v6_segments_eq [of ip 0, unfolded this(2)]
  then have "ipv6_is_loopback ip \<longleftrightarrow> ip = 1" and zero: "ipv6_is_unspecified ip \<longleftrightarrow> ip = 0"
    unfolding ipv6_is_loopback_def ipv6_is_unspecified_def by blast+
  then have lo: "ipv6_is_loopback ip \<longleftrightarrow> ?n = 1" by (simp add: word_unat_eq_iff)
  from zero have un: "ipv6_is_unspecified ip \<longleftrightarrow> ?n = 0" by (simp add: word_unat_eq_iff)
  have mc: "ipv6_is_multicast ip \<longleftrightarrow> 0xff00 \<le> ?n div 2 ^ 112 \<and> ?n div 2 ^ 112 < 65536"
    using top by (simp only: ipv6_is_multicast_def segment_tests v6_segment_values simp_thms)
  have ul: "is_ipv6_unique_local ip \<longleftrightarrow> 0xfc00 \<le> ?n div 2 ^ 112 \<and> ?n div 2 ^ 112 < 0xfe00"
    unfolding is_ipv6_unique_local_def segment_tests v6_segment_values by linarith
  have ll: "is_ipv6_unicast_link_local ip \<longleftrightarrow> 0xfe80 \<le> ?n div 2 ^ 112 \<and> ?n div 2 ^ 112 < 0xfec0"
    unfolding is_ipv6_unicast_link_local_def segment_tests v6_segment_values by linarith
  have q: "q div 65536 = 0x2001 \<and> q mod 65536 = 0x0db8 \<longleftrightarrow> 0x20010db8 \<le> q \<and> q < 0x20010db9" for q :: nat
  proof
    assume "q div 65536 = 0x2001 \<and> q mod 65536 = 0x0db8"
    with div_mult_mod_eq [of q 65536] show "0x20010db8 \<le> q \<and> q < 0x20010db9" by simp
  next
    assume "0x20010db8 \<le> q \<and> q < 0x20010db9"
    then have "q = 0x20010db8" by linarith
    then show "q div 65536 = 0x2001 \<and> q mod 65536 = 0x0db8" by simp
  qed
  have "?n div 2 ^ 112 = ?n div 2 ^ 96 div 65536"
    using div_mult2_eq [of ?n "2 ^ 96" 65536] by simp
  then have doc: "is_ipv6_documentation ip \<longleftrightarrow> 0x20010db8 \<le> ?n div 2 ^ 96 \<and> ?n div 2 ^ 96 < 0x20010db9"
    unfolding is_ipv6_documentation_def word_unat_eq_iff v6_segment_values q [symmetric] by simp
  show ?thesis
    unfolding ip_denied_def ip_addr.case lo un mc ul ll doc in_reserved_v6 by blast
qed

section \<open>Tokens\<close>

lemma parse_tokens_trimmed:
  "parse_tokens raw = Inr tokens \<Longrightarrow> tokens \<noteq> [] \<and> (\<forall>t \<in> set tokens. t \<noteq> [] \<and> str_trim t = t)"
  by (auto simp: parse_tokens_def Let_def str_trim_idem split: if_splits)

section \<open>Resolving a target\<close>

lemma check_addrs_Inr [res_simps]:
  "check_addrs policy addrs = Inr u \<longleftrightarrow>
     (\<forall>addr \<in> set addrs. check_ip policy (sa_ip addr) = Inr ())"
  by (induction addrs) (auto simp: res_simps)

definition ip_reserved :: "ip_addr \<Rightarrow> bool" where
  "ip_reserved ip =
     (case ip of V4 a \<Rightarrow> in_ranges reserved_v4 (unat a) | V6 a \<Rightarrow> in_ranges reserved_v6 (unat a))"

lemma ip_denied_reserved: "ip_denied ip = ip_reserved ip"
  by (cases ip) (simp_all add: v4_reserved v6_reserved ip_reserved_def)

lemma check_ip_Inr: "check_ip policy ip = Inr u \<longleftrightarrow> (pl_deny_private_ip policy \<longrightarrow> \<not> ip_reserved ip)"
  by (auto simp: check_ip_def ip_denied_reserved)

definition host_ok :: "string \<Rightarrow> bool" where
  "host_ok host \<longleftrightarrow> host \<noteq> [] \<and> length host \<le> 253 \<and>
     (\<forall>c \<in> set host. c \<noteq> CHR 0x00 \<and> c \<noteq> CHR ''/'' \<and> c \<noteq> CHR 0x5C \<and> c \<noteq> CHR ''@'' \<and> \<not> is_ascii_whitespace c)"

lemma bad_host_byte_iff:
  "bad_host_byte (byte_of_char c) \<longleftrightarrow>
     c = CHR 0x00 \<or> c = CHR ''/'' \<or> c = CHR 0x5C \<or> c = CHR ''@'' \<or> is_ascii_whitespace c"
proof -
  have "byte_of_char c = 0 \<longleftrightarrow> byte_of_char c = byte_of_char CHR 0x00"
    by (simp add: byte_of_char_def)
  then show ?thesis by (auto simp: bad_host_byte_def)
qed

lemma validate_host_ok [res_simps]: "validate_host host = Inr u \<longleftrightarrow> host_ok host"
  by (auto simp: validate_host_def host_ok_def list_ex_iff bytes_of_str_def bad_host_byte_iff not_less)

definition port_allowed :: "policy \<Rightarrow> u16 \<Rightarrow> bool" where
  "port_allowed policy port \<longleftrightarrow>
     (case pl_allowed_ports policy of None \<Rightarrow> True | Some allowed \<Rightarrow> port \<in> allowed)"

lemma resolve_target_port:
  assumes "u16_try_from port32 = Some port"
  shows "resolve_target dns policy host port32 =
    (if port = 0 then Inl InvalidPort
     else if \<not> port_allowed policy port then Inl (PortDenied port)
     else if \<not> host_ok host then Inl InvalidHost
     else
       rbind (case parse_ip host of Some ip \<Rightarrow> Inr [\<lparr>sa_ip = ip, sa_port = port\<rparr>]
          | None \<Rightarrow> (case dns (host @ '':'' @ show_dec (unat port)) of
                Inl e \<Rightarrow> Inl (Resolve e) | Inr addrs \<Rightarrow> Inr addrs)) (\<lambda>addrs.
       if addrs = [] then Inl NoAddresses else rbind (check_addrs policy addrs) (\<lambda>_. Inr addrs)))"
proof -
  have "validate_host host = (if host_ok host then Inr () else Inl InvalidHost)"
    using validate_host_ok [of host "()"] by (auto simp: validate_host_def split: if_splits)
  then show ?thesis
    by (simp add: resolve_target_def assms port_allowed_def split: option.split)
qed

lemma resolve_target_Inr:
  "resolve_target dns policy host port32 = Inr addrs \<longleftrightarrow>
     (\<exists>port. u16_try_from port32 = Some port \<and> port \<noteq> 0 \<and> port_allowed policy port \<and>
        host_ok host \<and> addrs \<noteq> [] \<and>
        (case parse_ip host of
           Some ip \<Rightarrow> addrs = [\<lparr>sa_ip = ip, sa_port = port\<rparr>]
         | None \<Rightarrow> dns (host @ '':'' @ show_dec (unat port)) = Inr addrs) \<and>
        (pl_deny_private_ip policy \<longrightarrow> (\<forall>addr \<in> set addrs. \<not> ip_reserved (sa_ip addr))))"
proof (cases "u16_try_from port32")
  case None
  then show ?thesis by (simp add: resolve_target_def)
next
  case (Some port)
  then show ?thesis
    by (auto simp: resolve_target_port [OF Some] res_simps check_ip_Inr split: option.splits sum.splits)
qed

section \<open>An address text is a valid host\<close>

lemma set_join_with: "set (join_with sep xs) \<subseteq> set sep \<union> (\<Union>x \<in> set xs. set x)"
  by (induction sep xs rule: join_with.induct) auto

lemma in_join_with:
  "c \<in> set (join_with sep xs) \<Longrightarrow> c \<in> set sep \<or> (\<exists>x \<in> set xs. c \<in> set x)"
  using set_join_with [of sep xs] by blast

lemma length_join_with:
  "(\<And>x. x \<in> set xs \<Longrightarrow> length x \<le> m) \<Longrightarrow> length (join_with sep xs) \<le> length xs * (m + length sep)"
  by (induction sep xs rule: join_with.induct) (auto simp: add_mono trans_le_add1)

definition ip_char :: "char \<Rightarrow> bool" where
  "ip_char c \<longleftrightarrow> c = CHR ''.'' \<or> c = CHR '':'' \<or> (\<exists>d < 16. c = digit_char d)"

lemma ip_char_show_radix:
  assumes "c \<in> set (show_radix r n)" "2 \<le> r" "r \<le> 16"
  shows "ip_char c"
proof -
  obtain d where "d < r" "c = digit_char d" using show_radix_digits [OF assms(2,1)] .
  with assms(3) show ?thesis unfolding ip_char_def by (intro disjI2 exI [of _ d]) simp
qed

lemma ip_char_ok: "ip_char c \<Longrightarrow> c \<noteq> CHR 0x00 \<and> c \<noteq> CHR ''/'' \<and> c \<noteq> CHR 0x5C \<and> c \<noteq> CHR ''@'' \<and> \<not> is_ascii_whitespace c"
proof -
  have "\<forall>d < 16. digit_char d \<notin> {CHR 0x00, CHR ''/'', CHR 0x5C, CHR ''@''} \<and> \<not> is_ascii_whitespace (digit_char d)"
    by code_simp
  then show "ip_char c \<Longrightarrow> ?thesis" by (auto simp: ip_char_def is_ascii_whitespace_def)
qed

lemma show_ipv4_chars: "c \<in> set (show_ipv4 ip) \<Longrightarrow> ip_char c"
  unfolding show_ipv4_def
  by (drule in_join_with) (auto simp: ip_char_def [of "CHR ''.''"] intro: ip_char_show_radix)

lemma show_ipv4_length: "length (show_ipv4 ip) \<le> 16"
proof -
  have "length (show_dec (unat (b :: u8))) \<le> 3" for b
    using unat_u8_less [of b] by (intro length_show_radix) auto
  then have "length (show_ipv4 ip) \<le> length (map (\<lambda>b. show_dec (unat b)) (v4_octets ip)) * (3 + length ''.'')"
    unfolding show_ipv4_def by (intro length_join_with) auto
  then show ?thesis by simp
qed

lemma fmt_subslice_chars: "c \<in> set (fmt_subslice xs) \<Longrightarrow> ip_char c"
  unfolding fmt_subslice_def
  by (drule in_join_with) (auto simp: ip_char_def [of "CHR '':''"] intro: ip_char_show_radix)

lemma fmt_subslice_length: "length (fmt_subslice xs) \<le> length xs * 5"
proof -
  have "length (show_hex (unat (b :: u16))) \<le> 4" for b
    using unat_u16_less [of b] by (intro length_show_radix) auto
  then have "length (fmt_subslice xs) \<le> length (map (\<lambda>x. show_hex (unat x)) xs) * (4 + length '':'')"
    unfolding fmt_subslice_def by (intro length_join_with) auto
  then show ?thesis by simp
qed

lemma show_ipv6_chars: "c \<in> set (show_ipv6 ip) \<Longrightarrow> ip_char c"
proof -
  have "ip_char d" if "d \<in> set ''::ffff:''" for d
  proof -
    have "CHR ''f'' = digit_char 15" by code_simp
    then have "ip_char CHR ''f''" unfolding ip_char_def by (intro disjI2 exI [of _ 15]) simp
    with that show ?thesis by (auto simp: ip_char_def [of "CHR '':''"])
  qed
  then show "c \<in> set (show_ipv6 ip) \<Longrightarrow> ip_char c"
    by (auto simp: show_ipv6_def Let_def ip_char_def [of "CHR '':''"] dest: fmt_subslice_chars show_ipv4_chars
        split: if_splits prod.splits)
qed

lemma show_ipv6_length: "length (show_ipv6 ip) \<le> 200"
proof -
  obtain start len where r: "zero_run 0 (0, 0) (0, 0) (v6_segments ip) = (start, len)"
    by (cases "zero_run 0 (0, 0) (0, 0) (v6_segments ip)")
  have "length (show_ipv4 (from_be (drop 6 (v6_segments ip)))) \<le> 16" by (rule show_ipv4_length)
  moreover have "length (fmt_subslice (take start (v6_segments ip))) \<le> 8 * 5"
    by (rule order_trans [OF fmt_subslice_length]) simp
  moreover have "length (fmt_subslice (drop (start + len) (v6_segments ip))) \<le> 8 * 5"
    by (rule order_trans [OF fmt_subslice_length]) simp
  moreover have "length (fmt_subslice (v6_segments ip)) \<le> 8 * 5"
    by (rule order_trans [OF fmt_subslice_length]) simp
  ultimately show ?thesis by (simp add: show_ipv6_def Let_def r)
qed

lemma show_ip_host_ok: "host_ok (show_ip ip)"
proof -
  have "parse_ip [] = None" by code_simp
  then have "show_ip ip \<noteq> []" using parse_show_ip [of ip] by (metis option.distinct(1))
  moreover have "length (show_ip ip) \<le> 253"
    by (cases ip) (auto intro: order_trans [OF show_ipv4_length] order_trans [OF show_ipv6_length])
  moreover have "\<forall>c \<in> set (show_ip ip). ip_char c"
    using show_ipv4_chars show_ipv6_chars by (cases ip) auto
  ultimately show ?thesis unfolding host_ok_def using ip_char_ok by blast
qed

lemma resolve_show_ip:
  assumes "u16_try_from port32 = Some port" "port \<noteq> 0" "port_allowed policy port"
  shows "resolve_target dns policy (show_ip ip) port32 =
    (if pl_deny_private_ip policy \<and> ip_reserved ip then Inl (AddressDenied ip)
     else Inr [\<lparr>sa_ip = ip, sa_port = port\<rparr>])"
  using assms(2,3)
  by (simp add: resolve_target_port [OF assms(1)] show_ip_host_ok check_ip_def ip_denied_reserved)

section \<open>Properties\<close>

text \<open>
  C24. With \<open>deny_private_ip\<close>, exactly the addresses inside the reserved ranges are refused: for
  IPv4 the private, loopback, link-local, multicast, documentation, broadcast and unspecified
  ones, for IPv6 the unspecified, loopback, unique-local, link-local, multicast and
  documentation ones. Without it none is.
\<close>

theorem check_ip_ranges:
  "check_ip policy ip =
     (if pl_deny_private_ip policy \<and>
         (case ip of V4 a \<Rightarrow> in_ranges reserved_v4 (unat a) | V6 a \<Rightarrow> in_ranges reserved_v6 (unat a))
      then Inl (AddressDenied ip) else Inr ())"
  using ip_denied_reserved [of ip] by (simp add: check_ip_def ip_reserved_def)

text \<open>
  C23. The addresses of an accepted target: the port fits in 16 bits, is not zero and is on the
  list if there is one; the host is non-empty, at most 253 bytes and free of NUL, slashes,
  \<open>@\<close> and white space; and every single address, a literal one or all those of the resolver,
  lies outside the reserved ranges. Nothing else is accepted, and nothing else is refused.
\<close>

theorem resolve_target_exact:
  "resolve_target dns policy host port32 = Inr addrs \<longleftrightarrow>
     (\<exists>port. u16_try_from port32 = Some port \<and> port \<noteq> 0 \<and> port_allowed policy port \<and>
        host_ok host \<and> addrs \<noteq> [] \<and>
        (case parse_ip host of
           Some ip \<Rightarrow> addrs = [\<lparr>sa_ip = ip, sa_port = port\<rparr>]
         | None \<Rightarrow> dns (host @ '':'' @ show_dec (unat port)) = Inr addrs) \<and>
        (if pl_deny_private_ip policy then list_all (\<lambda>addr. \<not> ip_reserved (sa_ip addr)) addrs else True))"
  using resolve_target_Inr [of dns policy host port32 addrs] by (simp add: list_all_iff)

text \<open>
  C25. An IPv4-mapped IPv6 address is never refused, also for an IPv4 address that is: with the
  default policy \<open>::ffff:127.0.0.1\<close> is an accepted target, which a dual-stack host connects to
  its own loopback interface.
\<close>

theorem mapped_address_accepted:
  "check_ip policy (V6 (0xffff00000000 + ucast (v4 :: u32))) = Inr () \<and>
   resolve_target (\<lambda>_. Inl []) \<lparr>pl_connect_timeout = 8000, pl_deny_private_ip = True, pl_allowed_ports = None\<rparr>
     ''::ffff:127.0.0.1'' 80 =
     Inr [\<lparr>sa_ip = V6 (0xffff00000000 + ucast (0x7f000001 :: u32)), sa_port = 80\<rparr>]"
proof
  have lt: "unat v4 < 2 ^ LENGTH(32)" by (rule unsigned_less)
  then have "unat (0xffff00000000 + ucast v4 :: u128) = 0xffff00000000 + unat v4"
    by (simp add: unat_word_ariths unsigned_ucast_eq take_bit_nat_eq_self)
  then have "\<not> ip_reserved (V6 (0xffff00000000 + ucast v4))"
    using lt by (simp add: ip_reserved_def in_reserved_v6)
  then show "check_ip policy (V6 (0xffff00000000 + ucast v4)) = Inr ()"
    by (simp add: check_ip_def ip_denied_reserved)
qed code_simp

text \<open>
  Every token that the \<open>TOKENS\<close> variable configures authenticates a request that carries it
  as a bearer token, in either spelling of the scheme, and only configured tokens, which are
  non-empty, ever do.
\<close>

theorem configured_token_authenticates:
  assumes "parse_tokens raw = Inr tokens" "token_auth_new tokens = Inr auth"
  shows "ta_tokens auth \<noteq> {} \<and> [] \<notin> ta_tokens auth \<and>
    (\<forall>t \<in> ta_tokens auth. \<forall>scheme \<in> {''Bearer '', ''bearer ''}.
       authenticate_token Some [''authorization'' \<mapsto> scheme @ t] auth = Inr t) \<and>
    (\<forall>to_str metadata t. authenticate_token to_str metadata auth = Inr (t :: string) \<longrightarrow> t \<in> set tokens)"
proof -
  from assms(2) have auth: "ta_tokens auth = set tokens"
    by (auto simp: token_auth_new_def split: if_splits)
  note tok = parse_tokens_trimmed [OF assms(1)]
  have "strip_prefix ''Bearer '' (''bearer '' @ t) = None" for t by (simp add: strip_prefix_def)
  then have "authenticate_token Some [''authorization'' \<mapsto> scheme @ t] auth = Inr t"
    if "t \<in> set tokens" "scheme \<in> {''Bearer '', ''bearer ''}" for scheme t
    using that tok auth
    by (auto simp: authenticate_token_def Let_def strip_prefix_append simp del: append_Cons)
  moreover have "authenticate_token to_str metadata auth = Inr (t :: string) \<Longrightarrow> t \<in> set tokens" for to_str metadata t
    by (auto simp: authenticate_token_def Let_def res_simps auth split: if_splits)
  ultimately show ?thesis using tok by (auto simp: auth)
qed

theorem configured_token_authenticates_witness:
  "authenticate_token Some [''authorization'' \<mapsto> ''Bearer b''] \<lparr>ta_tokens = {''a'', ''b''}\<rparr> = Inr ''b''"
proof -
  have "parse_tokens ''a, b,'' = Inr [''a'', ''b'']" by code_simp
  moreover have "token_auth_new [''a'', ''b''] = Inr \<lparr>ta_tokens = {''a'', ''b''}\<rparr>"
    by (simp add: token_auth_new_def)
  ultimately show ?thesis using configured_token_authenticates by fastforce
qed

end
