(* ===== verification/Tunnel_Proto.thy ===== *)
theory Tunnel_Proto
  imports Ech_Prelude
begin

text \<open>
  The messages of \<open>proto/tunnel/v1/tunnel.proto\<close> as the generated code presents them to both
  sides: a frame is its optional \<open>oneof\<close> payload. The encoding on the wire belongs to \<open>prost\<close>
  and \<open>tonic\<close>.
\<close>

record open_msg =
  om_target_host :: string
  om_target_port :: u32
  om_first_payload :: "u8 list"

datatype client_payload =
    C_Open open_msg | C_Data "u8 list" | C_HalfClose | C_Reset string | C_Ping "64 word"

datatype server_payload =
    S_OpenResult bool string | S_Data "u8 list" | S_HalfClose | S_Reset string | S_Pong "64 word"

type_synonym client_frame = "client_payload option"
type_synonym server_frame = "server_payload option"

text \<open>The bytes that a sequence of frames carries.\<close>

fun client_data :: "client_frame \<Rightarrow> u8 list" where
  "client_data (Some (C_Data d)) = d"
| "client_data _ = []"

fun server_data_of :: "server_frame \<Rightarrow> u8 list" where
  "server_data_of (Some (S_Data d)) = d"
| "server_data_of _ = []"

definition frame_bytes :: "('f \<Rightarrow> u8 list) \<Rightarrow> 'f list \<Rightarrow> u8 list" where
  "frame_bytes payload fs = concat (map payload fs)"

abbreviation client_bytes :: "client_frame list \<Rightarrow> u8 list" where
  "client_bytes \<equiv> frame_bytes client_data"

abbreviation server_bytes :: "server_frame list \<Rightarrow> u8 list" where
  "server_bytes \<equiv> frame_bytes server_data_of"

lemma frame_bytes_simps [simp]:
  "frame_bytes payload [] = []" "frame_bytes payload (f # fs) = payload f @ frame_bytes payload fs"
  "frame_bytes payload (fs @ gs) = frame_bytes payload fs @ frame_bytes payload gs"
  by (simp_all add: frame_bytes_def)

lemma frame_bytes_mono: "prefix fs gs \<Longrightarrow> prefix (frame_bytes payload fs) (frame_bytes payload gs)"
  by (auto simp: prefix_def)

lemma frame_bytes_Nil: "frame_bytes payload fs = [] \<longleftrightarrow> (\<forall>f \<in> set fs. payload f = [])"
  by (simp add: frame_bytes_def)

text \<open>The frames that a relaying client takes and goes on.\<close>

fun relayed :: "server_frame \<Rightarrow> bool" where
  "relayed (Some (S_Data d)) \<longleftrightarrow> True"
| "relayed (Some (S_Pong millis)) \<longleftrightarrow> True"
| "relayed _ \<longleftrightarrow> False"

end
