(* ===== verification/Tunnel_Task.thy ===== *)
theory Tunnel_Task
  imports Tunnel_Proto
begin

text \<open>
  The part that both ends of a tunnel have: the bounded \<open>mpsc\<close> channel into the gRPC stream and
  the spawned task that reads a connection into it (\<open>local_to_grpc\<close> of \<open>client/src/tunnel.rs\<close>
  and \<open>target_to_grpc\<close> of \<open>server/src/service.rs\<close>, the same loop over other frames). Every point
  where the task waits is a state of it: in \<open>read\<close>, or in \<open>send\<close> with the frame it holds. What
  both ends rely on is proved once, in the locale \<open>reader_task\<close>.
\<close>

section \<open>The channel\<close>

text \<open>
  \<open>Sending f again\<close>: in \<open>send\<close> with the frame \<open>f\<close>, after which the loop goes on or returns.
\<close>

datatype 'f task = Reading | Sending 'f bool | Stopped

text \<open>
  \<open>tk_queue\<close> holds the frames inside the channel, \<open>tk_sent\<close> those the stream has taken out of it;
  \<open>tk_receiver\<close>: the stream is still there; \<open>tk_aborting\<close>: the task has been told to stop, which it
  does at one of its next await points. \<open>tk_read\<close> and \<open>tk_eof\<close> record the bytes read from the
  connection and whether its end was, for the statements only.
\<close>

record 'f reader =
  tk_task :: "'f task"
  tk_aborting :: bool
  tk_queue :: "'f list"
  tk_sent :: "'f list"
  tk_receiver :: bool
  tk_read :: "u8 list"
  tk_eof :: bool

text \<open>\<open>send\<close> can complete when there is room or nobody listens; then the frame is dropped.\<close>

definition channel_ready :: "nat \<Rightarrow> ('f, 'z) reader_scheme \<Rightarrow> bool" where
  "channel_ready cap s \<longleftrightarrow> \<not> tk_receiver s \<or> length (tk_queue s) < cap"

definition channel_send :: "'f \<Rightarrow> ('f, 'z) reader_scheme \<Rightarrow> ('f, 'z) reader_scheme" where
  "channel_send f s = (if tk_receiver s then s\<lparr>tk_queue := tk_queue s @ [f]\<rparr> else s)"

definition channel_out :: "('f, 'z) reader_scheme \<Rightarrow> 'f list" where
  "channel_out s = tk_sent s @ tk_queue s"

section \<open>The reading task\<close>

text \<open>The frames of an end: data, the half close, and the reset for a failed read.\<close>

record 'f reader_frames =
  rf_data :: "u8 list \<Rightarrow> 'f"
  rf_half_close :: 'f
  rf_reset :: "string \<Rightarrow> 'f"

datatype chunk_read = ReadEof | ReadBytes "u8 list" | ReadError string

fun read_possible :: "nat \<Rightarrow> chunk_read \<Rightarrow> bool" where
  "read_possible chunk (ReadBytes bs) \<longleftrightarrow> bs \<noteq> [] \<and> length bs \<le> chunk"
| "read_possible chunk _ \<longleftrightarrow> True"

fun after_read :: "'f reader_frames \<Rightarrow> chunk_read \<Rightarrow> 'f task" where
  "after_read F ReadEof = Sending (rf_half_close F) False"
| "after_read F (ReadBytes bs) = Sending (rf_data F bs) True"
| "after_read F (ReadError e) = Sending (rf_reset F e) False"

fun read_bytes :: "chunk_read \<Rightarrow> u8 list" where
  "read_bytes (ReadBytes bs) = bs"
| "read_bytes _ = []"

definition task_read :: "'f reader_frames \<Rightarrow> chunk_read \<Rightarrow> ('f, 'z) reader_scheme \<Rightarrow> ('f, 'z) reader_scheme" where
  "task_read F rd s = s\<lparr>tk_task := after_read F rd, tk_read := tk_read s @ read_bytes rd, tk_eof := (rd = ReadEof)\<rparr>"

definition task_sent :: "'f \<Rightarrow> bool \<Rightarrow> ('f, 'z) reader_scheme \<Rightarrow> ('f, 'z) reader_scheme" where
  "task_sent f again s = (channel_send f s)\<lparr>tk_task := if again \<and> tk_receiver s then Reading else Stopped\<rparr>"

definition channel_deliver :: "('f, 'z) reader_scheme \<Rightarrow> ('f, 'z) reader_scheme" where
  "channel_deliver s = s\<lparr>tk_queue := tl (tk_queue s), tk_sent := tk_sent s @ [hd (tk_queue s)]\<rparr>"

text \<open>The task, and the stream that takes frames out of the channel until it is dropped.\<close>

inductive task_step ::
    "'f reader_frames \<Rightarrow> nat \<Rightarrow> nat \<Rightarrow> ('f, 'z) reader_scheme \<Rightarrow> ('f, 'z) reader_scheme \<Rightarrow> bool"
  for F cap chunk where
  Read: "tk_task s = Reading \<Longrightarrow> read_possible chunk rd \<Longrightarrow> task_step F cap chunk s (task_read F rd s)"
| Sent: "tk_task s = Sending f again \<Longrightarrow> channel_ready cap s \<Longrightarrow> task_step F cap chunk s (task_sent f again s)"
| Abort: "tk_aborting s \<Longrightarrow> task_step F cap chunk s (s\<lparr>tk_task := Stopped\<rparr>)"
| Deliver: "tk_receiver s \<Longrightarrow> tk_queue s \<noteq> [] \<Longrightarrow> task_step F cap chunk s (channel_deliver s)"
| Drop: "task_step F cap chunk s (s\<lparr>tk_receiver := False, tk_queue := []\<rparr>)"

inductive_cases task_stepE: "task_step F cap chunk s t"

lemmas channel_defs = channel_ready_def channel_send_def channel_out_def channel_deliver_def task_read_def task_sent_def

section \<open>Its invariants\<close>

text \<open>The frame in the hands of the task.\<close>

definition unsent :: "('f, 'z) reader_scheme \<Rightarrow> 'f list" where
  "unsent s = (case tk_task s of Sending f again \<Rightarrow> [f] | _ \<Rightarrow> [])"

text \<open>Frames of the task are data followed by at most one other, after which the task is done.\<close>

definition task_frames_ok :: "'f reader_frames \<Rightarrow> ('f, 'z) reader_scheme \<Rightarrow> bool" where
  "task_frames_ok F s \<longleftrightarrow>
     (\<forall>f again. tk_task s = Sending f again \<longrightarrow>
        (if again then f \<in> range (rf_data F) else f = rf_half_close F \<or> f \<in> range (rf_reset F))) \<and>
     (tk_eof s \<longrightarrow> tk_task s \<in> {Stopped, Sending (rf_half_close F) False}) \<and>
     (tk_task s = Sending (rf_half_close F) False \<longrightarrow> tk_eof s)"

text \<open>
  The frames in the channel carry, in order, what was read: all of it, with the frame in the hands
  of the task, unless the stream was dropped or the task stopped by \<open>abort\<close>.
\<close>

definition carries :: "('f \<Rightarrow> u8 list) \<Rightarrow> ('f, 'z) reader_scheme \<Rightarrow> bool" where
  "carries payload s \<longleftrightarrow>
     prefix (frame_bytes payload (channel_out s)) (tk_read s) \<and>
     (tk_receiver s \<and> (tk_aborting s \<longrightarrow> tk_task s \<noteq> Stopped) \<longrightarrow>
        frame_bytes payload (channel_out s @ unsent s) = tk_read s)"

definition channel_bounds :: "('f \<Rightarrow> u8 list) \<Rightarrow> nat \<Rightarrow> nat \<Rightarrow> ('f, 'z) reader_scheme \<Rightarrow> bool" where
  "channel_bounds payload cap chunk s \<longleftrightarrow>
     length (tk_queue s) \<le> cap \<and> (\<not> tk_receiver s \<longrightarrow> tk_queue s = []) \<and>
     (\<forall>f \<in> set (channel_out s @ unsent s). length (payload f) \<le> chunk)"

text \<open>A half close in the channel comes after the end of the connection, with nothing after it.\<close>

definition half_close_last :: "'f reader_frames \<Rightarrow> ('f \<Rightarrow> u8 list) \<Rightarrow> ('f, 'z) reader_scheme \<Rightarrow> bool" where
  "half_close_last F payload s \<longleftrightarrow>
     (rf_half_close F \<in> set (channel_out s) \<longrightarrow>
        tk_eof s \<and> tk_task s = Stopped \<and>
        frame_bytes payload (takeWhile (\<lambda>f. f \<noteq> rf_half_close F) (channel_out s)) = tk_read s \<and>
        frame_bytes payload (dropWhile (\<lambda>f. f \<noteq> rf_half_close F) (channel_out s)) = [])"

definition task_inv ::
    "'f reader_frames \<Rightarrow> ('f \<Rightarrow> u8 list) \<Rightarrow> nat \<Rightarrow> nat \<Rightarrow> ('f, 'z) reader_scheme \<Rightarrow> bool" where
  "task_inv F payload cap chunk s \<longleftrightarrow>
     task_frames_ok F s \<and> carries payload s \<and> channel_bounds payload cap chunk s \<and> half_close_last F payload s"

text \<open>
  While the stream is there: after \<open>base\<close>, only \<open>quiet\<close> frames until the task is done, and no
  bytes after another one.
\<close>

definition quiet_inv :: "('f \<Rightarrow> bool) \<Rightarrow> ('f \<Rightarrow> u8 list) \<Rightarrow> 'f list \<Rightarrow> ('f, 'z) reader_scheme \<Rightarrow> bool" where
  "quiet_inv quiet payload base s \<longleftrightarrow>
     (tk_receiver s \<longrightarrow>
       (\<exists>fs. channel_out s = base @ fs \<and> frame_bytes payload (dropWhile quiet fs) = [] \<and>
          (tk_task s \<noteq> Stopped \<longrightarrow> list_all quiet fs)))"

text \<open>For an end on which only the task sends: at most the last frame is not quiet.\<close>

definition alone_inv :: "('f \<Rightarrow> bool) \<Rightarrow> ('f, 'z) reader_scheme \<Rightarrow> bool" where
  "alone_inv quiet s \<longleftrightarrow>
     list_all quiet (butlast (channel_out s)) \<and> (tk_task s \<noteq> Stopped \<longrightarrow> list_all quiet (channel_out s))"

lemmas task_inv_defs = task_frames_ok_def carries_def channel_bounds_def half_close_last_def

lemma channel_send_fields [simp]:
  "channel_out (channel_send f s) = (if tk_receiver s then channel_out s @ [f] else channel_out s)"
  "tk_task (channel_send f s) = tk_task s" "tk_aborting (channel_send f s) = tk_aborting s"
  "tk_receiver (channel_send f s) = tk_receiver s" "tk_sent (channel_send f s) = tk_sent s"
  "tk_read (channel_send f s) = tk_read s" "tk_eof (channel_send f s) = tk_eof s"
  by (simp_all add: channel_send_def channel_out_def)

lemma task_sent_fields [simp]:
  "channel_out (task_sent f again s) = (if tk_receiver s then channel_out s @ [f] else channel_out s)"
  "tk_read (task_sent f again s) = tk_read s" "tk_eof (task_sent f again s) = tk_eof s"
  "tk_receiver (task_sent f again s) = tk_receiver s" "tk_aborting (task_sent f again s) = tk_aborting s"
  "tk_task (task_sent f again s) = (if again \<and> tk_receiver s then Reading else Stopped)"
  "unsent (task_sent f again s) = []"
  by (simp_all add: channel_defs unsent_def)

text \<open>A step of an end that leaves its task alone, or at most tells it to stop.\<close>

definition keeps_task :: "('f, 'y) reader_scheme \<Rightarrow> ('f, 'z) reader_scheme \<Rightarrow> bool" where
  "keeps_task s t \<longleftrightarrow> tk_task t = tk_task s \<and> tk_queue t = tk_queue s \<and> tk_sent t = tk_sent s \<and>
     tk_receiver t = tk_receiver s \<and> tk_read t = tk_read s \<and> tk_eof t = tk_eof s \<and>
     (tk_aborting s \<longrightarrow> tk_aborting t)"

lemma keeps_task_inv:
  assumes "keeps_task s t"
  shows "task_inv F payload cap chunk s \<Longrightarrow> task_inv F payload cap chunk t"
    "quiet_inv quiet payload base s \<Longrightarrow> quiet_inv quiet payload base t"
    "alone_inv quiet s \<Longrightarrow> alone_inv quiet t"
    "channel_ready cap t = channel_ready cap s" "channel_out t = channel_out s" "unsent t = unsent s"
  using assms
  by (simp_all add: keeps_task_def task_inv_def task_inv_defs quiet_inv_def alone_inv_def channel_ready_def
      channel_out_def unsent_def)

locale reader_task =
  fixes F :: "'f reader_frames" and payload :: "'f \<Rightarrow> u8 list" and quiet :: "'f \<Rightarrow> bool"
  assumes data_payload [simp]: "payload (rf_data F bs) = bs"
    and half_close_payload [simp]: "payload (rf_half_close F) = []"
    and reset_payload [simp]: "payload (rf_reset F e) = []"
    and data_quiet [simp]: "quiet (rf_data F bs)"
    and half_close_loud [simp]: "\<not> quiet (rf_half_close F)"
    and reset_loud [simp]: "\<not> quiet (rf_reset F e)"
    and reset_half_close [simp]: "rf_reset F e \<noteq> rf_half_close F"
begin

lemma data_half_close [simp]: "rf_data F bs \<noteq> rf_half_close F" "rf_half_close F \<noteq> rf_data F bs"
  using data_quiet half_close_loud by metis+

lemma inv_read:
  assumes "task_inv F payload cap chunk s" "tk_task s = Reading" "read_possible chunk rd"
  shows "task_inv F payload cap chunk (task_read F rd s)"
  using assms by (cases rd) (auto simp: task_inv_def task_inv_defs channel_defs unsent_def)

lemma inv_sent:
  assumes "task_inv F payload cap chunk s" "tk_task s = Sending f again" "channel_ready cap s"
  shows "task_inv F payload cap chunk (task_sent f again s)"
proof -
  let ?t = "task_sent f again s"
  have ok: "task_frames_ok F s" using assms(1) by (simp add: task_inv_def)
  then have frames: "if again then f \<in> range (rf_data F) else f = rf_half_close F \<or> f \<in> range (rf_reset F)"
    using assms(2) unfolding task_frames_ok_def by blast
  have eof: "f = rf_half_close F \<Longrightarrow> \<not> again \<Longrightarrow> tk_eof s" "tk_eof s \<Longrightarrow> \<not> again"
    using ok assms(2) unfolding task_frames_ok_def by auto
  from frames have again: "\<not> again \<Longrightarrow> payload f = []" "f = rf_half_close F \<Longrightarrow> \<not> again"
    using data_half_close by (cases again; force)+
  have no_half: "rf_half_close F \<notin> set (channel_out s)"
    using assms(1,2) by (simp add: task_inv_def half_close_last_def)
  have all: "frame_bytes payload (channel_out s) @ payload f = tk_read s" if "tk_receiver s"
    using assms(1,2) that by (simp add: task_inv_def carries_def unsent_def)
  have "task_frames_ok F ?t" using eof by (cases again) (auto simp: task_frames_ok_def)
  moreover have "carries payload ?t"
    using assms(1,2) all by (simp add: task_inv_def carries_def)
  moreover have "channel_bounds payload cap chunk ?t"
    using assms by (auto simp: task_inv_def channel_bounds_def channel_defs unsent_def)
  moreover have "half_close_last F payload ?t"
    using no_half eof all again by (cases "f = rf_half_close F") (simp_all add: half_close_last_def takeWhile_append dropWhile_append)
  ultimately show ?thesis by (simp add: task_inv_def)
qed

lemma inv_abort:
  "task_inv F payload cap chunk s \<Longrightarrow> tk_aborting s \<Longrightarrow> task_inv F payload cap chunk (s\<lparr>tk_task := Stopped\<rparr>)"
  by (auto simp: task_inv_def task_inv_defs channel_defs unsent_def)

lemma inv_deliver:
  "task_inv F payload cap chunk s \<Longrightarrow> tk_queue s \<noteq> [] \<Longrightarrow> task_inv F payload cap chunk (channel_deliver s)"
  by (cases "tk_queue s") (auto simp: task_inv_def task_inv_defs channel_defs unsent_def)

lemma inv_drop:
  "task_inv F payload cap chunk s \<Longrightarrow> task_inv F payload cap chunk (s\<lparr>tk_receiver := False, tk_queue := []\<rparr>)"
  by (cases "rf_half_close F \<in> set (tk_sent s)")
    (auto simp: task_inv_def task_inv_defs channel_defs unsent_def intro: append_prefixD)

lemma inv_step:
  "task_step F cap chunk s t \<Longrightarrow> task_inv F payload cap chunk s \<Longrightarrow> task_inv F payload cap chunk t"
  by (erule task_stepE) (auto intro: inv_read inv_sent inv_abort inv_deliver inv_drop)

lemma inv_side:
  assumes "task_inv F payload cap chunk s" "channel_ready cap s" "payload f = []" "f \<noteq> rf_half_close F"
  shows "task_inv F payload cap chunk (channel_send f s)"
proof (cases "tk_receiver s")
  case True
  define t where "t = channel_send f s"
  with True have t: "channel_out t = channel_out s @ [f]" "tk_queue t = tk_queue s @ [f]" "tk_task t = tk_task s"
    "tk_aborting t = tk_aborting s" "tk_receiver t" "tk_read t = tk_read s" "tk_eof t = tk_eof s" "unsent t = unsent s"
    by (simp_all add: channel_send_def channel_out_def unsent_def)
  have "carries payload t" using assms(1,3) True by (simp add: task_inv_def carries_def t)
  moreover have "channel_bounds payload cap chunk t"
    using assms(1-3) True by (auto simp: task_inv_def channel_bounds_def channel_ready_def t)
  moreover have "half_close_last F payload t"
    using assms(1,3,4) by (auto simp: task_inv_def half_close_last_def t takeWhile_append dropWhile_append)
  moreover have "task_frames_ok F t" using assms(1) by (simp add: task_inv_def task_frames_ok_def t)
  ultimately show ?thesis by (simp add: task_inv_def t_def)
qed (use assms in \<open>simp add: channel_send_def\<close>)

lemma sent_frame:
  assumes "task_inv F payload cap chunk s" "tk_task s = Sending f again"
  shows "again \<longleftrightarrow> quiet f" "\<not> again \<Longrightarrow> payload f = []"
proof -
  have "if again then f \<in> range (rf_data F) else f = rf_half_close F \<or> f \<in> range (rf_reset F)"
    using assms unfolding task_inv_def task_frames_ok_def by blast
  then show "again \<longleftrightarrow> quiet f" "\<not> again \<Longrightarrow> payload f = []" by (auto split: if_splits)
qed

lemma quiet_step:
  assumes "task_step F cap chunk s t" "task_inv F payload cap chunk s" "quiet_inv quiet payload base s"
  shows "quiet_inv quiet payload base t"
  using assms
proof (induction rule: task_step.induct)
  case (Sent s f again)
  note frame = sent_frame [OF Sent(3,1)]
  show ?case
  proof (cases "tk_receiver s")
    case True
    with Sent(4,1) obtain fs where "channel_out s = base @ fs" "list_all quiet fs" by (auto simp: quiet_inv_def)
    then have "channel_out (task_sent f again s) = base @ (fs @ [f])" "frame_bytes payload (dropWhile quiet (fs @ [f])) = []"
      "again \<longrightarrow> list_all quiet (fs @ [f])"
      using frame True by (auto simp: list_all_iff dropWhile_append)
    then show ?thesis unfolding quiet_inv_def by (intro impI exI [of _ "fs @ [f]"]) simp
  qed (simp add: quiet_inv_def)
next
  case (Deliver s)
  then show ?case by (cases "tk_queue s") (simp_all add: quiet_inv_def channel_defs)
qed (auto simp: quiet_inv_def channel_defs)

lemma quiet_side:
  assumes "quiet_inv quiet payload base s" "quiet f" "payload f = []"
  shows "quiet_inv quiet payload base (channel_send f s)"
proof (cases "tk_receiver s")
  case True
  with assms(1) obtain fs where fs: "channel_out s = base @ fs" "frame_bytes payload (dropWhile quiet fs) = []"
    "tk_task s \<noteq> Stopped \<longrightarrow> list_all quiet fs" by (auto simp: quiet_inv_def)
  then have "frame_bytes payload (dropWhile quiet (fs @ [f])) = []"
    using assms(2,3) by (cases "list_all quiet fs") (auto simp: list_all_iff dropWhile_append)
  with fs True assms(2) show ?thesis
    unfolding quiet_inv_def by (intro impI exI [of _ "fs @ [f]"]) (simp add: channel_send_def channel_out_def)
qed (use assms in \<open>simp add: channel_send_def\<close>)

lemma alone_step:
  assumes "task_step F cap chunk s t" "task_inv F payload cap chunk s" "alone_inv quiet s"
  shows "alone_inv quiet t"
  using assms
proof (induction rule: task_step.induct)
  case (Sent s f again)
  with sent_frame [OF Sent(3,1)] show ?case by (simp add: alone_inv_def)
next
  case (Deliver s)
  then show ?case by (cases "tk_queue s") (simp_all add: alone_inv_def channel_defs)
next
  case (Drop s)
  then show ?case
    by (cases "tk_queue s = []")
      (auto simp: alone_inv_def channel_out_def list_all_iff butlast_append dest: in_set_butlastD)
qed (auto simp: alone_inv_def channel_defs)

end

section \<open>Short runs\<close>

lemma two_steps: "r a b \<Longrightarrow> r b c \<Longrightarrow> r\<^sup>*\<^sup>* a c"
  by (meson converse_rtranclp_into_rtranclp r_into_rtranclp)

lemma four_steps: "r a b \<Longrightarrow> r b c \<Longrightarrow> r c d \<Longrightarrow> r d e \<Longrightarrow> r\<^sup>*\<^sup>* a e"
  by (meson rtranclp_trans two_steps)

section \<open>Draining the channel\<close>

text \<open>While the stream is there, it can take everything the task has got.\<close>

definition delivered :: "('f, 'z) reader_scheme \<Rightarrow> ('f, 'z) reader_scheme" where
  "delivered s = s\<lparr>tk_queue := [], tk_sent := channel_out s\<rparr>"

lemma task_delivers:
  assumes "tk_receiver s"
  shows "(task_step F cap chunk)\<^sup>*\<^sup>* s (delivered s)"
  using assms
proof (induction "tk_queue s" arbitrary: s)
  case Nil
  then have "delivered s = s" by (simp add: delivered_def channel_out_def)
  then show ?case by simp
next
  case (Cons f fs)
  have "task_step F cap chunk s (channel_deliver s)"
    using Cons.prems Cons.hyps(2) by (intro task_step.Deliver) auto
  moreover have "(task_step F cap chunk)\<^sup>*\<^sup>* (channel_deliver s) (delivered (channel_deliver s))"
    using Cons.prems by (intro Cons.hyps(1)) (simp_all add: channel_deliver_def flip: Cons.hyps(2))
  moreover have "delivered (channel_deliver s) = delivered s"
    by (simp add: delivered_def channel_defs flip: Cons.hyps(2))
  ultimately show ?case by (metis converse_rtranclp_into_rtranclp)
qed

definition drained :: "('f, 'z) reader_scheme \<Rightarrow> ('f, 'z) reader_scheme" where
  "drained s = s\<lparr>tk_queue := [], tk_sent := channel_out s @ unsent s,
     tk_task := (case tk_task s of Sending f again \<Rightarrow> if again then Reading else Stopped | t \<Rightarrow> t)\<rparr>"

lemma task_drains:
  assumes "tk_receiver s" "0 < cap"
  shows "(task_step F cap chunk)\<^sup>*\<^sup>* s (drained s)"
proof (cases "tk_task s")
  case (Sending f again)
  let ?t = "task_sent f again (delivered s)"
  have "task_step F cap chunk (delivered s) ?t"
    using Sending assms by (intro task_step.Sent) (simp_all add: delivered_def channel_ready_def)
  moreover have "(task_step F cap chunk)\<^sup>*\<^sup>* ?t (delivered ?t)"
    using assms(1) by (intro task_delivers) (simp add: delivered_def)
  moreover have "delivered ?t = drained s"
    using Sending assms(1) by (simp add: delivered_def drained_def channel_defs unsent_def)
  ultimately show ?thesis
    using task_delivers [OF assms(1)] by (metis converse_rtranclp_into_rtranclp rtranclp_trans)
next
  case Reading
  then have "drained s = delivered s" by (simp add: drained_def delivered_def unsent_def)
  then show ?thesis using task_delivers [OF assms(1)] by metis
next
  case Stopped
  then have "drained s = delivered s" by (simp add: drained_def delivered_def unsent_def)
  then show ?thesis using task_delivers [OF assms(1)] by metis
qed

lemma drained_fields [simp]:
  "tk_queue (drained s) = []" "tk_sent (drained s) = channel_out s @ unsent s" "unsent (drained s) = []"
  "channel_out (drained s) = channel_out s @ unsent s" "tk_receiver (drained s) = tk_receiver s"
  "tk_read (drained s) = tk_read s" "tk_eof (drained s) = tk_eof s" "tk_aborting (drained s) = tk_aborting s"
  by (simp_all add: drained_def channel_out_def unsent_def split: task.split)

end
