(* ===== verification/Server_Tunnel.thy ===== *)
theory Server_Tunnel
  imports Server_Policy Tunnel_Task
begin

text \<open>
  \<open>server/src/service.rs\<close>: one tunnel. \<open>open_phase\<close> is the part of \<open>handle_tunnel\<close> up to the
  relay: it is sequential and is a function of what the client stream, the resolver and the
  network answer. The relay is two tasks that run concurrently, the loop over the client's
  frames and the reader of the target (\<open>Tunnel_Task\<close>); it is the step relation \<open>relay_step\<close>, in
  which every await point of the loop is a state of it and a step is what happens between two of
  them, with the bounded \<open>mpsc\<close> channel and the clock of the idle timeout as part of the state.
\<close>

section \<open>Small helpers\<close>

definition outbound_queue :: nat where "outbound_queue = 64"
definition data_chunk_size :: nat where "data_chunk_size = 64 * 1024"

definition open_result_frame :: "bool \<Rightarrow> string \<Rightarrow> server_frame" where
  "open_result_frame ok err = Some (S_OpenResult ok err)"

definition server_data :: "u8 list \<Rightarrow> server_frame" where "server_data d = Some (S_Data d)"
definition server_half_close :: server_frame where "server_half_close = Some S_HalfClose"
definition server_reset :: "string \<Rightarrow> server_frame" where "server_reset reason = Some (S_Reset reason)"

text \<open>\<open>&token[..4]\<close> panics (\<open>None\<close>) when byte 4 is inside a character.\<close>

definition is_char_boundary :: "string \<Rightarrow> nat \<Rightarrow> bool" where
  "is_char_boundary s i \<longleftrightarrow>
     i = 0 \<or> i = length s \<or>
     (i < length s \<and> \<not> (128 \<le> (of_char (s ! i) :: nat) \<and> (of_char (s ! i) :: nat) < 192))"

definition redact_token :: "string \<Rightarrow> string option" where
  "redact_token token =
     (if length token \<le> 8 then Some ''<redacted>''
      else if is_char_boundary token 4 then Some (take 4 token @ ''...'') else None)"

section \<open>Opening\<close>

text \<open>What \<open>timeout(inbound.next())\<close> gives: nothing in time, the end, a status or a frame.\<close>

datatype inbound_item = Elapsed | Closed | Failed string | Got client_frame

text \<open>What \<open>timeout(TcpStream::connect)\<close> gives; a stream knows its peer or not.\<close>

datatype connect_outcome = Connected "socket_addr option" | ConnectError string | ConnectTimedOut

fun show_socket_addr :: "socket_addr \<Rightarrow> string" where
  "show_socket_addr a =
     (case sa_ip a of
        V4 ip \<Rightarrow> show_ipv4 ip @ '':'' @ show_dec (unat (sa_port a))
      | V6 ip \<Rightarrow> ''['' @ show_ipv6 ip @ '']:'' @ show_dec (unat (sa_port a)))"

text \<open>
  \<open>tcp_util.rs\<close> of the server, the same function as the client's: \<open>set_nodelay\<close> is the socket option
  call, whose error is logged and dropped. \<open>connect_any\<close> applies it to the stream it has connected,
  which is named by its address below, so that it cannot be seen there.
\<close>

definition srv_configure_proxy_tcp :: "('s \<Rightarrow> bool \<Rightarrow> string + 's) \<Rightarrow> 's \<Rightarrow> 's" where
  "srv_configure_proxy_tcp set_nodelay stream =
     (case set_nodelay stream True of Inl err \<Rightarrow> stream | Inr stream' \<Rightarrow> stream')"

text \<open>
  The loop of \<open>connect_any\<close>, with the check of the policy as an argument; it gives the address
  of the stream it returns, and the addresses it has dialled.
\<close>

fun connect_loop ::
    "(socket_addr \<Rightarrow> connect_outcome) \<Rightarrow> (socket_addr \<Rightarrow> policy_error + unit) \<Rightarrow> string option \<Rightarrow>
     socket_addr list \<Rightarrow> (policy_error + socket_addr) \<times> socket_addr list" where
  "connect_loop conn check last_err [] =
     (Inl (Resolve (case last_err of Some e \<Rightarrow> e | None \<Rightarrow> ''all target addresses failed'')), [])"
| "connect_loop conn check last_err (addr # addrs) =
     (case conn addr of
        Connected (Some peer) \<Rightarrow>
          (case check peer of Inl e \<Rightarrow> (Inl e, [addr]) | Inr _ \<Rightarrow> (Inr addr, [addr]))
      | Connected None \<Rightarrow> (Inr addr, [addr])
      | ConnectError e \<Rightarrow>
          (case connect_loop conn check (Some e) addrs of (r, dialled) \<Rightarrow> (r, addr # dialled))
      | ConnectTimedOut \<Rightarrow>
          (case connect_loop conn check (Some (''connect to '' @ show_socket_addr addr @ '' timed out'')) addrs of
             (r, dialled) \<Rightarrow> (r, addr # dialled)))"

definition connect_any ::
    "(socket_addr \<Rightarrow> connect_outcome) \<Rightarrow> policy \<Rightarrow> socket_addr list \<Rightarrow>
     (policy_error + socket_addr) \<times> socket_addr list" where
  "connect_any conn policy addrs = connect_loop conn (check_connected_addr policy) None addrs"

text \<open>
  The environment of a tunnel: the resolver, the network, and \<open>write_all\<close> of the first payload
  on a new stream (\<open>None\<close> when all is written).
\<close>

record srv_env =
  se_dns :: "string \<Rightarrow> string + socket_addr list"
  se_connect :: "socket_addr \<Rightarrow> connect_outcome"
  se_write_first :: "socket_addr \<Rightarrow> u8 list \<Rightarrow> string option"

text \<open>The frames sent, the addresses dialled, and for an open tunnel its target and the bytes written.\<close>

record open_outcome =
  oo_frames :: "server_frame list"
  oo_dialled :: "socket_addr list"
  oo_target :: "(socket_addr \<times> u8 list) option"

definition refused :: "server_frame list \<Rightarrow> socket_addr list \<Rightarrow> open_outcome" where
  "refused frames dialled = \<lparr>oo_frames = frames, oo_dialled = dialled, oo_target = None\<rparr>"

definition open_target :: "srv_env \<Rightarrow> policy \<Rightarrow> open_msg \<Rightarrow> open_outcome" where
  "open_target env policy msg =
     (case resolve_target (se_dns env) policy (om_target_host msg) (om_target_port msg) of
        Inl err \<Rightarrow> refused [open_result_frame False (policy_error_text err)] []
      | Inr addrs \<Rightarrow>
          (case connect_any (se_connect env) policy addrs of
             (Inl err, dialled) \<Rightarrow> refused [open_result_frame False (policy_error_text err)] dialled
           | (Inr addr, dialled) \<Rightarrow>
               let first = om_first_payload msg in
               (case (if first = [] then None else se_write_first env addr first) of
                  Some err \<Rightarrow>
                    refused [open_result_frame False (''failed to write first payload: '' @ err)] dialled
                | None \<Rightarrow>
                    \<lparr>oo_frames = [open_result_frame True ''''], oo_dialled = dialled,
                     oo_target = Some (addr, first)\<rparr>)))"

definition open_phase :: "srv_env \<Rightarrow> policy \<Rightarrow> inbound_item \<Rightarrow> open_outcome" where
  "open_phase env policy item =
     (case item of
        Got (Some (C_Open msg)) \<Rightarrow> open_target env policy msg
      | Got _ \<Rightarrow> refused [open_result_frame False ''first frame must be Open''] []
      | Failed status \<Rightarrow> refused [server_reset status] []
      | Closed \<Rightarrow> refused [] []
      | Elapsed \<Rightarrow> refused [server_reset ''idle timeout waiting for Open''] [])"

text \<open>The service method: authentication before anything else.\<close>

definition tunnel_entry ::
    "('m \<Rightarrow> string option) \<Rightarrow> (string \<Rightarrow> 'm option) \<Rightarrow> token_auth \<Rightarrow> srv_env \<Rightarrow> policy \<Rightarrow> inbound_item \<Rightarrow>
     status + open_outcome" where
  "tunnel_entry to_str metadata auth env policy item =
     rbind (authenticate_token to_str metadata auth) (\<lambda>principal. Inr (open_phase env policy item))"

section \<open>The relay\<close>

text \<open>
  The control points of the loop over client frames: waiting for a frame, in \<open>write_all\<close> with the
  bytes left to write, in \<open>send\<close> with a frame (after which the loop goes on or is left), or left.
\<close>

datatype main_point = Awaiting | Writing "u8 list" | Replying server_frame bool | Ended

text \<open>
  The channel and the reading task of the target, with the loop: \<open>rl_written\<close> is what the target has
  been given, \<open>rl_shut\<close> that its write half is shut down, \<open>rl_waiting_since\<close> when the current wait
  for a frame began. \<open>rl_frames\<close> records the client frames handled, for the statements only.
\<close>

record relay_state = "server_frame reader" +
  rl_main :: main_point
  rl_written :: "u8 list"
  rl_shut :: bool
  rl_now :: nat
  rl_waiting_since :: nat
  rl_frames :: "client_frame list"

definition relay_start :: "server_frame list \<Rightarrow> u8 list \<Rightarrow> nat \<Rightarrow> relay_state" where
  "relay_start frames first now =
     \<lparr>tk_task = Reading, tk_aborting = False, tk_queue = frames, tk_sent = [], tk_receiver = True,
      tk_read = [], tk_eof = False, rl_main = Awaiting, rl_written = first, rl_shut = False,
      rl_now = now, rl_waiting_since = now, rl_frames = []\<rparr>"

definition server_frames :: "server_frame reader_frames" where
  "server_frames = \<lparr>rf_data = server_data, rf_half_close = server_half_close,
     rf_reset = (\<lambda>err. server_reset (''target read failed: '' @ err))\<rparr>"

definition target_to_grpc :: "relay_state \<Rightarrow> relay_state \<Rightarrow> bool" where
  "target_to_grpc = task_step server_frames outbound_queue data_chunk_size"

definition shutdown_target :: "relay_state \<Rightarrow> relay_state" where
  "shutdown_target s = s\<lparr>rl_shut := True\<rparr>"

text \<open>The end of the loop, with \<open>target_to_grpc.abort()\<close>.\<close>

definition finish :: "relay_state \<Rightarrow> relay_state" where
  "finish s = s\<lparr>rl_main := Ended, tk_aborting := True\<rparr>"

definition next_frame :: "relay_state \<Rightarrow> relay_state" where
  "next_frame s = s\<lparr>rl_main := Awaiting, rl_waiting_since := rl_now s\<rparr>"

definition reply :: "server_frame \<Rightarrow> bool \<Rightarrow> relay_state \<Rightarrow> relay_state" where
  "reply f again s = s\<lparr>rl_main := Replying f again\<rparr>"

text \<open>One round of the loop, up to its next await point.\<close>

fun handle_frame :: "client_frame \<Rightarrow> relay_state \<Rightarrow> relay_state" where
  "handle_frame (Some (C_Data d)) s = s\<lparr>rl_main := Writing d\<rparr>"
| "handle_frame (Some C_HalfClose) s = next_frame (shutdown_target s)"
| "handle_frame (Some (C_Reset reason)) s = finish (shutdown_target s)"
| "handle_frame (Some (C_Ping millis)) s = reply (Some (S_Pong millis)) True s"
| "handle_frame (Some (C_Open msg)) s =
     reply (server_reset ''unexpected Open after tunnel established'') False s"
| "handle_frame None s = reply (server_reset ''empty client frame'') False s"

definition record_frame :: "client_frame \<Rightarrow> relay_state \<Rightarrow> relay_state" where
  "record_frame f s = s\<lparr>rl_frames := rl_frames s @ [f]\<rparr>"

fun handle_item :: "inbound_item \<Rightarrow> relay_state \<Rightarrow> relay_state" where
  "handle_item Elapsed s = reply (server_reset ''idle timeout'') False s"
| "handle_item Closed s = finish (shutdown_target s)"
| "handle_item (Failed status) s = reply (server_reset status) False (shutdown_target s)"
| "handle_item (Got f) s = handle_frame f (record_frame f s)"

text \<open>\<open>write_all\<close> has written \<open>n\<close> more bytes; it has failed; \<open>send\<close> has completed.\<close>

definition write_some :: "nat \<Rightarrow> u8 list \<Rightarrow> relay_state \<Rightarrow> relay_state" where
  "write_some n bs s = s\<lparr>rl_written := rl_written s @ take n bs, rl_main := Writing (drop n bs)\<rparr>"

definition write_failed :: "string \<Rightarrow> relay_state \<Rightarrow> relay_state" where
  "write_failed err s = reply (server_reset (''target write failed: '' @ err)) False s"

definition reply_sent :: "server_frame \<Rightarrow> bool \<Rightarrow> relay_state \<Rightarrow> relay_state" where
  "reply_sent f again s = (if again then next_frame else finish) (channel_send f s)"

text \<open>
  The target's socket takes bytes as long as its write half is not shut down, or fails; the timeout
  fires once the wait for a frame has lasted \<open>idle\<close>.
\<close>

inductive relay_step :: "nat \<Rightarrow> relay_state \<Rightarrow> relay_state \<Rightarrow> bool" for idle where
  Item: "rl_main s = Awaiting \<Longrightarrow> (item = Elapsed \<Longrightarrow> rl_waiting_since s + idle \<le> rl_now s) \<Longrightarrow>
    relay_step idle s (handle_item item s)"
| Write: "rl_main s = Writing bs \<Longrightarrow> \<not> rl_shut s \<Longrightarrow> 0 < n \<Longrightarrow> n \<le> length bs \<Longrightarrow>
    relay_step idle s (write_some n bs s)"
| Written: "rl_main s = Writing [] \<Longrightarrow> relay_step idle s (next_frame s)"
| Write_Fail: "rl_main s = Writing bs \<Longrightarrow> bs \<noteq> [] \<Longrightarrow> relay_step idle s (write_failed err s)"
| Replied: "rl_main s = Replying f again \<Longrightarrow> channel_ready outbound_queue s \<Longrightarrow>
    relay_step idle s (reply_sent f again s)"
| Task: "target_to_grpc s t \<Longrightarrow> relay_step idle s t"
| Tick: "relay_step idle s (s\<lparr>rl_now := rl_now s + 1\<rparr>)"

inductive_cases relay_stepE: "relay_step idle s t"

section \<open>Invariants of the relay\<close>

interpretation target_task: reader_task server_frames server_data_of relayed
  by unfold_locales (simp_all add: server_frames_def server_data_def server_half_close_def server_reset_def)

lemmas loop_defs = finish_def next_frame_def shutdown_target_def record_frame_def reply_def write_some_def
  write_failed_def reply_sent_def
lemmas relay_defs = loop_defs relay_start_def channel_defs

lemma relay_run:
  assumes "(relay_step idle)\<^sup>*\<^sup>* s t" "I s" "\<And>s t. relay_step idle s t \<Longrightarrow> I s \<Longrightarrow> I t"
  shows "I t"
  using assms by (induction rule: rtranclp_induct) auto

lemma task_runs: "(task_step server_frames outbound_queue data_chunk_size)\<^sup>*\<^sup>* s t \<Longrightarrow> (relay_step idle)\<^sup>*\<^sup>* s t"
  by (rule rtranclp_mono [THEN predicate2D]) (auto simp: target_to_grpc_def intro: relay_step.Task)

lemma channel_send_loop [simp]:
  "rl_main (channel_send f s) = rl_main s" "rl_written (channel_send f s) = rl_written s"
  "rl_shut (channel_send f s) = rl_shut s" "rl_now (channel_send f s) = rl_now s"
  "rl_waiting_since (channel_send f s) = rl_waiting_since s" "rl_frames (channel_send f s) = rl_frames s"
  by (simp_all add: channel_send_def)

lemma inbound_cases [case_names Elapsed Closed Failed Data HalfClose Reset Ping Open Empty]:
  obtains "item = Elapsed" | "item = Closed" | status where "item = Failed status"
  | d where "item = Got (Some (C_Data d))" | "item = Got (Some C_HalfClose)"
  | reason where "item = Got (Some (C_Reset reason))" | millis where "item = Got (Some (C_Ping millis))"
  | msg where "item = Got (Some (C_Open msg))" | "item = Got None"
  by (cases item rule: inbound_item.exhaust; (metis option.exhaust client_payload.exhaust)?)

text \<open>The task leaves the loop alone, and the loop the task.\<close>

lemma task_keeps_loop:
  assumes "target_to_grpc s t"
  shows "rl_main t = rl_main s" "rl_written t = rl_written s" "rl_shut t = rl_shut s" "rl_now t = rl_now s"
    "rl_waiting_since t = rl_waiting_since s" "rl_frames t = rl_frames s" "tk_aborting t = tk_aborting s"
  using assms unfolding target_to_grpc_def by (auto elim!: task_stepE simp: task_read_def task_sent_def channel_deliver_def)

lemma loop_keeps_task [simp]:
  "keeps_task s (handle_item item s)" "keeps_task s (write_some n bs s)" "keeps_task s (next_frame s)"
  "keeps_task s (write_failed err s)" "keeps_task s (finish s)" "keeps_task s (s\<lparr>rl_now := now\<rparr>)"
  by (cases item rule: inbound_cases; simp add: keeps_task_def loop_defs) (simp_all add: keeps_task_def loop_defs)

text \<open>Towards the target: the client's bytes, in order, from the first payload on.\<close>

fun writing :: "main_point \<Rightarrow> u8 list option" where
  "writing Awaiting = Some []"
| "writing (Writing bs) = Some bs"
| "writing (Replying f again) = (if again then Some [] else None)"
| "writing Ended = None"

definition upstream_inv :: "u8 list \<Rightarrow> relay_state \<Rightarrow> bool" where
  "upstream_inv first s \<longleftrightarrow>
     prefix (rl_written s) (first @ client_bytes (rl_frames s)) \<and>
     (\<forall>bs. writing (rl_main s) = Some bs \<longrightarrow> rl_written s @ bs = first @ client_bytes (rl_frames s))"

lemma upstream_item:
  "rl_main s = Awaiting \<Longrightarrow> upstream_inv first s \<Longrightarrow> upstream_inv first (handle_item item s)"
  by (cases item rule: inbound_cases)
    (auto simp: upstream_inv_def loop_defs)

lemma upstream_step: "relay_step idle s t \<Longrightarrow> upstream_inv first s \<Longrightarrow> upstream_inv first t"
proof (induction rule: relay_step.induct)
  case (Item s item)
  then show ?case by (simp add: upstream_item)
next
  case (Write s bs n)
  then have "(rl_written s @ take n bs) @ drop n bs = first @ client_bytes (rl_frames s)" by (simp add: upstream_inv_def)
  then show ?case unfolding upstream_inv_def write_some_def by (simp, metis append_assoc prefixI)
next
  case (Task s t)
  then show ?case by (simp add: upstream_inv_def task_keeps_loop [OF Task(1)])
qed (auto simp: upstream_inv_def loop_defs split: if_splits)

text \<open>After the half close, nothing more is written.\<close>

definition shut_inv :: "u8 list \<Rightarrow> relay_state \<Rightarrow> bool" where
  "shut_inv w s \<longleftrightarrow> rl_shut s \<and> rl_written s = w"

lemma shut_item: "shut_inv w s \<Longrightarrow> shut_inv w (handle_item item s)"
  by (cases item rule: inbound_cases)
    (auto simp: shut_inv_def loop_defs)

lemma shut_step: "relay_step idle s t \<Longrightarrow> shut_inv w s \<Longrightarrow> shut_inv w t"
proof (induction rule: relay_step.induct)
  case (Task s t)
  then show ?case by (simp add: shut_inv_def task_keeps_loop [OF Task(1)])
qed (auto simp: shut_item, auto simp: shut_inv_def loop_defs)

text \<open>
  The loop: its frames are pongs, after which it goes on, and resets, after which it ends; it has
  told the task to stop exactly when it has ended.
\<close>

definition loop_inv :: "relay_state \<Rightarrow> bool" where
  "loop_inv s \<longleftrightarrow> (tk_aborting s \<longleftrightarrow> rl_main s = Ended) \<and>
     (\<forall>f again. rl_main s = Replying f again \<longrightarrow>
        (if again then \<exists>millis. f = Some (S_Pong millis) else \<exists>reason. f = server_reset reason))"

lemma loop_item: "rl_main s = Awaiting \<Longrightarrow> loop_inv s \<Longrightarrow> loop_inv (handle_item item s)"
  by (cases item rule: inbound_cases) (auto simp: loop_inv_def loop_defs)

lemma loop_step: "relay_step idle s t \<Longrightarrow> loop_inv s \<Longrightarrow> loop_inv t"
proof (induction rule: relay_step.induct)
  case (Item s item)
  then show ?case by (simp add: loop_item)
next
  case (Task s t)
  then show ?case by (simp add: loop_inv_def task_keeps_loop [OF Task(1)])
qed (auto simp: loop_inv_def loop_defs)

lemma loop_reply:
  assumes "loop_inv s" "rl_main s = Replying f again"
  shows "server_data_of f = []" "f \<noteq> Some S_HalfClose" "again \<Longrightarrow> relayed f"
    "\<not> again \<Longrightarrow> \<exists>reason. f = server_reset reason"
  using assms by (auto simp: loop_inv_def server_reset_def split: if_splits)

text \<open>Towards the client: what was read, in order, and nothing after the task's last frame.\<close>

abbreviation opened_frames :: "server_frame list" where
  "opened_frames \<equiv> [open_result_frame True '''']"

definition downstream_inv :: "relay_state \<Rightarrow> bool" where
  "downstream_inv s \<longleftrightarrow> loop_inv s \<and> task_inv server_frames server_data_of outbound_queue data_chunk_size s \<and>
     (rl_main s \<noteq> Ended \<longrightarrow> quiet_inv relayed server_data_of opened_frames s)"

lemma server_frames_half [simp]: "rf_half_close server_frames = Some S_HalfClose"
  by (simp add: server_frames_def server_half_close_def)

lemma down_keeps:
  assumes "relay_step idle s t" "downstream_inv s" "keeps_task s t" "rl_main s \<noteq> Ended"
  shows "downstream_inv t"
  using assms(2,4) loop_step [OF assms(1)] keeps_task_inv(1,2) [OF assms(3)] by (simp add: downstream_inv_def)

lemma down_reply:
  assumes "downstream_inv s" "rl_main s = Replying f again" "channel_ready outbound_queue s"
  shows "downstream_inv (reply_sent f again s)"
proof -
  let ?u = "channel_send f s"
  have s: "loop_inv s" "task_inv server_frames server_data_of outbound_queue data_chunk_size s"
    "quiet_inv relayed server_data_of opened_frames s"
    using assms by (simp_all add: downstream_inv_def)
  note f = loop_reply [OF s(1) assms(2)]
  have keeps: "keeps_task ?u (reply_sent f again s)" by (simp add: reply_sent_def)
  have "task_inv server_frames server_data_of outbound_queue data_chunk_size ?u"
    using target_task.inv_side [OF s(2) assms(3) f(1)] f(2) by simp
  moreover have "quiet_inv relayed server_data_of opened_frames ?u" if again
    using target_task.quiet_side [OF s(3) f(3) f(1)] that by simp
  moreover have "loop_inv (reply_sent f again s)"
    using s(1) by (auto simp: loop_inv_def reply_sent_def next_frame_def finish_def assms(2))
  moreover have "rl_main (reply_sent f again s) \<noteq> Ended \<Longrightarrow> again"
    by (cases again) (simp_all add: reply_sent_def finish_def)
  ultimately show ?thesis using keeps_task_inv(1,2) [OF keeps] unfolding downstream_inv_def by blast
qed

lemma down_step: "relay_step idle s t \<Longrightarrow> downstream_inv s \<Longrightarrow> downstream_inv t"
proof (induction rule: relay_step.induct)
  case (Item s item)
  show ?case by (rule down_keeps [OF relay_step.Item]) (use Item in simp_all)
next
  case (Write s bs n)
  show ?case by (rule down_keeps [OF relay_step.Write]) (use Write in simp_all)
next
  case (Written s)
  show ?case by (rule down_keeps [OF relay_step.Written]) (use Written in simp_all)
next
  case (Write_Fail s bs err)
  show ?case by (rule down_keeps [OF relay_step.Write_Fail]) (use Write_Fail in simp_all)
next
  case (Replied s f again)
  then show ?case by (simp add: down_reply)
next
  case (Task s t)
  then have "task_step server_frames outbound_queue data_chunk_size s t" by (simp add: target_to_grpc_def)
  with Task(2) loop_step [OF relay_step.Task, OF Task(1)] show ?case
    unfolding downstream_inv_def task_keeps_loop [OF Task(1)]
    by (blast intro: target_task.inv_step target_task.quiet_step)
next
  case (Tick s)
  then show ?case
    using loop_step [OF relay_step.Tick] keeps_task_inv [of s "s\<lparr>rl_now := rl_now s + 1\<rparr>"]
    by (simp add: downstream_inv_def)
qed

lemma relay_start_inv:
  "upstream_inv first (relay_start frames first now)" "downstream_inv (relay_start opened_frames first now)"
  by (simp_all add: upstream_inv_def downstream_inv_def loop_inv_def task_inv_def task_inv_defs quiet_inv_def
      relay_start_def channel_out_def unsent_def open_result_frame_def outbound_queue_def)

section \<open>Ending a relay\<close>

definition relay_over :: "server_frame list \<Rightarrow> relay_state \<Rightarrow> bool" where
  "relay_over fs t \<longleftrightarrow> rl_main t = Ended \<and> tk_task t = Stopped \<and> tk_queue t = [] \<and> tk_sent t = fs"

lemma drained_loop [simp]:
  "rl_main (drained s) = rl_main s" "rl_written (drained s) = rl_written s" "rl_shut (drained s) = rl_shut s"
  "rl_now (drained s) = rl_now s" "rl_waiting_since (drained s) = rl_waiting_since s"
  "rl_frames (drained s) = rl_frames s"
  by (simp_all add: drained_def)

lemma relay_drains: "tk_receiver s \<Longrightarrow> (relay_step idle)\<^sup>*\<^sup>* s (drained s)"
  by (intro task_runs task_drains) (simp_all add: outbound_queue_def)

lemma relay_ticks: "(relay_step idle)\<^sup>*\<^sup>* s (s\<lparr>rl_now := rl_now s + n\<rparr>)"
proof (induction n)
  case (Suc n)
  have "relay_step idle (s\<lparr>rl_now := rl_now s + n\<rparr>) (s\<lparr>rl_now := rl_now s + Suc n\<rparr>)"
    using relay_step.Tick [of idle "s\<lparr>rl_now := rl_now s + n\<rparr>"] by simp
  with Suc show ?case by (rule rtranclp.rtrancl_into_rtrancl)
qed simp

lemma relay_replies:
  assumes "tk_receiver s" "rl_main s = Replying f again"
  shows "(relay_step idle)\<^sup>*\<^sup>* s (reply_sent f again (drained s))"
proof -
  have "relay_step idle (drained s) (reply_sent f again (drained s))"
    using assms by (intro relay_step.Replied) (simp_all add: channel_ready_def outbound_queue_def)
  with relay_drains [OF assms(1)] show ?thesis by (rule rtranclp.rtrancl_into_rtrancl)
qed

lemma ended_over:
  assumes "tk_receiver s" "rl_main s = Ended" "tk_aborting s"
  shows "\<exists>t. (relay_step idle)\<^sup>*\<^sup>* s t \<and> relay_over (channel_out s @ unsent s) t"
proof -
  have "relay_step idle (drained s) ((drained s)\<lparr>tk_task := Stopped\<rparr>)"
    using assms(3) by (intro relay_step.Task) (simp add: target_to_grpc_def task_step.Abort)
  with relay_drains [OF assms(1)] have "(relay_step idle)\<^sup>*\<^sup>* s ((drained s)\<lparr>tk_task := Stopped\<rparr>)"
    by (rule rtranclp.rtrancl_into_rtrancl)
  moreover have "relay_over (channel_out s @ unsent s) ((drained s)\<lparr>tk_task := Stopped\<rparr>)"
    using assms(2) by (simp add: relay_over_def)
  ultimately show ?thesis by blast
qed

lemma reply_over:
  assumes "tk_receiver s" "rl_main s = Replying f False"
  shows "\<exists>t. (relay_step idle)\<^sup>*\<^sup>* s t \<and> relay_over (channel_out s @ unsent s @ [f]) t"
proof -
  let ?u = "reply_sent f False (drained s)"
  have "tk_receiver ?u" "rl_main ?u = Ended" "tk_aborting ?u" "channel_out ?u @ unsent ?u = channel_out s @ unsent s @ [f]"
    using assms(1) by (simp_all add: reply_sent_def finish_def channel_send_def channel_out_def unsent_def drained_def split: task.split)
  with ended_over [of ?u] obtain t where "(relay_step idle)\<^sup>*\<^sup>* ?u t" "relay_over (channel_out s @ unsent s @ [f]) t" by auto
  with relay_replies [OF assms] show ?thesis by (meson rtranclp_trans)
qed

lemma awaiting_over:
  assumes "tk_receiver s" "rl_main s = Awaiting"
  shows "\<exists>t. (relay_step idle)\<^sup>*\<^sup>* s t \<and> relay_over (channel_out s @ unsent s @ [server_reset ''idle timeout'']) t"
proof -
  let ?v = "s\<lparr>rl_now := rl_now s + (rl_waiting_since s + idle)\<rparr>"
  let ?w = "handle_item Elapsed ?v"
  have "relay_step idle ?v ?w" by (rule relay_step.Item) (simp_all add: assms(2))
  with relay_ticks have "(relay_step idle)\<^sup>*\<^sup>* s ?w" by (rule rtranclp.rtrancl_into_rtrancl)
  moreover have "tk_receiver ?w" "rl_main ?w = Replying (server_reset ''idle timeout'') False"
    "channel_out ?w = channel_out s" "unsent ?w = unsent s"
    using assms(1) by (simp_all add: reply_def channel_out_def unsent_def)
  ultimately show ?thesis
    using reply_over [of ?w "server_reset ''idle timeout''" idle] by (auto intro: rtranclp_trans)
qed

definition can_end :: "nat \<Rightarrow> relay_state \<Rightarrow> bool" where
  "can_end idle s \<longleftrightarrow>
     (\<exists>t fs. (relay_step idle)\<^sup>*\<^sup>* s t \<and> relay_over (channel_out s @ unsent s @ fs) t \<and> server_bytes fs = [] \<and>
        (rl_main s \<noteq> Ended \<longrightarrow> fs \<noteq> [] \<and> (\<exists>reason. last fs = server_reset reason)))"

lemma can_endI:
  "(relay_step idle)\<^sup>*\<^sup>* s t \<Longrightarrow> relay_over (channel_out s @ unsent s @ fs) t \<Longrightarrow> server_bytes fs = [] \<Longrightarrow>
     rl_main s \<noteq> Ended \<longrightarrow> fs \<noteq> [] \<and> (\<exists>reason. last fs = server_reset reason) \<Longrightarrow> can_end idle s"
  unfolding can_end_def by blast

lemma reset_bytes [simp]: "server_data_of (server_reset reason) = []"
  by (simp add: server_reset_def)

lemma can_end_awaiting:
  assumes "tk_receiver s" "rl_main s = Awaiting"
  shows "can_end idle s"
proof -
  from awaiting_over [OF assms] obtain t where "(relay_step idle)\<^sup>*\<^sup>* s t"
    "relay_over (channel_out s @ unsent s @ [server_reset ''idle timeout'']) t" by blast
  then show ?thesis by (rule can_endI) auto
qed

lemma can_end_replying:
  assumes "tk_receiver s" "rl_main s = Replying f False" "f = server_reset reason"
  shows "can_end idle s"
proof -
  from reply_over [OF assms(1,2)] obtain t where "(relay_step idle)\<^sup>*\<^sup>* s t"
    "relay_over (channel_out s @ unsent s @ [f]) t" by blast
  then show ?thesis by (rule can_endI) (auto simp: assms(3))
qed

text \<open>A step of the loop that leaves the channel alone, or has put \<open>gs\<close> into it.\<close>

lemma can_end_after:
  assumes "(relay_step idle)\<^sup>*\<^sup>* s u" "can_end idle u" "rl_main u \<noteq> Ended"
    and "channel_out u @ unsent u = channel_out s @ unsent s @ gs" "server_bytes gs = []"
  shows "can_end idle s"
proof -
  from assms(2,3) obtain t fs reason where t: "(relay_step idle)\<^sup>*\<^sup>* u t" "relay_over (channel_out u @ unsent u @ fs) t"
    "server_bytes fs = []" "fs \<noteq> []" "last fs = server_reset reason"
    unfolding can_end_def by blast
  have "channel_out u @ unsent u @ fs = (channel_out u @ unsent u) @ fs" by simp
  with assms(4) t(2) have "relay_over (channel_out s @ unsent s @ gs @ fs) t" by simp
  with rtranclp_trans [OF assms(1) t(1)] show ?thesis
    by (rule can_endI) (use t assms(5) in auto)
qed

lemma relay_can_end:
  assumes "tk_receiver s" "loop_inv s"
  shows "can_end idle s"
proof (cases "rl_main s")
  case Awaiting
  with assms(1) show ?thesis by (rule can_end_awaiting)
next
  case (Writing bs)
  show ?thesis
  proof (cases "bs = []")
    case True
    have "relay_step idle s (next_frame s)" using Writing True by (simp add: relay_step.Written)
    moreover have "can_end idle (next_frame s)"
      using assms(1) by (intro can_end_awaiting) (simp_all add: next_frame_def)
    moreover have "rl_main (next_frame s) \<noteq> Ended" by (simp add: next_frame_def)
    ultimately show ?thesis
      using can_end_after [of idle s "next_frame s" "[]"] keeps_task_inv(5,6) [OF loop_keeps_task(3)] by auto
  next
    case False
    have "relay_step idle s (write_failed [] s)" using Writing False by (rule relay_step.Write_Fail)
    moreover have "can_end idle (write_failed [] s)"
      by (rule can_end_replying [OF _ _ refl]) (simp_all add: assms(1) write_failed_def reply_def)
    moreover have "rl_main (write_failed [] s) \<noteq> Ended" by (simp add: write_failed_def reply_def)
    ultimately show ?thesis
      using can_end_after [of idle s "write_failed [] s" "[]"] keeps_task_inv(5,6) [OF loop_keeps_task(4)] by auto
  qed
next
  case (Replying f again)
  note f = loop_reply [OF assms(2) Replying]
  show ?thesis
  proof (cases again)
    case True
    let ?t = "reply_sent f True (drained s)"
    have "(relay_step idle)\<^sup>*\<^sup>* s ?t" using relay_replies [OF assms(1) Replying] True by simp
    moreover have "can_end idle ?t"
      using assms(1) by (intro can_end_awaiting) (simp_all add: reply_sent_def next_frame_def)
    moreover have "channel_out ?t @ unsent ?t = channel_out s @ unsent s @ [f]"
      using assms(1) by (simp add: reply_sent_def next_frame_def channel_send_def channel_out_def unsent_def drained_def split: task.split)
    moreover have "rl_main ?t \<noteq> Ended" by (simp add: reply_sent_def next_frame_def)
    ultimately show ?thesis using f(1) can_end_after [of idle s ?t "[f]"] by simp
  next
    case False
    with f(4) Replying assms(1) show ?thesis by (auto intro: can_end_replying)
  qed
next
  case Ended
  with assms(2) have "tk_aborting s" by (simp add: loop_inv_def)
  with ended_over [OF assms(1) Ended] obtain t where "(relay_step idle)\<^sup>*\<^sup>* s t"
    "relay_over (channel_out s @ unsent s) t" by blast
  then show ?thesis using Ended can_endI [of idle s t "[]"] by simp
qed

section \<open>The contract of the policy\<close>

lemma connect_loop_dialled: "prefix (snd (connect_loop conn check e addrs)) addrs"
  by (induction conn check e addrs rule: connect_loop.induct)
    (auto split: connect_outcome.splits option.splits sum.splits prod.splits)

lemma connect_loop_result:
  "connect_loop conn check e addrs = (Inr addr, dialled) \<Longrightarrow>
     dialled \<noteq> [] \<and> last dialled = addr \<and>
     (case conn addr of Connected None \<Rightarrow> True | Connected (Some peer) \<Rightarrow> check peer = Inr () | _ \<Rightarrow> False)"
proof (induction conn check e addrs arbitrary: dialled rule: connect_loop.induct)
  case (2 conn check e a addrs)
  show ?case
  proof (cases "conn a")
    case (Connected peer)
    with "2.prems" show ?thesis by (auto split: option.splits sum.splits)
  next
    case (ConnectError err)
    with "2.prems" obtain rest where "connect_loop conn check (Some err) addrs = (Inr addr, rest)"
      "dialled = a # rest" by (auto split: prod.splits)
    with "2.IH"(1) [OF ConnectError, of rest] show ?thesis by simp
  next
    case ConnectTimedOut
    with "2.prems" obtain rest where
      "connect_loop conn check (Some (''connect to '' @ show_socket_addr a @ '' timed out'')) addrs = (Inr addr, rest)"
      "dialled = a # rest" by (auto split: prod.splits)
    with "2.IH"(2) [OF ConnectTimedOut, of rest] show ?thesis by simp
  qed
qed simp

locale target_policy =
  fixes resolve :: "string \<Rightarrow> u32 \<Rightarrow> policy_error + socket_addr list"
    and check :: "socket_addr \<Rightarrow> policy_error + unit"
    and allowed :: "socket_addr \<Rightarrow> bool"
  assumes resolve_allowed: "resolve host port = Inr addrs \<Longrightarrow> list_all allowed addrs"
    and check_allowed: "check addr = Inr u \<Longrightarrow> allowed addr"
begin

lemma dialled_allowed:
  assumes "resolve host port = Inr addrs"
  shows "list_all allowed (snd (connect_loop conn check e addrs))"
  using resolve_allowed [OF assms] connect_loop_dialled [of conn check e addrs]
  by (metis list_all_append prefix_def)

lemma peer_allowed:
  assumes "connect_loop conn check e addrs = (Inr addr, dialled)"
  shows "last dialled = addr \<and>
    (case conn addr of Connected None \<Rightarrow> True | Connected (Some peer) \<Rightarrow> allowed peer | _ \<Rightarrow> False)"
  using connect_loop_result [OF assms]
  by (auto split: connect_outcome.splits option.splits dest: check_allowed)

end

definition addr_allowed :: "policy \<Rightarrow> socket_addr \<Rightarrow> bool" where
  "addr_allowed policy a \<longleftrightarrow> \<not> (pl_deny_private_ip policy \<and> ip_reserved (sa_ip a))"

interpretation pol: target_policy "resolve_target dns policy" "check_connected_addr policy" "addr_allowed policy"
  for dns policy
  by unfold_locales
    (auto simp: resolve_target_Inr list_all_iff addr_allowed_def check_connected_addr_def check_ip_Inr)


lemma open_phase_opened:
  assumes "oo_frames (open_phase env policy item) = Some (S_OpenResult True e) # fs"
  shows "\<exists>msg addrs addr dialled. item = Got (Some (C_Open msg)) \<and>
    resolve_target (se_dns env) policy (om_target_host msg) (om_target_port msg) = Inr addrs \<and>
    connect_any (se_connect env) policy addrs = (Inr addr, dialled) \<and>
    oo_target (open_phase env policy item) = Some (addr, om_first_payload msg)"
  using assms
  by (cases item)
    (auto simp: open_phase_def open_target_def refused_def open_result_frame_def server_reset_def Let_def
      split: option.splits client_payload.splits sum.splits prod.splits if_splits)

section \<open>A short run\<close>

text \<open>The client sends a byte and half closes; the target answers nothing and ends.\<close>

definition demo_start :: relay_state where "demo_start = relay_start opened_frames [1] 0"

definition demo_relay :: relay_state where
  "demo_relay = handle_item (Got (Some C_HalfClose))
     (next_frame (write_some 1 [2] (handle_item (Got (Some (C_Data [2]))) demo_start)))"

definition demo_ended :: relay_state where
  "demo_ended = task_sent (Some S_HalfClose) False (task_read server_frames ReadEof demo_relay)"

lemmas demo_defs = demo_start_def demo_relay_def demo_ended_def relay_defs server_frames_def server_half_close_def

lemma demo_relay_run:
  "(relay_step 300)\<^sup>*\<^sup>* (relay_start opened_frames [1] 0) demo_relay" "(relay_step 300)\<^sup>*\<^sup>* demo_relay demo_ended"
proof -
  let ?a = "handle_item (Got (Some (C_Data [2]))) demo_start"
  let ?b = "write_some 1 [2] ?a"
  have 1: "relay_step 300 demo_start ?a" by (rule relay_step.Item) (simp_all add: demo_defs)
  have 2: "relay_step 300 ?a ?b" by (rule relay_step.Write) (simp_all add: demo_defs)
  have 3: "relay_step 300 ?b (next_frame ?b)" by (rule relay_step.Written) (simp add: demo_defs)
  have "relay_step 300 (next_frame ?b) demo_relay"
    unfolding demo_relay_def by (rule relay_step.Item) (simp_all add: demo_defs)
  with 1 2 3 have "(relay_step 300)\<^sup>*\<^sup>* demo_start demo_relay" by (rule four_steps)
  then show "(relay_step 300)\<^sup>*\<^sup>* (relay_start opened_frames [1] 0) demo_relay" by (simp only: demo_start_def)
  let ?r = "task_read server_frames ReadEof demo_relay"
  have 1: "task_step server_frames outbound_queue data_chunk_size demo_relay ?r"
    by (rule task_step.Read) (simp_all add: demo_defs)
  have "task_step server_frames outbound_queue data_chunk_size ?r demo_ended"
    unfolding demo_ended_def by (rule task_step.Sent) (simp_all add: demo_defs outbound_queue_def)
  with 1 have "(task_step server_frames outbound_queue data_chunk_size)\<^sup>*\<^sup>* demo_relay demo_ended" by (rule two_steps)
  then show "(relay_step 300)\<^sup>*\<^sup>* demo_relay demo_ended" by (rule task_runs)
qed


section \<open>Properties\<close>



text \<open>
  Whatever the two tasks, the channel and the client do, in any order: the target has been
  given a prefix of the first payload followed by the client's data, all of it whenever the loop
  waits for a frame; and once its write half is shut down, it is given nothing more.
\<close>

theorem relay_upstream_in_order:
  assumes "(relay_step idle)\<^sup>*\<^sup>* (relay_start frames first now) s" "(relay_step idle)\<^sup>*\<^sup>* s t"
  shows "prefix (rl_written s) (first @ client_bytes (rl_frames s)) \<and>
    (rl_main s = Awaiting \<longrightarrow> rl_written s = first @ client_bytes (rl_frames s)) \<and>
    (rl_shut s \<longrightarrow> rl_written t = rl_written s)"
proof -
  have "upstream_inv first s"
    using assms(1) relay_start_inv(1) by (rule relay_run) (rule upstream_step)
  moreover have "shut_inv (rl_written s) t" if "rl_shut s"
    by (rule relay_run [OF assms(2) _ shut_step]) (simp_all add: shut_inv_def that)
  ultimately show ?thesis by (cases "rl_main s") (simp_all add: upstream_inv_def shut_inv_def)
qed

theorem relay_upstream_in_order_witness:
  "rl_written demo_ended = rl_written demo_relay \<and> rl_written demo_relay = [1, 2]"
proof -
  have "rl_shut demo_relay" "rl_written demo_relay = [1, 2]" by (simp_all add: demo_defs)
  with relay_upstream_in_order [OF demo_relay_run] show ?thesis by blast
qed

text \<open>
  C29. In the other direction, the data frames sent to the client carry a prefix of what was read
  from the target, in order, and all of it, but for the frame in the hands of the reading task,
  while the client listens and the loop runs; at most 64 frames ever wait in the channel, none
  with more than 64 KiB; and the half-close frame comes after the end of the target and the very
  last byte read, with no data after it.
\<close>

theorem relay_downstream_in_order:
  assumes "(relay_step idle)\<^sup>*\<^sup>* (relay_start opened_frames first now) s"
  shows "prefix (server_bytes (channel_out s)) (tk_read s) \<and>
    (tk_receiver s \<and> rl_main s \<noteq> Ended \<longrightarrow> server_bytes (channel_out s @ unsent s) = tk_read s) \<and>
    length (tk_queue s) \<le> 64 \<and> (\<forall>f \<in> set (channel_out s). length (server_data_of f) \<le> 65536) \<and>
    (Some S_HalfClose \<in> set (channel_out s) \<longrightarrow> tk_eof s \<and>
       server_bytes (takeWhile (\<lambda>f. f \<noteq> Some S_HalfClose) (channel_out s)) = tk_read s \<and>
       server_bytes (dropWhile (\<lambda>f. f \<noteq> Some S_HalfClose) (channel_out s)) = [])"
proof -
  have "downstream_inv s"
    using assms relay_start_inv(2) by (rule relay_run) (rule down_step)
  then show ?thesis
    by (auto simp: downstream_inv_def loop_inv_def task_inv_def carries_def channel_bounds_def half_close_last_def
        outbound_queue_def data_chunk_size_def)
qed

theorem relay_downstream_in_order_witness:
  "Some S_HalfClose \<in> set (channel_out demo_ended) \<and> tk_eof demo_ended"
proof -
  have "Some S_HalfClose \<in> set (channel_out demo_ended)" by (simp add: demo_defs)
  with relay_downstream_in_order [OF rtranclp_trans [OF demo_relay_run]] show ?thesis by blast
qed

text \<open>
  No tunnel has to get stuck: from every state it can reach with the client listening, it can
  still end with both tasks gone and every frame that was on its way delivered, the one in the
  hands of the reading task included, followed by the reset that says why when the loop was still
  running.
\<close>

theorem relay_can_always_end:
  assumes "(relay_step idle)\<^sup>*\<^sup>* (relay_start frames first now) s" "tk_receiver s"
  shows "\<exists>t fs. (relay_step idle)\<^sup>*\<^sup>* s t \<and> rl_main t = Ended \<and> tk_task t = Stopped \<and> tk_queue t = [] \<and>
    tk_sent t = channel_out s @ unsent s @ fs \<and> server_bytes fs = [] \<and>
    (rl_main s \<noteq> Ended \<longrightarrow> fs \<noteq> [] \<and> (\<exists>reason. last fs = server_reset reason))"
proof -
  have "loop_inv s"
    by (rule relay_run [OF assms(1) _ loop_step]) (simp add: loop_inv_def relay_start_def)
  with assms(2) have "can_end idle s" by (rule relay_can_end)
  then show ?thesis by (simp add: can_end_def relay_over_def)
qed

theorem relay_can_always_end_witness:
  "\<exists>t fs. (relay_step 300)\<^sup>*\<^sup>* demo_relay t \<and> tk_sent t = open_result_frame True '''' # fs \<and> fs \<noteq> []"
proof -
  have "tk_receiver demo_relay" "rl_main demo_relay \<noteq> Ended" "channel_out demo_relay = opened_frames" "unsent demo_relay = []"
    by (simp_all add: demo_defs unsent_def)
  with relay_can_always_end [OF demo_relay_run(1)] show ?thesis by fastforce
qed

text \<open>One unit of time in which the client receives a byte of the target.\<close>

definition downloading :: "nat \<Rightarrow> relay_state \<Rightarrow> relay_state \<Rightarrow> bool" where
  "downloading idle s t \<longleftrightarrow> (relay_step idle)\<^sup>*\<^sup>* s t \<and> rl_now t = rl_now s + 1 \<and>
     tk_sent t = tk_sent s @ [server_data [0]]"

definition download_state :: "u8 list \<Rightarrow> nat \<Rightarrow> nat \<Rightarrow> relay_state" where
  "download_state first now n = (relay_start opened_frames first now)\<lparr>rl_now := now + n, tk_queue := [],
     tk_sent := opened_frames @ replicate n (server_data [0]), tk_read := replicate n 0\<rparr>"

lemma download_starts: "(relay_step idle)\<^sup>*\<^sup>* (relay_start opened_frames first now) (download_state first now 0)"
proof -
  have "drained (relay_start opened_frames first now) = download_state first now 0"
    by (simp add: drained_def download_state_def relay_start_def channel_out_def unsent_def)
  with relay_drains [of "relay_start opened_frames first now"] show ?thesis by (simp add: relay_start_def)
qed

lemma downloading_step: "downloading idle (download_state first now n) (download_state first now (Suc n))"
proof -
  let ?s = "download_state first now n"
  let ?a = "task_read server_frames (ReadBytes [0]) ?s"
  have "task_step server_frames outbound_queue data_chunk_size ?s ?a"
    by (rule task_step.Read) (simp_all add: download_state_def relay_start_def data_chunk_size_def)
  then have "relay_step idle ?s ?a" by (intro relay_step.Task) (simp add: target_to_grpc_def)
  moreover have "(relay_step idle)\<^sup>*\<^sup>* ?a (drained ?a)"
    by (rule relay_drains) (simp add: download_state_def relay_start_def task_read_def)
  moreover have "relay_step idle (drained ?a) ((drained ?a)\<lparr>rl_now := rl_now (drained ?a) + 1\<rparr>)"
    by (rule relay_step.Tick)
  moreover have "(drained ?a)\<lparr>rl_now := rl_now (drained ?a) + 1\<rparr> = download_state first now (Suc n)"
    by (simp add: download_state_def relay_start_def drained_def unsent_def channel_out_def task_read_def server_frames_def
        replicate_append_same)
  ultimately have "(relay_step idle)\<^sup>*\<^sup>* ?s (download_state first now (Suc n))"
    by (metis converse_rtranclp_into_rtranclp rtranclp.rtrancl_into_rtrancl)
  then show ?thesis
    by (simp add: downloading_def) (simp add: download_state_def relay_start_def replicate_append_same)
qed

lemma downloading_n: "(downloading idle ^^ n) (download_state first now 0) (download_state first now n)"
proof (induction n)
  case (Suc n)
  then show ?case using downloading_step by (auto intro: relcomppI)
qed simp

text \<open>
  C30. The idle timeout looks only at the client's frames: for every timeout and first payload there is
  a tunnel that, after the successful result of opening, delivers data of the target to the client
  in each unit of time and that is reset as idle all the same, at once.
\<close>

theorem idle_timeout_cuts_download:
  "\<exists>r s t. (relay_step idle)\<^sup>*\<^sup>* (relay_start opened_frames first now) r \<and> tk_sent r = opened_frames \<and> rl_now r = now \<and>
     (downloading idle ^^ idle) r s \<and> (relay_step idle)\<^sup>*\<^sup>* s t \<and> rl_now t = rl_now s \<and>
     rl_main t = Ended \<and> tk_queue t = [server_reset ''idle timeout'']"
proof -
  let ?r = "download_state first now 0" and ?s = "download_state first now idle"
  let ?f = "server_reset ''idle timeout''"
  let ?t = "reply_sent ?f False (handle_item Elapsed ?s)"
  have "relay_step idle ?s (handle_item Elapsed ?s)"
    by (rule relay_step.Item) (simp_all add: download_state_def relay_start_def)
  then have "(relay_step idle)\<^sup>*\<^sup>* ?s (handle_item Elapsed ?s)" by (rule r_into_rtranclp)
  moreover have "relay_step idle (handle_item Elapsed ?s) ?t"
    by (rule relay_step.Replied) (simp_all add: download_state_def relay_defs outbound_queue_def)
  ultimately have "(relay_step idle)\<^sup>*\<^sup>* ?s ?t" by (rule rtranclp.rtrancl_into_rtrancl)
  then show ?thesis
    using download_starts [of idle first now] downloading_n [of idle idle first now]
    by (intro exI [of _ ?r] exI [of _ ?s] exI [of _ ?t]) (simp add: download_state_def relay_defs)
qed

text \<open>The target has taken bytes of the write, or failed it; everything else is a stalled step.\<close>

definition target_moves :: "relay_state \<Rightarrow> relay_state \<Rightarrow> bool" where
  "target_moves s t \<longleftrightarrow>
     (\<exists>bs. rl_main s = Writing bs \<and> bs \<noteq> [] \<and> ((\<exists>n. t = write_some n bs s) \<or> (\<exists>err. t = write_failed err s)))"

definition stalled_step :: "nat \<Rightarrow> relay_state \<Rightarrow> relay_state \<Rightarrow> bool" where
  "stalled_step idle s t \<longleftrightarrow> relay_step idle s t \<and> \<not> target_moves s t"

lemma stalled_stays:
  assumes "stalled_step idle s t" "rl_main s = Writing bs" "bs \<noteq> []"
  shows "rl_main t = Writing bs"
proof -
  from assms have "relay_step idle s t" "\<not> target_moves s t" by (simp_all add: stalled_step_def)
  then show ?thesis
    using assms(2,3) by (elim relay_stepE) (auto simp: target_moves_def task_keeps_loop)
qed

text \<open>
  The idle timeout does not cover writing: a target that stops reading keeps the loop in its
  write, however much time passes and even when the client has gone.
\<close>

theorem stalled_target_never_times_out:
  assumes "rl_main s = Writing bs" "bs \<noteq> []" "(stalled_step idle)\<^sup>*\<^sup>* s t"
  shows "rl_main t = Writing bs"
  using assms(3,1,2) by (induction rule: rtranclp_induct) (auto dest: stalled_stays)

theorem stalled_target_never_times_out_witness:
  "rl_main ((handle_item (Got (Some (C_Data [2]))) demo_start)\<lparr>rl_now := 1\<rparr>) = Writing [2]"
proof -
  let ?s = "handle_item (Got (Some (C_Data [2]))) demo_start"
  let ?t = "?s\<lparr>rl_now := rl_now ?s + 1\<rparr>"
  have "relay_step 0 ?s ?t" by (rule relay_step.Tick)
  moreover have "\<not> target_moves ?s ?t" by (simp add: target_moves_def demo_defs)
  ultimately have "(stalled_step 0)\<^sup>*\<^sup>* ?s ?t" by (simp add: stalled_step_def r_into_rtranclp)
  moreover have "?t = ?s\<lparr>rl_now := 1\<rparr>" by (simp add: demo_defs)
  ultimately show ?thesis
    using stalled_target_never_times_out [of ?s "[2]" 0 ?t] by (simp add: demo_defs)
qed


text \<open>Trying the addresses in order.\<close>

definition connects :: "connect_outcome \<Rightarrow> bool" where
  "connects c \<longleftrightarrow> (case c of Connected _ \<Rightarrow> True | _ \<Rightarrow> False)"

definition outcome_error :: "socket_addr \<Rightarrow> connect_outcome \<Rightarrow> string" where
  "outcome_error addr c =
     (case c of ConnectError e \<Rightarrow> e | _ \<Rightarrow> ''connect to '' @ show_socket_addr addr @ '' timed out'')"

lemma connect_loop_order:
  "connect_loop conn check e addrs =
     (case dropWhile (\<lambda>a. \<not> connects (conn a)) addrs of
        [] \<Rightarrow>
          (Inl (Resolve (case (if addrs = [] then e else Some (outcome_error (last addrs) (conn (last addrs)))) of
             None \<Rightarrow> ''all target addresses failed'' | Some err \<Rightarrow> err)), addrs)
      | a # _ \<Rightarrow>
          (case conn a of
             Connected (Some peer) \<Rightarrow> rbind (check peer) (\<lambda>_. Inr a)
           | _ \<Rightarrow> Inr a, takeWhile (\<lambda>a. \<not> connects (conn a)) addrs @ [a]))"
proof (induction conn check e addrs rule: connect_loop.induct)
  case (2 conn check e a addrs)
  have [simp]: "connects (Connected p)" "\<not> connects (ConnectError err)" "\<not> connects ConnectTimedOut"
    for p err by (simp_all add: connects_def)
  show ?case
  proof (cases "conn a")
    case (Connected peer)
    then show ?thesis by (auto split: option.split sum.split)
  next
    case (ConnectError err)
    with "2.IH"(1) [OF this] show ?thesis
      by (cases "dropWhile (\<lambda>a. \<not> connects (conn a)) addrs") (simp_all add: outcome_error_def del: dropWhile_eq_Nil_conv)
  next
    case ConnectTimedOut
    with "2.IH"(2) [OF this] show ?thesis
      by (cases "dropWhile (\<lambda>a. \<not> connects (conn a)) addrs") (simp_all add: outcome_error_def del: dropWhile_eq_Nil_conv)
  qed
qed simp


end
