(* ===== verification/Client_Auth.thy ===== *)
theory Client_Auth
  imports Client_Config
begin

text \<open>
  \<open>client/src/auth.rs\<close>: the users of the local proxies. The store is a map from user names to
  profiles, built from the entries of the configuration in the order the map iterates over them.
\<close>

record user_profile =
  up_username :: string
  up_password :: string
  up_backend :: string

type_synonym auth_store = "string \<Rightarrow> user_profile option"

datatype auth_error = NoUsers | UserWithoutPassword string

definition user_password :: "user_config \<Rightarrow> string option" where
  "user_password user =
     (case uc_password user of Some p \<Rightarrow> Some p | None \<Rightarrow> uc_password_hash user)"

fun add_profiles :: "(string \<times> user_config) list \<Rightarrow> auth_store \<Rightarrow> auth_error + auth_store" where
  "add_profiles [] profiles = Inr profiles"
| "add_profiles ((username, user) # users) profiles =
     rbind (ok_or (UserWithoutPassword username) (user_password user)) (\<lambda>password.
     add_profiles users
       (profiles(username \<mapsto> \<lparr>up_username = username, up_password = password,
                               up_backend = uc_backend user\<rparr>)))"

definition auth_from_config :: "(string \<times> user_config) list \<Rightarrow> auth_error + auth_store" where
  "auth_from_config users = (if users = [] then Inl NoUsers else add_profiles users (\<lambda>_. None))"

definition auth_user :: "auth_store \<Rightarrow> string \<Rightarrow> user_profile option" where
  "auth_user users username = users username"

definition auth_authenticate :: "auth_store \<Rightarrow> string \<Rightarrow> string \<Rightarrow> user_profile option" where
  "auth_authenticate users username password =
     (case users username of
        None \<Rightarrow> None
      | Some user \<Rightarrow> if up_password user = password then Some user else None)"

definition profile_of :: "string \<Rightarrow> user_config \<Rightarrow> user_profile" where
  "profile_of username user =
     \<lparr>up_username = username, up_password = the (user_password user), up_backend = uc_backend user\<rparr>"

definition has_password :: "string \<times> user_config \<Rightarrow> bool" where
  "has_password u \<longleftrightarrow> user_password (snd u) \<noteq> None"

lemma add_profiles_ok:
  "distinct (map fst users) \<Longrightarrow> list_all has_password users \<Longrightarrow>
     add_profiles users profiles =
       Inr (\<lambda>n. case map_of users n of None \<Rightarrow> profiles n | Some user \<Rightarrow> Some (profile_of n user))"
proof (induction users profiles rule: add_profiles.induct)
  case (2 u user users profiles)
  then obtain p where p: "user_password user = Some p" and fresh: "map_of users u = None"
    by (auto simp: has_password_def map_of_eq_None_iff)
  have "add_profiles ((u, user) # users) profiles =
      Inr (\<lambda>n. case map_of users n of
          None \<Rightarrow> (profiles(u \<mapsto> \<lparr>up_username = u, up_password = p, up_backend = uc_backend user\<rparr>)) n
        | Some user \<Rightarrow> Some (profile_of n user))"
    using 2 p by (simp del: fun_upd_apply)
  also have "\<dots> = Inr (\<lambda>n. case map_of ((u, user) # users) n of
      None \<Rightarrow> profiles n | Some user \<Rightarrow> Some (profile_of n user))"
    using fresh p by (intro arg_cong [where f = Inr] ext) (simp add: profile_of_def split: option.split)
  finally show ?case .
qed simp

lemma add_profiles_missing:
  "\<not> list_all has_password users \<Longrightarrow>
     \<exists>u \<in> set users. \<not> has_password u \<and> add_profiles users profiles = Inl (UserWithoutPassword (fst u))"
  by (induction users profiles rule: add_profiles.induct)
    (auto simp: has_password_def ok_or_def split: option.splits)

section \<open>Properties\<close>

text \<open>
  The store loads exactly when there are users and each has a password, and an error names a
  user without one; then a name and a password are accepted exactly when the configuration has
  that user with that password (the plain one, else the one in \<open>password_hash\<close>), and the
  profile carries the user's backend.
\<close>

theorem auth_store_exact:
  assumes "distinct (map fst users)"
  shows "case auth_from_config users of
      Inl NoUsers \<Rightarrow> users = []
    | Inl (UserWithoutPassword u) \<Rightarrow> \<exists>user. (u, user) \<in> set users \<and> user_password user = None
    | Inr store \<Rightarrow>
        users \<noteq> [] \<and> list_all has_password users \<and>
        (\<forall>username password profile.
           auth_authenticate store username password = Some profile \<longleftrightarrow>
             (\<exists>user. map_of users username = Some user \<and> user_password user = Some password \<and>
                profile = profile_of username user))"
proof (cases "users \<noteq> [] \<and> list_all has_password users")
  case True
  have "user_password user \<noteq> None" if "map_of users username = Some user" for username user
    using True map_of_SomeD [OF that] by (auto simp: list_all_iff has_password_def)
  then have "auth_authenticate (\<lambda>n. case map_of users n of None \<Rightarrow> None | Some user \<Rightarrow> Some (profile_of n user))
        username password = Some profile \<longleftrightarrow>
       (\<exists>user. map_of users username = Some user \<and> user_password user = Some password \<and>
          profile = profile_of username user)" for username password profile
    by (cases "map_of users username") (auto simp: auth_authenticate_def profile_of_def)
  then show ?thesis
    using True by (simp add: auth_from_config_def add_profiles_ok [OF assms])
next
  case False
  show ?thesis
  proof (cases "users = []")
    case nonempty: False
    with False add_profiles_missing [of users "\<lambda>_. None"] show ?thesis
      by (force simp: auth_from_config_def has_password_def)
  qed (simp add: auth_from_config_def)
qed

theorem auth_store_exact_witness:
  "case auth_from_config [(''u'', \<lparr>uc_backend = ''b'', uc_password = None, uc_password_hash = Some ''p''\<rparr>)] of
     Inl e \<Rightarrow> False
   | Inr store \<Rightarrow> auth_authenticate store ''u'' ''p'' = Some \<lparr>up_username = ''u'', up_password = ''p'', up_backend = ''b''\<rparr>"
proof -
  let ?u = "\<lparr>uc_backend = ''b'', uc_password = None, uc_password_hash = Some ''p''\<rparr>"
  have p: "user_password ?u = Some ''p''" by (simp add: user_password_def)
  have "profile_of ''u'' ?u = \<lparr>up_username = ''u'', up_password = ''p'', up_backend = ''b''\<rparr>"
    by (simp add: profile_of_def p)
  with auth_store_exact [of "[(''u'', ?u)]"] p show ?thesis
    by (auto split: sum.splits auth_error.splits)
qed

end
