(* ===== verification/Router.thy ===== *)
theory Router
  imports Client_Auth China_Ip Grpc_Pool Server_Policy
begin

text \<open>
  \<open>client/src/router.rs\<close>: direct or through a backend. \<open>lookup_host\<close> of \<open>tokio\<close> is a parameter:
  from a host and a port, an error or addresses. The pool of a decision is a shared reference;
  it is named by the key under which the registry holds it.
\<close>

record 'ch router =
  rt_route :: route_config
  rt_china_ip :: china_ip_set
  rt_pools :: "string \<Rightarrow> 'ch backend_pool option"

datatype route_decision = Direct string | Proxy string

text \<open>
  What an accepted local connection goes on to: a relay to a direct connection, or a tunnel
  through the pool of a backend to a host and port; with the bytes to send first.
\<close>

datatype relay_plan =
    RelayDirect string u16 "u8 list"
  | RelayGrpc string string u16 "u8 list"

datatype route_error = LookupFailed string | BackendNotFound string

type_synonym lookup_host = "string \<Rightarrow> u16 \<Rightarrow> string + socket_addr list"

definition classify_domain ::
    "lookup_host \<Rightarrow> 'ch router \<Rightarrow> string \<Rightarrow> u16 \<Rightarrow> route_error + ip_addr option" where
  "classify_domain lookup router host port =
     (case lookup host port of
        Inl e \<Rightarrow> Inl (LookupFailed e)
      | Inr addrs \<Rightarrow>
          let ips = map sa_ip addrs in
          Inr (case ips of
                 [] \<Rightarrow> None
               | ip # _ \<Rightarrow> if list_all (china_contains (rt_china_ip router)) ips then Some ip else None))"

definition choose_pool :: "'ch router \<Rightarrow> user_profile \<Rightarrow> route_error + route_decision" where
  "choose_pool router user =
     (case registry_get (rt_pools router) (up_backend user) of
        None \<Rightarrow> Inl (BackendNotFound (up_backend user))
      | Some pool \<Rightarrow> Inr (Proxy (up_backend user)))"

definition decide ::
    "lookup_host \<Rightarrow> 'ch router \<Rightarrow> user_profile \<Rightarrow> string \<Rightarrow> u16 \<Rightarrow> route_error + route_decision" where
  "decide lookup router user target_host target_port =
     rbind
       (if rc_china_ip_direct (rt_route router) then
          (case parse_ip target_host of
             Some ip \<Rightarrow>
               Inr (if china_contains (rt_china_ip router) ip then Some (Direct target_host) else None)
           | None \<Rightarrow>
               if rc_domain_strategy (rt_route router) = SystemDns then
                 rbind (classify_domain lookup router target_host target_port) (\<lambda>found.
                 Inr (map_option (\<lambda>ip. Direct (show_ip ip)) found))
               else Inr None)
        else Inr None) (\<lambda>direct.
     case direct of Some d \<Rightarrow> Inr d | None \<Rightarrow> choose_pool router user)"

lemma classify_domain_Some:
  "classify_domain lookup router host port = Inr (Some ip) \<longleftrightarrow>
     (\<exists>addrs. lookup host port = Inr addrs \<and> addrs \<noteq> [] \<and> ip = sa_ip (hd addrs) \<and>
        (\<forall>a \<in> set addrs. china_contains (rt_china_ip router) (sa_ip a)))"
  by (auto simp: classify_domain_def Let_def list_all_iff split: sum.splits list.splits)

lemma choose_pool_Inr [res_simps]:
  "choose_pool router user = Inr d \<longleftrightarrow>
     (\<exists>pool. registry_get (rt_pools router) (up_backend user) = Some pool) \<and> d = Proxy (up_backend user)"
  by (auto simp: choose_pool_def split: option.splits)

lemma decide_direct:
  "decide lookup router user host port = Inr (Direct h) \<longleftrightarrow>
     rc_china_ip_direct (rt_route router) \<and>
     (case parse_ip host of
        Some ip \<Rightarrow> china_contains (rt_china_ip router) ip \<and> h = host
      | None \<Rightarrow> rc_domain_strategy (rt_route router) = SystemDns \<and>
          (\<exists>ip. classify_domain lookup router host port = Inr (Some ip) \<and> h = show_ip ip))"
  by (cases "parse_ip host"; cases "classify_domain lookup router host port")
    (auto simp: decide_def res_simps split: option.splits if_splits)

lemma decide_proxy:
  "decide lookup router user host port = Inr (Proxy b) \<Longrightarrow>
     b = up_backend user \<and> (\<exists>pool. registry_get (rt_pools router) b = Some pool)"
  by (auto simp: decide_def res_simps split: option.splits if_splits)

section \<open>Properties\<close>

text \<open>
  C39. A connection bypasses the backends only when direct routing is on, and then its host is the
  text of one address, which the table of Chinese addresses contains; every other connection
  uses the pool of the authenticated user's own backend, which exists.
\<close>

theorem decide_sound:
  "case decide lookup router user host port of
     Inl e \<Rightarrow> True
   | Inr (Direct h) \<Rightarrow> rc_china_ip_direct (rt_route router) \<and>
       (\<exists>ip. parse_ip h = Some ip \<and> china_contains (rt_china_ip router) ip)
   | Inr (Proxy b) \<Rightarrow> b = up_backend user \<and> registry_get (rt_pools router) b \<noteq> None"
proof (cases "decide lookup router user host port")
  case (Inr d)
  show ?thesis
  proof (cases d)
    case (Direct h)
    with Inr have eq: "decide lookup router user host port = Inr (Direct h)" by simp
    then have "rc_china_ip_direct (rt_route router) \<and>
        (\<exists>ip. parse_ip h = Some ip \<and> china_contains (rt_china_ip router) ip)"
      by (auto simp: decide_direct classify_domain_Some split: option.splits)
    with eq show ?thesis by simp
  next
    case (Proxy b)
    with Inr decide_proxy [of lookup router user host port b] show ?thesis by auto
  qed
qed simp

text \<open>
  With the strategy \<open>remote_for_proxy\<close>, or with direct routing off, the decision does not
  depend on the local resolver at all: a domain goes to the user's backend unresolved.
\<close>

theorem decide_no_local_dns:
  assumes "rc_domain_strategy (rt_route router) = RemoteForProxy \<or> \<not> rc_china_ip_direct (rt_route router)"
  shows "decide lookup router user host port = decide lookup' router user host port \<and>
    (parse_ip host = None \<longrightarrow> decide lookup router user host port = choose_pool router user)"
  using assms by (auto simp: decide_def split: option.split)

text \<open>
  With \<open>system_dns\<close>, a failing local lookup of a domain fails the connection, although the
  backend could have been used.
\<close>

theorem decide_lookup_error:
  assumes "rc_china_ip_direct (rt_route router)" "rc_domain_strategy (rt_route router) = SystemDns"
    and "parse_ip host = None" "lookup host port = Inl e"
  shows "decide lookup router user host port = Inl (LookupFailed e)"
  using assms by (simp add: decide_def classify_domain_def)

definition demo_router :: "domain_strategy \<Rightarrow> unit router" where
  "demo_router strategy =
     \<lparr>rt_route = route_config_default\<lparr>rc_domain_strategy := strategy\<rparr>,
      rt_china_ip = \<lparr>cs_v4 = [], cs_v6 = []\<rparr>,
      rt_pools = [''b'' \<mapsto> \<lparr>bp_backend = demo_backend, bp_channels = [()], bp_next = 0, bp_permits = 1\<rparr>]\<rparr>"

definition demo_user :: user_profile where
  "demo_user = \<lparr>up_username = ''u'', up_password = ''p'', up_backend = ''b''\<rparr>"

lemma demo_host: "parse_ip ''x'' = None" by code_simp

lemma demo_decide: "decide lookup (demo_router RemoteForProxy) demo_user ''x'' port = Inr (Proxy ''b'')"
  by (simp add: decide_def demo_router_def demo_user_def demo_host choose_pool_def registry_get_def
      route_config_default_def)

theorem decide_no_local_dns_witness:
  "decide (\<lambda>_ _. Inl ''down'') (demo_router RemoteForProxy) demo_user ''x'' 80 = Inr (Proxy ''b'')"
proof -
  have "choose_pool (demo_router RemoteForProxy) demo_user = Inr (Proxy ''b'')"
    by (simp add: choose_pool_def demo_router_def demo_user_def registry_get_def)
  with decide_no_local_dns [of "demo_router RemoteForProxy" "\<lambda>_ _. Inl ''down''" demo_user "''x''" 80] demo_host
  show ?thesis by (simp add: demo_router_def)
qed

theorem decide_lookup_error_witness:
  "decide (\<lambda>_ _. Inl ''down'') (demo_router SystemDns) demo_user ''x'' 80 = Inl (LookupFailed ''down'')"
  by (rule decide_lookup_error)
    (simp_all add: demo_router_def route_config_default_def demo_host)

end
