(* ===== verification/Socket.thy ===== *)
theory Socket
  imports Ech_Prelude
begin

text \<open>
  A local TCP connection as the ingress code uses it: what will arrive on it, cut into segments
  in any way, how it then ends, what has been written, and how much more can be written before
  writing fails. One \<open>read\<close> gives at most one segment; \<open>read_exact\<close> loops over \<open>read\<close> as
  \<open>tokio\<close> documents it. The point of the theory is that operations built from \<open>read_exact\<close>, from
  single-byte reads and from writes cannot see the segmentation.
\<close>

datatype sock_end = EndOfStream | Fault string

datatype sock_error = ReadFailed string | UnexpectedEof | WriteFailed

record socket =
  sk_rx :: "u8 list list"
  sk_end :: sock_end
  sk_tx :: "u8 list"
  sk_room :: "nat option"

type_synonym 'a sock_io = "(socket, sock_error, 'a) io"

section \<open>Operations\<close>

definition sock_read :: "nat \<Rightarrow> u8 list sock_io" where
  "sock_read n s =
     (case dropWhile (\<lambda>seg. seg = []) (sk_rx s) of
        seg # segs \<Rightarrow> (Inr (take n seg), s\<lparr>sk_rx := drop n seg # segs\<rparr>)
      | [] \<Rightarrow>
          (case sk_end s of
             EndOfStream \<Rightarrow> (Inr [], s\<lparr>sk_rx := []\<rparr>)
           | Fault e \<Rightarrow> (Inl (ReadFailed e), s\<lparr>sk_rx := []\<rparr>)))"

function sock_fill :: "nat \<Rightarrow> u8 list \<Rightarrow> u8 list sock_io" where
  "sock_fill n acc s =
     (if n = 0 then (Inr acc, s)
      else (case sock_read n s of
              (Inl e, s') \<Rightarrow> (Inl e, s')
            | (Inr bs, s') \<Rightarrow>
                if bs = [] then (Inl UnexpectedEof, s') else sock_fill (n - length bs) (acc @ bs) s'))"
  by pat_completeness auto
termination
  by (relation "measure (\<lambda>(n, acc, s). n)") auto

declare sock_fill.simps [simp del]

definition sock_read_exact :: "nat \<Rightarrow> u8 list sock_io" where
  "sock_read_exact n = sock_fill n []"

definition sock_read_u8 :: "u8 sock_io" where
  "sock_read_u8 = io_bind (sock_read_exact 1) (\<lambda>bs. io_return (hd bs))"

definition sock_read_u16 :: "u16 sock_io" where
  "sock_read_u16 = io_bind (sock_read_exact 2) (\<lambda>bs. io_return (from_be bs))"

definition sock_write_all :: "u8 list \<Rightarrow> unit sock_io" where
  "sock_write_all bs s =
     (case sk_room s of
        None \<Rightarrow> (Inr (), s\<lparr>sk_tx := sk_tx s @ bs\<rparr>)
      | Some k \<Rightarrow>
          if length bs \<le> k then (Inr (), s\<lparr>sk_tx := sk_tx s @ bs, sk_room := Some (k - length bs)\<rparr>)
          else (Inl WriteFailed, s\<lparr>sk_tx := sk_tx s @ take k bs, sk_room := Some 0\<rparr>))"

section \<open>The stream without its segments\<close>

definition pending :: "socket \<Rightarrow> u8 list" where
  "pending s = concat (sk_rx s)"

definition same_rest :: "socket \<Rightarrow> socket \<Rightarrow> bool" where
  "same_rest s t \<longleftrightarrow> sk_end s = sk_end t \<and> sk_tx s = sk_tx t \<and> sk_room s = sk_room t"

definition same_stream :: "socket \<Rightarrow> socket \<Rightarrow> bool" where
  "same_stream s t \<longleftrightarrow> pending s = pending t \<and> same_rest s t"

lemma same_rest_update [simp]: "same_rest s (s\<lparr>sk_rx := segs\<rparr>)" "same_rest s s"
  by (simp_all add: same_rest_def)

lemma same_rest_trans: "same_rest s t \<Longrightarrow> same_rest t u \<Longrightarrow> same_rest s u"
  by (simp add: same_rest_def)

lemma pending_update [simp]: "pending (s\<lparr>sk_rx := segs\<rparr>) = concat segs"
  "pending (s\<lparr>sk_tx := bs\<rparr>) = pending s" "pending (s\<lparr>sk_room := r\<rparr>) = pending s"
  by (simp_all add: pending_def)

lemma concat_dropWhile_empty: "concat (dropWhile (\<lambda>seg. seg = []) segs) = concat segs"
  by (induction segs) auto

text \<open>The error of a read at the end of the stream.\<close>

definition end_error :: "socket \<Rightarrow> sock_error" where
  "end_error s = (case sk_end s of EndOfStream \<Rightarrow> UnexpectedEof | Fault e \<Rightarrow> ReadFailed e)"

lemma sock_read_cases:
  assumes "sock_read n s = (r, s')" "0 < n"
  obtains (at_end) "pending s = []" "pending s' = []" "same_rest s s'"
      "r = (case sk_end s of EndOfStream \<Rightarrow> Inr [] | Fault e \<Rightarrow> Inl (ReadFailed e))"
    | (bytes) bs where "r = Inr bs" "bs \<noteq> []" "length bs \<le> n" "pending s = bs @ pending s'" "same_rest s s'"
proof (cases "dropWhile (\<lambda>seg. seg = []) (sk_rx s)")
  case Nil
  with assms(1) have run: "(case sk_end s of EndOfStream \<Rightarrow> (Inr [], s\<lparr>sk_rx := []\<rparr>)
      | Fault e \<Rightarrow> (Inl (ReadFailed e), s\<lparr>sk_rx := []\<rparr>)) = (r, s')"
    by (simp only: sock_read_def list.case)
  have "pending s = []" using Nil concat_dropWhile_empty [of "sk_rx s"]
    by (simp add: pending_def del: dropWhile_eq_Nil_conv)
  with run show thesis
    by (intro at_end) (auto split: sock_end.splits)
next
  case (Cons seg segs)
  then have "sock_read n s = (Inr (take n seg), s\<lparr>sk_rx := drop n seg # segs\<rparr>)"
    by (simp only: sock_read_def list.case)
  with assms(1) have run: "r = Inr (take n seg)" "s' = s\<lparr>sk_rx := drop n seg # segs\<rparr>"
    by (simp_all only: prod.inject)
  have "seg \<noteq> []" using hd_dropWhile [of "\<lambda>seg. seg = []" "sk_rx s"] Cons
    by (simp del: dropWhile_eq_Nil_conv)
  moreover have "pending s = seg @ concat segs"
    using Cons concat_dropWhile_empty [of "sk_rx s"] by (simp add: pending_def)
  ultimately show thesis
    using run assms(2) by (intro bytes [of "take n seg"]) simp_all
qed

text \<open>What \<open>read_exact\<close> gives, in terms of the stream.\<close>

lemma sock_fill_stream:
  "sock_fill n acc s = (r, s') \<Longrightarrow> same_rest s s' \<and>
     (if n \<le> length (pending s) then r = Inr (acc @ take n (pending s)) \<and> pending s' = drop n (pending s)
      else r = Inl (end_error s) \<and> pending s' = [])"
proof (induction n acc s arbitrary: r s' rule: sock_fill.induct)
  case (1 n acc s)
  show ?case
  proof (cases "n = 0")
    case True
    with "1.prems" show ?thesis by (simp add: sock_fill.simps)
  next
    case False
    obtain q t where read: "sock_read n s = (q, t)" by (cases "sock_read n s")
    from False have "0 < n" by simp
    with read show ?thesis
    proof (cases rule: sock_read_cases)
      case at_end
      with "1.prems" read False show ?thesis
        by (auto simp: sock_fill.simps [of n acc s] end_error_def split: sock_end.splits)
    next
      case (bytes bs)
      then have run: "sock_fill (n - length bs) (acc @ bs) t = (r, s')"
        using "1.prems" read False by (simp add: sock_fill.simps [of n acc s])
      have "end_error t = end_error s" using bytes(5) by (simp add: end_error_def same_rest_def)
      with "1.IH" [OF False read [symmetric] bytes(1,2) run] bytes(3-5) same_rest_trans [of s t s']
      show ?thesis by auto
    qed
  qed
qed

lemma sock_read_exact_stream:
  assumes "sock_read_exact n s = (r, s')"
  shows "same_rest s s' \<and>
     (if n \<le> length (pending s) then r = Inr (take n (pending s)) \<and> pending s' = drop n (pending s)
      else r = Inl (end_error s) \<and> pending s' = [])"
  using sock_fill_stream [of n "[]" s r s'] assms by (simp add: sock_read_exact_def)

section \<open>Segments are invisible\<close>

text \<open>An operation is segment blind when it gives the same result and the same stream on the same stream.\<close>

definition segment_blind :: "(socket, 'e, 'a) io \<Rightarrow> bool" where
  "segment_blind m \<longleftrightarrow>
     (\<forall>s t. same_stream s t \<longrightarrow> fst (m s) = fst (m t) \<and> same_stream (snd (m s)) (snd (m t)))"

named_theorems blind \<open>rules that an operation is segment blind\<close>

lemma segment_blindD:
  "segment_blind m \<Longrightarrow> same_stream s t \<Longrightarrow> fst (m s) = fst (m t) \<and> same_stream (snd (m s)) (snd (m t))"
  by (simp add: segment_blind_def)

lemma blind_pure [blind]:
  "segment_blind (io_return x)" "segment_blind (io_fail e)" "segment_blind (io_lift r)"
  by (simp_all add: segment_blind_def)

lemma blind_bind [blind]:
  assumes "segment_blind m" "\<And>x. segment_blind (f x)"
  shows "segment_blind (io_bind m f)"
  unfolding segment_blind_def
proof (intro allI impI)
  fix s t assume "same_stream s t"
  with assms(1) have 1: "fst (m s) = fst (m t)" "same_stream (snd (m s)) (snd (m t))"
    by (auto dest: segment_blindD)
  obtain r s' t' where m: "m s = (r, s')" "m t = (r, t')"
    using 1(1) by (metis prod.collapse)
  with 1(2) assms(2) show "fst (io_bind m f s) = fst (io_bind m f t) \<and>
      same_stream (snd (io_bind m f s)) (snd (io_bind m f t))"
    by (cases r) (auto simp: io_bind_def dest: segment_blindD)
qed

lemma blind_cases [blind]:
  "(b \<Longrightarrow> segment_blind m) \<Longrightarrow> (\<not> b \<Longrightarrow> segment_blind n) \<Longrightarrow> segment_blind (if b then m else n)"
  "segment_blind g \<Longrightarrow> (\<And>x. segment_blind (h x)) \<Longrightarrow> segment_blind (case opt of None \<Rightarrow> g | Some x \<Rightarrow> h x)"
  "(\<And>e. segment_blind (k e)) \<Longrightarrow> (\<And>y. segment_blind (l y)) \<Longrightarrow>
     segment_blind (case res of Inl e \<Rightarrow> k e | Inr y \<Rightarrow> l y)"
  "(\<And>a b. segment_blind (p a b)) \<Longrightarrow> segment_blind (case pr of (a, b) \<Rightarrow> p a b)"
  by (auto split: option.splits sum.splits prod.splits)

lemma blind_map_err [blind]: "segment_blind m \<Longrightarrow> segment_blind (io_map_err h m)"
proof (subst segment_blind_def, intro allI impI)
  fix s t assume "segment_blind m" "same_stream s t"
  then have 1: "fst (m s) = fst (m t)" "same_stream (snd (m s)) (snd (m t))"
    by (auto dest: segment_blindD)
  obtain r s' t' where "m s = (r, s')" "m t = (r, t')"
    using 1(1) by (metis prod.collapse)
  with 1(2) show "fst (io_map_err h m s) = fst (io_map_err h m t) \<and>
      same_stream (snd (io_map_err h m s)) (snd (io_map_err h m t))"
    by (cases r) (auto simp: io_map_err_def)
qed

lemma blind_try [blind]: "segment_blind m \<Longrightarrow> segment_blind (io_try m)"
  by (simp add: segment_blind_def io_try_def)

lemma blind_read_exact [blind]: "segment_blind (sock_read_exact n)"
  unfolding segment_blind_def
proof (intro allI impI)
  fix s t assume "same_stream s t"
  then show "fst (sock_read_exact n s) = fst (sock_read_exact n t) \<and>
      same_stream (snd (sock_read_exact n s)) (snd (sock_read_exact n t))"
    using sock_read_exact_stream [of n s, OF prod.collapse [symmetric]]
      sock_read_exact_stream [of n t, OF prod.collapse [symmetric]]
    by (auto simp: same_stream_def same_rest_def end_error_def split: if_splits)
qed

lemma blind_write [blind]: "segment_blind (sock_write_all bs)"
  by (auto simp: segment_blind_def sock_write_all_def same_stream_def same_rest_def pending_def
      split: option.splits)

lemma blind_read_int [blind]: "segment_blind sock_read_u8" "segment_blind sock_read_u16"
  unfolding sock_read_u8_def sock_read_u16_def by (intro blind)+

lemma blind_read_1 [blind]: "segment_blind (sock_read 1)"
  unfolding segment_blind_def
proof (intro allI impI)
  fix s t assume st: "same_stream s t"
  obtain q s' r t' where read: "sock_read 1 s = (q, s')" "sock_read 1 t = (r, t')"
    by (cases "sock_read 1 s"; cases "sock_read 1 t")
  have "q = r \<and> same_stream s' t'"
    using read(1) zero_less_one
  proof (cases rule: sock_read_cases)
    case at_end
    from read(2) zero_less_one show ?thesis
      by (cases rule: sock_read_cases) (use at_end st in \<open>auto simp: same_stream_def same_rest_def\<close>)
  next
    case (bytes bs)
    from read(2) zero_less_one show ?thesis
    proof (cases rule: sock_read_cases)
      case at_end
      with bytes st show ?thesis by (simp add: same_stream_def)
    next
      case (bytes cs)
      with \<open>bs \<noteq> []\<close> \<open>length bs \<le> 1\<close> \<open>q = Inr bs\<close> \<open>pending s = bs @ pending s'\<close> \<open>same_rest s s'\<close> st
      show ?thesis
        by (cases bs; cases cs) (auto simp: same_stream_def same_rest_def)
    qed
  qed
  with read show "fst (sock_read 1 s) = fst (sock_read 1 t) \<and>
      same_stream (snd (sock_read 1 s)) (snd (sock_read 1 t))" by simp
qed

section \<open>Evaluation on a stream in one piece\<close>

text \<open>The socket with its unread bytes in a single segment, on which reads compute.\<close>

definition one_piece :: "socket \<Rightarrow> socket" where
  "one_piece s = s\<lparr>sk_rx := [pending s]\<rparr>"

lemma one_piece_stream: "same_stream s (one_piece s)"
  by (simp add: one_piece_def same_stream_def)

lemma read_exact_piece [simp]:
  assumes "sk_rx s = [x]" "n \<le> length x"
  shows "sock_read_exact n s = (Inr (take n x), s\<lparr>sk_rx := [drop n x]\<rparr>)"
proof (cases "n = 0")
  case True
  with assms show ?thesis by (simp add: sock_read_exact_def sock_fill.simps)
next
  case False
  with assms have "x \<noteq> []" "take n x \<noteq> []" by auto
  with assms False show ?thesis
    by (simp add: sock_read_exact_def sock_fill.simps [of n] sock_fill.simps [of 0] sock_read_def min_def)
qed

lemma read_u8_piece [simp]:
  "sk_rx s = [b # x] \<Longrightarrow> sock_read_u8 s = (Inr b, s\<lparr>sk_rx := [x]\<rparr>)"
  by (simp add: sock_read_u8_def io_bind_def)

lemma read_u16_piece [simp]:
  "sk_rx s = [a # b # x] \<Longrightarrow> sock_read_u16 s = (Inr (from_be [a, b]), s\<lparr>sk_rx := [x]\<rparr>)"
  by (simp add: sock_read_u16_def io_bind_def numeral_2_eq_2)

lemma write_room [simp]:
  "sk_room s = None \<Longrightarrow> sock_write_all bs s = (Inr (), s\<lparr>sk_tx := sk_tx s @ bs\<rparr>)"
  by (simp add: sock_write_all_def)


lemma sock_read_exact_Inr [dest]:
  "sock_read_exact n s = (Inr bs, t) \<Longrightarrow> pending s = bs @ pending t \<and> length bs = n"
  using sock_read_exact_stream [of n s "Inr bs" t] by (auto split: if_splits)

lemma sock_read_u8_Inr [dest]:
  assumes "sock_read_u8 s = (Inr b, t)"
  shows "pending s = b # pending t"
proof -
  obtain bs where "sock_read_exact 1 s = (Inr bs, t)" "b = hd bs"
    using assms by (auto simp: sock_read_u8_def io_simps)
  with sock_read_exact_Inr [of 1 s bs t] show ?thesis by (cases bs) auto
qed

lemma sock_read_u16_Inr [dest]:
  assumes "sock_read_u16 s = (Inr w, t)"
  shows "pending s = to_be 2 w @ pending t"
proof -
  obtain bs where "sock_read_exact 2 s = (Inr bs, t)" "w = from_be bs"
    using assms by (auto simp: sock_read_u16_def io_simps)
  with sock_read_exact_Inr [of 2 s bs t] show ?thesis by simp
qed

lemma sock_read_rest:
  "sock_read_exact n s = (q, t) \<Longrightarrow> same_rest s t"
  "sock_read_u8 s = (r, t) \<Longrightarrow> same_rest s t"
  "sock_read_u16 s = (u, t) \<Longrightarrow> same_rest s t"
  using sock_read_exact_stream [of _ s _ t]
  by (auto simp: sock_read_u8_def sock_read_u16_def elim!: io_bindE)

lemmas read_keeps_tx = sock_read_rest [unfolded same_rest_def]

lemma sock_write_all_pending [simp]: "pending (snd (sock_write_all bs s)) = pending s"
  by (simp add: sock_write_all_def split: option.split)

lemma sock_write_all_pendingD [dest]: "sock_write_all bs s = (r, t) \<Longrightarrow> pending t = pending s"
  by (metis snd_conv sock_write_all_pending)

end
