(* ===== verification/Ingress_Socks5.thy ===== *)
theory Ingress_Socks5
  imports Router Socket Rust_Str
begin

text \<open>
  \<open>client/src/ingress_socks5.rs\<close>: one SOCKS5 connection up to the relay. \<open>socks5_handle\<close> runs on
  the socket of the local client and gives the relay to start. \<open>connect_direct\<close> (the network) is a
  parameter: from a host and a port, an error or nothing.
\<close>

section \<open>The handler\<close>

definition socks_version :: u8 where "socks_version = 0x05"
definition auth_no_auth :: u8 where "auth_no_auth = 0x00"
definition auth_user_pass :: u8 where "auth_user_pass = 0x02"
definition no_acceptable_methods :: u8 where "no_acceptable_methods = 0xff"

record socks5_options =
  so_allow_no_auth :: bool
  so_default_user :: "string option"

datatype socks_error =
    Sock sock_error
  | UnsupportedVersion u8
  | NoAcceptableMethod
  | DefaultUserUnset
  | DefaultUserNotFound string
  | UnsupportedAuthVersion u8
  | InvalidCredentials string
  | AuthFieldNotUtf8
  | InvalidRequestHeader
  | UnsupportedCommand u8
  | DomainNotUtf8
  | UnsupportedAddressType u8
  | PortZero
  | Routing route_error
  | DirectFailed string

type_synonym 'a socks_io = "(socket, socks_error, 'a) io"

abbreviation on_sock :: "'a sock_io \<Rightarrow> 'a socks_io" where
  "on_sock m \<equiv> io_map_err Sock m"

definition negotiate_auth :: "socks5_options \<Rightarrow> u8 socks_io" where
  "negotiate_auth options =
     io_bind (on_sock sock_read_u8) (\<lambda>version.
     if version \<noteq> socks_version then io_fail (UnsupportedVersion version)
     else
       io_bind (on_sock sock_read_u8) (\<lambda>methods_len.
       io_bind (on_sock (sock_read_exact (unat methods_len))) (\<lambda>methods.
       if so_allow_no_auth options \<and> auth_no_auth \<in> set methods then
         io_bind (on_sock (sock_write_all [socks_version, auth_no_auth])) (\<lambda>_. io_return auth_no_auth)
       else if auth_user_pass \<in> set methods then
         io_bind (on_sock (sock_write_all [socks_version, auth_user_pass])) (\<lambda>_. io_return auth_user_pass)
       else
         io_bind (on_sock (sock_write_all [socks_version, no_acceptable_methods])) (\<lambda>_.
         io_fail NoAcceptableMethod))))"

definition read_socks_string :: "string socks_io" where
  "read_socks_string =
     io_bind (on_sock sock_read_u8) (\<lambda>len.
     io_bind (on_sock (sock_read_exact (unat len))) (\<lambda>buf.
     io_lift (ok_or AuthFieldNotUtf8 (from_utf8 buf))))"

definition socks_authenticate :: "auth_store \<Rightarrow> u8 \<Rightarrow> socks5_options \<Rightarrow> user_profile socks_io" where
  "socks_authenticate auth method options =
     (if method = auth_no_auth then
        io_lift (case so_default_user options of
            None \<Rightarrow> Inl DefaultUserUnset
          | Some username \<Rightarrow> ok_or (DefaultUserNotFound username) (auth_user auth username))
      else
        io_bind (on_sock sock_read_u8) (\<lambda>auth_version.
        if auth_version \<noteq> 0x01 then
          io_bind (on_sock (sock_write_all [0x01, 0x01])) (\<lambda>_. io_fail (UnsupportedAuthVersion auth_version))
        else
          io_bind read_socks_string (\<lambda>username.
          io_bind read_socks_string (\<lambda>password.
          case auth_authenticate auth username password of
            Some user \<Rightarrow> io_bind (on_sock (sock_write_all [0x01, 0x00])) (\<lambda>_. io_return user)
          | None \<Rightarrow>
              io_bind (on_sock (sock_write_all [0x01, 0x01])) (\<lambda>_. io_fail (InvalidCredentials username))))))"

text \<open>A write error is logged and dropped.\<close>

definition socks_reply :: "u8 \<Rightarrow> u8 list" where
  "socks_reply reply = [socks_version, reply, 0x00, 0x01, 0, 0, 0, 0, 0, 0]"

definition send_reply :: "u8 \<Rightarrow> unit socks_io" where
  "send_reply reply = io_bind (io_try (sock_write_all (socks_reply reply))) (\<lambda>_. io_return ())"

definition read_socks_host :: "u8 \<Rightarrow> string socks_io" where
  "read_socks_host atyp =
     (if atyp = 0x01 then
        io_bind (on_sock (sock_read_exact 4)) (\<lambda>buf. io_return (show_ipv4 (from_be buf)))
      else if atyp = 0x03 then
        io_bind (on_sock sock_read_u8) (\<lambda>len.
        io_bind (on_sock (sock_read_exact (unat len))) (\<lambda>buf.
        io_lift (ok_or DomainNotUtf8 (from_utf8 buf))))
      else if atyp = 0x04 then
        io_bind (on_sock (sock_read_exact 16)) (\<lambda>buf. io_return (show_ipv6 (from_be buf)))
      else
        io_bind (send_reply 0x08) (\<lambda>_. io_fail (UnsupportedAddressType atyp)))"

definition read_connect_request :: "(string \<times> u16) socks_io" where
  "read_connect_request =
     io_bind (on_sock sock_read_u8) (\<lambda>version.
     io_bind (on_sock sock_read_u8) (\<lambda>command.
     io_bind (on_sock sock_read_u8) (\<lambda>reserved.
     io_bind (on_sock sock_read_u8) (\<lambda>atyp.
     if version \<noteq> socks_version \<or> reserved \<noteq> 0 then io_fail InvalidRequestHeader
     else if command \<noteq> 0x01 then
       io_bind (send_reply 0x07) (\<lambda>_. io_fail (UnsupportedCommand command))
     else
       io_bind (read_socks_host atyp) (\<lambda>host.
       io_bind (on_sock sock_read_u16) (\<lambda>port.
       if port = 0 then io_bind (send_reply 0x04) (\<lambda>_. io_fail PortZero)
       else io_return (host, port)))))))"

definition socks_route ::
    "lookup_host \<Rightarrow> (string \<Rightarrow> u16 \<Rightarrow> string + unit) \<Rightarrow> 'ch router \<Rightarrow> user_profile \<Rightarrow> string \<Rightarrow> u16 \<Rightarrow>
     relay_plan socks_io" where
  "socks_route lookup connect router user host port =
     (case decide lookup router user host port of
        Inl e \<Rightarrow> io_fail (Routing e)
      | Inr (Direct connect_host) \<Rightarrow>
          (case connect connect_host port of
             Inl err \<Rightarrow> io_bind (send_reply 0x05) (\<lambda>_. io_fail (DirectFailed err))
           | Inr _ \<Rightarrow>
               io_bind (send_reply 0x00) (\<lambda>_. io_return (RelayDirect connect_host port [])))
      | Inr (Proxy pool) \<Rightarrow>
          io_bind (send_reply 0x00) (\<lambda>_. io_return (RelayGrpc pool host port [])))"

definition socks5_handle ::
    "lookup_host \<Rightarrow> (string \<Rightarrow> u16 \<Rightarrow> string + unit) \<Rightarrow> auth_store \<Rightarrow> 'ch router \<Rightarrow> socks5_options \<Rightarrow>
     relay_plan socks_io" where
  "socks5_handle lookup connect auth router options =
     io_bind (negotiate_auth options) (\<lambda>method.
     io_bind (socks_authenticate auth method options) (\<lambda>user.
     io_bind read_connect_request (\<lambda>(host, port).
     socks_route lookup connect router user host port)))"

section \<open>Segments\<close>

lemma blind_send_reply [blind]: "segment_blind (send_reply reply)"
  unfolding send_reply_def by (intro blind)

lemma blind_socks_host [blind]: "segment_blind (read_socks_host atyp)"
  unfolding read_socks_host_def by (intro blind)

lemma blind_connect_request [blind]: "segment_blind read_connect_request"
  unfolding read_connect_request_def by (intro blind)

lemma blind_negotiate [blind]: "segment_blind (negotiate_auth options)"
  unfolding negotiate_auth_def by (intro blind)

lemma blind_socks_string [blind]: "segment_blind read_socks_string"
  unfolding read_socks_string_def by (intro blind)

lemma blind_socks_authenticate [blind]: "segment_blind (socks_authenticate auth method options)"
  unfolding socks_authenticate_def by (intro blind)

lemma blind_socks_route [blind]: "segment_blind (socks_route lookup connect router user host port)"
  unfolding socks_route_def
  by (simp split: sum.split route_decision.split, intro allI conjI impI blind)

lemma blind_socks5_handle: "segment_blind (socks5_handle lookup connect auth router options)"
  unfolding socks5_handle_def by (intro blind)

section \<open>The messages of the client\<close>

datatype socks_addr = SocksV4 u32 | SocksDomain string | SocksV6 u128

definition socks_string_ok :: "string \<Rightarrow> bool" where
  "socks_string_ok s \<longleftrightarrow> length s < 256 \<and> utf8_valid (bytes_of_str s)"

definition enc_socks_string :: "string \<Rightarrow> u8 list" where
  "enc_socks_string s = word_of_nat (length s) # bytes_of_str s"

fun enc_socks_addr :: "socks_addr \<Rightarrow> u8 list" where
  "enc_socks_addr (SocksV4 ip) = 0x01 # to_be 4 ip"
| "enc_socks_addr (SocksDomain d) = 0x03 # enc_socks_string d"
| "enc_socks_addr (SocksV6 ip) = 0x04 # to_be 16 ip"

fun socks_addr_host :: "socks_addr \<Rightarrow> string" where
  "socks_addr_host (SocksV4 ip) = show_ipv4 ip"
| "socks_addr_host (SocksDomain d) = d"
| "socks_addr_host (SocksV6 ip) = show_ipv6 ip"

fun socks_addr_ok :: "socks_addr \<Rightarrow> bool" where
  "socks_addr_ok (SocksDomain d) \<longleftrightarrow> socks_string_ok d"
| "socks_addr_ok _ \<longleftrightarrow> True"

definition enc_greeting :: "u8 list \<Rightarrow> u8 list" where
  "enc_greeting methods = socks_version # word_of_nat (length methods) # methods"

definition enc_login :: "(string \<times> string) option \<Rightarrow> u8 list" where
  "enc_login login =
     (case login of None \<Rightarrow> [] | Some (u, p) \<Rightarrow> 0x01 # enc_socks_string u @ enc_socks_string p)"

definition enc_request :: "socks_addr \<Rightarrow> u16 \<Rightarrow> u8 list" where
  "enc_request addr port = [socks_version, 0x01, 0x00] @ enc_socks_addr addr @ to_be 2 port"

definition socks_handshake :: "u8 list \<Rightarrow> (string \<times> string) option \<Rightarrow> socks_addr \<Rightarrow> u16 \<Rightarrow> u8 list" where
  "socks_handshake methods login addr port = enc_greeting methods @ enc_login login @ enc_request addr port"

text \<open>Who the client is after the negotiation.\<close>

definition socks_user :: "socks5_options \<Rightarrow> auth_store \<Rightarrow> u8 list \<Rightarrow> (string \<times> string) option \<Rightarrow>
    user_profile \<Rightarrow> bool" where
  "socks_user options auth methods login user \<longleftrightarrow> length methods < 256 \<and>
     (case login of
        None \<Rightarrow> so_allow_no_auth options \<and> auth_no_auth \<in> set methods \<and>
          (\<exists>name. so_default_user options = Some name \<and> auth_user auth name = Some user)
      | Some (u, p) \<Rightarrow> \<not> (so_allow_no_auth options \<and> auth_no_auth \<in> set methods) \<and>
          auth_user_pass \<in> set methods \<and> socks_string_ok u \<and> socks_string_ok p \<and>
          auth_authenticate auth u p = Some user)"

definition login_replies :: "(string \<times> string) option \<Rightarrow> u8 list" where
  "login_replies login =
     (case login of None \<Rightarrow> [socks_version, auth_no_auth]
      | Some _ \<Rightarrow> [socks_version, auth_user_pass] @ [0x01, 0x00])"

text \<open>The result and the reply for a valid request of a user.\<close>

definition socks_outcome ::
    "lookup_host \<Rightarrow> (string \<Rightarrow> u16 \<Rightarrow> string + unit) \<Rightarrow> 'ch router \<Rightarrow> user_profile \<Rightarrow> string \<Rightarrow> u16 \<Rightarrow>
     (socks_error + relay_plan) \<times> u8 list" where
  "socks_outcome lookup connect router user host port =
     (case decide lookup router user host port of
        Inl e \<Rightarrow> (Inl (Routing e), [])
      | Inr (Direct h) \<Rightarrow>
          (case connect h port of
             Inl err \<Rightarrow> (Inl (DirectFailed err), socks_reply 0x05)
           | Inr _ \<Rightarrow> (Inr (RelayDirect h port []), socks_reply 0x00))
      | Inr (Proxy b) \<Rightarrow> (Inr (RelayGrpc b host port []), socks_reply 0x00))"

section \<open>Reading what was written\<close>

lemma from_utf8_bytes [simp]: "utf8_valid (bytes_of_str s) \<Longrightarrow> from_utf8 (bytes_of_str s) = Some s"
  by (simp add: from_utf8_def)

lemma read_socks_string_piece [simp]:
  "sk_rx s = [enc_socks_string u @ x] \<Longrightarrow> socks_string_ok u \<Longrightarrow>
     read_socks_string s = (Inr u, s\<lparr>sk_rx := [x]\<rparr>)"
  by (simp add: read_socks_string_def enc_socks_string_def socks_string_ok_def io_bind_def io_map_err_def)

lemma send_reply_piece [simp]:
  "sk_room s = None \<Longrightarrow> send_reply reply s = (Inr (), s\<lparr>sk_tx := sk_tx s @ socks_reply reply\<rparr>)"
  by (simp add: send_reply_def io_try_def io_bind_def)

lemma negotiate_piece:
  assumes "socks_user options auth methods login user" "sk_rx s = [enc_greeting methods @ x]" "sk_room s = None"
  shows "negotiate_auth options s =
    (Inr (if login = None then auth_no_auth else auth_user_pass),
     s\<lparr>sk_rx := [x], sk_tx := sk_tx s @ [socks_version, if login = None then auth_no_auth else auth_user_pass]\<rparr>)"
  using assms
  by (cases login)
    (auto simp: negotiate_auth_def enc_greeting_def socks_user_def io_bind_def io_map_err_def)

lemma authenticate_piece:
  assumes "socks_user options auth methods login user" "sk_rx s = [enc_login login @ x]" "sk_room s = None"
  shows "socks_authenticate auth (if login = None then auth_no_auth else auth_user_pass) options s =
    (Inr user, s\<lparr>sk_rx := [x], sk_tx := sk_tx s @ (if login = None then [] else [0x01, 0x00])\<rparr>)"
proof (cases login)
  case None
  with assms show ?thesis
    by (auto simp: socks_authenticate_def socks_user_def enc_login_def ok_or_def)
next
  case (Some up)
  then obtain u p where "login = Some (u, p)" by (cases up) auto
  with assms show ?thesis
    by (simp add: socks_authenticate_def socks_user_def enc_login_def io_bind_def io_map_err_def
        auth_no_auth_def auth_user_pass_def)
qed

lemma read_host_piece:
  assumes "socks_addr_ok addr" "sk_rx s = [tl (enc_socks_addr addr) @ x]"
  shows "read_socks_host (hd (enc_socks_addr addr)) s = (Inr (socks_addr_host addr), s\<lparr>sk_rx := [x]\<rparr>)"
  using assms
  by (cases addr) (simp_all add: read_socks_host_def io_bind_def io_map_err_def enc_socks_string_def socks_string_ok_def)

lemma enc_socks_addr_split: "enc_socks_addr addr = hd (enc_socks_addr addr) # tl (enc_socks_addr addr)"
  by (cases addr) simp_all

lemma read_u16_to_be [simp]:
  "sk_rx s = [to_be 2 w @ x] \<Longrightarrow> sock_read_u16 s = (Inr w, s\<lparr>sk_rx := [x]\<rparr>)"
  by (simp add: sock_read_u16_def io_bind_def)

lemma request_piece:
  assumes "socks_addr_ok addr" "port \<noteq> 0" "sk_rx s = [enc_request addr port @ x]"
  shows "read_connect_request s = (Inr (socks_addr_host addr, port), s\<lparr>sk_rx := [x]\<rparr>)"
proof -
  have rx: "sk_rx s = [0x05 # 0x01 # 0x00 # hd (enc_socks_addr addr) # tl (enc_socks_addr addr) @ to_be 2 port @ x]"
    using assms(3) enc_socks_addr_split [of addr] by (simp add: enc_request_def socks_version_def)
  with assms(1,2) show ?thesis
    by (simp add: read_connect_request_def io_bind_def io_map_err_def read_host_piece socks_version_def)
qed

lemma handle_piece:
  assumes "socks_user options auth methods login user" "socks_addr_ok addr" "port \<noteq> 0"
    and "sk_rx s = [socks_handshake methods login addr port @ x]" "sk_room s = None"
  shows "socks5_handle lookup connect auth router options s =
    (let out = socks_outcome lookup connect router user (socks_addr_host addr) port in
     (fst out, s\<lparr>sk_rx := [x], sk_tx := sk_tx s @ login_replies login @ snd out\<rparr>))"
proof -
  let ?m = "if login = None then auth_no_auth else auth_user_pass"
  let ?s1 = "s\<lparr>sk_rx := [enc_login login @ enc_request addr port @ x],
    sk_tx := sk_tx s @ [socks_version, ?m]\<rparr>"
  let ?s2 = "?s1\<lparr>sk_rx := [enc_request addr port @ x],
    sk_tx := sk_tx ?s1 @ (if login = None then [] else [0x01, 0x00])\<rparr>"
  let ?s3 = "?s2\<lparr>sk_rx := [x]\<rparr>"
  have "negotiate_auth options s = (Inr ?m, ?s1)"
    using assms(4,5) by (intro negotiate_piece [OF assms(1)]) (simp_all add: socks_handshake_def)
  moreover have "socks_authenticate auth ?m options ?s1 = (Inr user, ?s2)"
    using assms(5) by (intro authenticate_piece [OF assms(1)]) simp_all
  moreover have "read_connect_request ?s2 = (Inr (socks_addr_host addr, port), ?s3)"
    by (intro request_piece [OF assms(2,3)]) simp
  ultimately have "socks5_handle lookup connect auth router options s =
      socks_route lookup connect router user (socks_addr_host addr) port ?s3"
    unfolding socks5_handle_def by (simp only: io_bind_Inr prod.case)
  also have "\<dots> = (let out = socks_outcome lookup connect router user (socks_addr_host addr) port in
     (fst out, s\<lparr>sk_rx := [x], sk_tx := sk_tx s @ login_replies login @ snd out\<rparr>))"
    using assms(5)
    by (cases login) (simp_all add: socks_route_def socks_outcome_def login_replies_def io_bind_def
      split: sum.split route_decision.split)
  finally show ?thesis .
qed

text \<open>The converse: what an accepted input must have been.\<close>

lemmas reads = sock_read_exact_Inr sock_read_u8_Inr sock_read_u16_Inr sock_write_all_pendingD

lemma send_reply_pending [dest]: "send_reply reply s = (r, t) \<Longrightarrow> pending t = pending s"
  by (auto simp: send_reply_def io_try_def io_bind_def)

lemma from_utf8_Some [dest]:
  "from_utf8 bs = Some s \<Longrightarrow> bs = bytes_of_str s \<and> utf8_valid (bytes_of_str s)"
  by (auto simp: from_utf8_def split: if_splits)

lemma read_socks_string_Inr [dest]:
  assumes "read_socks_string s = (Inr u, t)"
  shows "socks_string_ok u \<and> pending s = enc_socks_string u @ pending t"
proof -
  obtain len buf s1 where len: "sock_read_u8 s = (Inr len, s1)"
    and buf: "sock_read_exact (unat len) s1 = (Inr buf, t)" and u: "from_utf8 buf = Some u"
    using assms by (auto simp: read_socks_string_def io_simps res_simps)
  then have "length buf = unat len" "buf = bytes_of_str u" "utf8_valid (bytes_of_str u)" by blast+
  moreover from this have "length u = unat len" by simp
  ultimately show ?thesis
    using len buf unat_u8_less [of len]
    by (auto simp: socks_string_ok_def enc_socks_string_def dest!: reads)
qed

lemma negotiate_Inr:
  assumes "negotiate_auth options s = (Inr m, t)"
  obtains methods where "length methods < 256" "pending s = enc_greeting methods @ pending t"
    "if so_allow_no_auth options \<and> auth_no_auth \<in> set methods then m = auth_no_auth
     else auth_user_pass \<in> set methods \<and> m = auth_user_pass"
proof -
  obtain len methods s1 s2 s3 where
      v: "sock_read_u8 s = (Inr socks_version, s1)" and l: "sock_read_u8 s1 = (Inr len, s2)"
    and ms: "sock_read_exact (unat len) s2 = (Inr methods, s3)" and p: "pending t = pending s3"
    and m: "if so_allow_no_auth options \<and> auth_no_auth \<in> set methods then m = auth_no_auth
     else auth_user_pass \<in> set methods \<and> m = auth_user_pass"
    using assms by (auto simp: negotiate_auth_def io_simps split: if_splits)
  from ms have "length methods = unat len" by blast
  with v l ms p have "pending s = enc_greeting methods @ pending t"
    by (auto simp: enc_greeting_def dest!: reads)
  with m that [of methods] \<open>length methods = unat len\<close> unat_u8_less [of len] show thesis by simp
qed

lemma authenticate_Inr:
  assumes "socks_authenticate auth m options s = (Inr user, t)"
    and "length methods < 256"
    and "if so_allow_no_auth options \<and> auth_no_auth \<in> set methods then m = auth_no_auth
     else auth_user_pass \<in> set methods \<and> m = auth_user_pass"
  obtains login where "socks_user options auth methods login user" "pending s = enc_login login @ pending t"
proof (cases "so_allow_no_auth options \<and> auth_no_auth \<in> set methods")
  case True
  with assms that [of None] show thesis
    by (auto simp: socks_authenticate_def socks_user_def enc_login_def res_simps split: option.splits)
next
  case False
  with assms(3) have "m \<noteq> auth_no_auth" by (auto simp: auth_no_auth_def auth_user_pass_def)
  with assms(1) obtain u p s1 s2 s3 where v: "sock_read_u8 s = (Inr 1, s1)" and u: "read_socks_string s1 = (Inr u, s2)"
    and p: "read_socks_string s2 = (Inr p, s3)" and a: "auth_authenticate auth u p = Some user"
    and w: "sock_write_all [0x01, 0x00] s3 = (Inr (), t)"
    by (auto simp: socks_authenticate_def io_simps split: if_splits option.splits)
  from w have "pending t = pending s3" by blast
  with v u p have "pending s = enc_login (Some (u, p)) @ pending t" "socks_string_ok u" "socks_string_ok p"
    by (auto simp: enc_login_def dest!: reads read_socks_string_Inr)
  with a False assms that [of "Some (u, p)"] show thesis by (auto simp: socks_user_def)
qed

lemma read_host_Inr:
  assumes "read_socks_host atyp s = (Inr host, t)"
  obtains addr where "socks_addr_ok addr" "host = socks_addr_host addr" "atyp # pending s = enc_socks_addr addr @ pending t"
proof -
  consider "atyp = 0x01" | "atyp = 0x03" | "atyp = 0x04"
    using assms by (auto simp: read_socks_host_def io_simps split: if_splits)
  then show thesis
  proof cases
    case 1
    with assms obtain buf where "sock_read_exact 4 s = (Inr buf, t)" "host = show_ipv4 (from_be buf)"
      by (auto simp: read_socks_host_def io_simps)
    moreover from this have "length buf = 4" "pending s = buf @ pending t" by blast+
    ultimately show thesis using 1 by (intro that [of "SocksV4 (from_be buf)"]) simp_all
  next
    case 2
    with assms obtain len buf s1 where "sock_read_u8 s = (Inr len, s1)"
        "sock_read_exact (unat len) s1 = (Inr buf, t)" "from_utf8 buf = Some host"
      by (auto simp: read_socks_host_def io_simps res_simps)
    moreover from this have "length buf = unat len" "buf = bytes_of_str host" "utf8_valid (bytes_of_str host)"
      by blast+
    moreover from this have "length host = unat len" by simp
    ultimately show thesis using 2 unat_u8_less [of len]
      by (intro that [of "SocksDomain host"]) (auto simp: enc_socks_string_def socks_string_ok_def dest!: reads)
  next
    case 3
    with assms obtain buf where "sock_read_exact 16 s = (Inr buf, t)" "host = show_ipv6 (from_be buf)"
      by (auto simp: read_socks_host_def io_simps)
    moreover from this have "length buf = 16" "pending s = buf @ pending t" by blast+
    ultimately show thesis using 3 by (intro that [of "SocksV6 (from_be buf)"]) simp_all
  qed
qed

lemma request_Inr:
  assumes "read_connect_request s = (Inr (host, port), t)"
  obtains addr where "socks_addr_ok addr" "port \<noteq> 0" "host = socks_addr_host addr"
    "pending s = enc_request addr port @ pending t"
proof -
  obtain atyp s1 s2 s3 s4 s5 where h: "sock_read_u8 s = (Inr socks_version, s1)" "sock_read_u8 s1 = (Inr 1, s2)"
      "sock_read_u8 s2 = (Inr 0, s3)" "sock_read_u8 s3 = (Inr atyp, s4)"
    and host: "read_socks_host atyp s4 = (Inr host, s5)"
    and port: "sock_read_u16 s5 = (Inr port, t)" "port \<noteq> 0"
    using assms by (auto simp: read_connect_request_def io_simps split: if_splits)
  from host obtain addr where addr: "socks_addr_ok addr" "host = socks_addr_host addr"
      "atyp # pending s4 = enc_socks_addr addr @ pending s5"
    by (rule read_host_Inr)
  moreover from h have "pending s = [socks_version, 1, 0] @ atyp # pending s4" by (auto dest!: reads)
  moreover from port have "pending s5 = to_be 2 port @ pending t" by blast
  ultimately show thesis using that [of addr] port(2) by (simp add: enc_request_def)
qed

lemma socks5_accepted:
  assumes "socks5_handle lookup connect auth router options s = (Inr plan, t)"
  shows "\<exists>methods login addr port user.
    pending s = socks_handshake methods login addr port @ pending t \<and>
    socks_user options auth methods login user \<and> socks_addr_ok addr \<and> port \<noteq> 0 \<and>
    socks_outcome lookup connect router user (socks_addr_host addr) port = (Inr plan, socks_reply 0x00)"
proof -
  from assms obtain m s1 user s2 host port s3 where
      m: "negotiate_auth options s = (Inr m, s1)" and user: "socks_authenticate auth m options s1 = (Inr user, s2)"
    and req: "read_connect_request s2 = (Inr (host, port), s3)"
    and rest: "socks_route lookup connect router user host port s3 = (Inr plan, t)"
    by (auto simp: socks5_handle_def io_bind_eq_Inr)
  from rest have out: "socks_outcome lookup connect router user host port = (Inr plan, socks_reply 0x00)"
      and t: "pending t = pending s3"
    by (auto simp: socks_route_def socks_outcome_def io_simps split: sum.splits route_decision.splits)
  from m obtain methods where ms: "length methods < 256" "pending s = enc_greeting methods @ pending s1"
      "if so_allow_no_auth options \<and> auth_no_auth \<in> set methods then m = auth_no_auth
       else auth_user_pass \<in> set methods \<and> m = auth_user_pass"
    by (rule negotiate_Inr)
  from user ms(1,3) obtain login where "socks_user options auth methods login user" "pending s1 = enc_login login @ pending s2"
    by (rule authenticate_Inr)
  moreover from req obtain addr where "socks_addr_ok addr" "port \<noteq> 0" "host = socks_addr_host addr"
      "pending s2 = enc_request addr port @ pending s3"
    by (rule request_Inr)
  moreover have "pending s = socks_handshake methods login addr port @ pending t"
    using ms(2) t calculation by (simp add: socks_handshake_def)
  ultimately show ?thesis using out by blast
qed

section \<open>What is written back\<close>

text \<open>The answer that goes with an error; a routing error and a malformed message have none.\<close>

fun socks_refusal :: "socks_error \<Rightarrow> u8 list" where
  "socks_refusal NoAcceptableMethod = [socks_version, no_acceptable_methods]"
| "socks_refusal (UnsupportedAuthVersion v) = [0x01, 0x01]"
| "socks_refusal (InvalidCredentials u) = [0x01, 0x01]"
| "socks_refusal (UnsupportedCommand c) = socks_reply 0x07"
| "socks_refusal (UnsupportedAddressType a) = socks_reply 0x08"
| "socks_refusal PortZero = socks_reply 0x04"
| "socks_refusal (DirectFailed e) = socks_reply 0x05"
| "socks_refusal _ = []"

text \<open>
  What a client that is refused with an error may have been answered before, phase by phase:
  nothing, the chosen method, or the method and the accepted login.
\<close>

fun socks_passed :: "socks_error \<Rightarrow> u8 list set" where
  "socks_passed (Sock e) =
     {[], [socks_version, auth_no_auth], [socks_version, auth_user_pass], [socks_version, auth_user_pass, 0x01, 0x00]}"
| "socks_passed (UnsupportedVersion v) = {[]}"
| "socks_passed NoAcceptableMethod = {[]}"
| "socks_passed DefaultUserUnset = {[socks_version, auth_no_auth]}"
| "socks_passed (DefaultUserNotFound u) = {[socks_version, auth_no_auth]}"
| "socks_passed (UnsupportedAuthVersion v) = {[socks_version, auth_user_pass]}"
| "socks_passed (InvalidCredentials u) = {[socks_version, auth_user_pass]}"
| "socks_passed AuthFieldNotUtf8 = {[socks_version, auth_user_pass]}"
| "socks_passed _ = {[socks_version, auth_no_auth], [socks_version, auth_user_pass, 0x01, 0x00]}"

text \<open>
  With room to write, an operation appends \<open>oks x\<close> when it returns \<open>x\<close>, and the refusal of an
  error it fails with, which is one of \<open>errs\<close>.
\<close>

definition answers :: "'a socks_io \<Rightarrow> socks_error set \<Rightarrow> ('a \<Rightarrow> u8 list) \<Rightarrow> bool" where
  "answers m errs oks \<longleftrightarrow>
     (\<forall>s r t. m s = (r, t) \<longrightarrow> sk_room s = None \<longrightarrow> sk_room t = None \<and>
        (case r of Inl e \<Rightarrow> e \<in> errs \<and> sk_tx t = sk_tx s @ socks_refusal e
                 | Inr x \<Rightarrow> sk_tx t = sk_tx s @ oks x))"

lemma answersD:
  assumes "answers m errs oks" "m s = (r, t)" "sk_room s = None"
  shows "sk_room t = None" "r = Inl e \<Longrightarrow> e \<in> errs" "r = Inl e \<Longrightarrow> sk_tx t = sk_tx s @ socks_refusal e"
    "r = Inr x \<Longrightarrow> sk_tx t = sk_tx s @ oks x"
  using assms by (fastforce simp: answers_def)+

named_theorems answering \<open>what operations write\<close>

lemma answers_bind:
  assumes "answers m errs (\<lambda>_. [])" "\<And>x. answers (f x) errs oks"
  shows "answers (io_bind m f) errs oks"
  unfolding answers_def
proof (intro allI impI)
  fix s r t assume run: "io_bind m f s = (r, t)" and room: "sk_room s = None"
  from run show "sk_room t = None \<and>
      (case r of Inl e \<Rightarrow> e \<in> errs \<and> sk_tx t = sk_tx s @ socks_refusal e | Inr x \<Rightarrow> sk_tx t = sk_tx s @ oks x)"
  proof (cases rule: io_bindE)
    case (fail e)
    with answersD [OF assms(1) fail(1) room] show ?thesis by simp
  next
    case (step x s')
    note first = answersD [OF assms(1) step(1) room]
    with answersD [OF assms(2) step(2) first(1)] show ?thesis by (simp split: sum.split)
  qed
qed

lemma answers_reads:
  "range Sock \<subseteq> errs \<Longrightarrow> answers (on_sock sock_read_u8) errs (\<lambda>_. [])"
  "range Sock \<subseteq> errs \<Longrightarrow> answers (on_sock sock_read_u16) errs (\<lambda>_. [])"
  "range Sock \<subseteq> errs \<Longrightarrow> answers (on_sock (sock_read_exact n)) errs (\<lambda>_. [])"
  by (auto simp: answers_def io_map_err_def read_keeps_tx split: prod.splits sum.splits)

lemmas answers_after_read [answering] = answers_reads [THEN answers_bind]

lemma answers_pure [answering]:
  "[] = oks x \<Longrightarrow> answers (io_return x) errs oks"
  "socks_refusal e = [] \<Longrightarrow> e \<in> errs \<Longrightarrow> answers (io_fail e) errs oks"
  "(\<And>e. r = Inl e \<Longrightarrow> socks_refusal e = [] \<and> e \<in> errs) \<Longrightarrow> (\<And>x. r = Inr x \<Longrightarrow> oks x = []) \<Longrightarrow>
     answers (io_lift r) errs oks"
  by (auto simp: answers_def split: sum.split)

lemma answers_write [answering]:
  "bs = oks x \<Longrightarrow> answers (io_bind (on_sock (sock_write_all bs)) (\<lambda>_. io_return x)) errs oks"
  "bs = socks_refusal e \<Longrightarrow> e \<in> errs \<Longrightarrow>
     answers (io_bind (on_sock (sock_write_all bs)) (\<lambda>_. io_fail e)) errs oks"
  "socks_reply rep = oks y \<Longrightarrow> answers (io_bind (send_reply rep) (\<lambda>_. io_return y)) errs oks"
  "socks_reply rep = socks_refusal e \<Longrightarrow> e \<in> errs \<Longrightarrow>
     answers (io_bind (send_reply rep) (\<lambda>_. io_fail e)) errs oks"
  by (auto simp: answers_def io_bind_def io_map_err_def)

lemma answers_cases [answering]:
  "(b \<Longrightarrow> answers m errs oks) \<Longrightarrow> (\<not> b \<Longrightarrow> answers n errs oks) \<Longrightarrow> answers (if b then m else n) errs oks"
  "(opt = None \<Longrightarrow> answers m errs oks) \<Longrightarrow> (\<And>x. opt = Some x \<Longrightarrow> answers (f x) errs oks) \<Longrightarrow>
     answers (case opt of None \<Rightarrow> m | Some x \<Rightarrow> f x) errs oks"
  by (auto split: option.split)

lemma answers_string:
  "range Sock \<subseteq> errs \<and> AuthFieldNotUtf8 \<in> errs \<Longrightarrow> answers read_socks_string errs (\<lambda>_. [])"
  unfolding read_socks_string_def by (intro answering) (auto simp: ok_or_def split: option.splits)

lemma answers_host:
  "range Sock \<subseteq> errs \<and> DomainNotUtf8 \<in> errs \<and> range UnsupportedAddressType \<subseteq> errs \<Longrightarrow>
     answers (read_socks_host atyp) errs (\<lambda>_. [])"
  unfolding read_socks_host_def by (intro answering) (auto simp: ok_or_def split: option.splits)

lemmas answers_after_parts [answering] = answers_string [THEN answers_bind] answers_host [THEN answers_bind]

text \<open>The phases of a handshake that has been answered \<open>passed\<close>.\<close>

abbreviation refused_after :: "u8 list \<Rightarrow> socks_error set" where
  "refused_after passed \<equiv> {e. passed \<in> socks_passed e}"

lemma answers_negotiate: "answers (negotiate_auth options) (refused_after []) (\<lambda>m. [socks_version, m])"
  unfolding negotiate_auth_def by (intro answering) auto

lemma answers_default_user:
  "answers (socks_authenticate auth auth_no_auth options) (refused_after [socks_version, auth_no_auth]) (\<lambda>_. [])"
  unfolding socks_authenticate_def if_P [OF refl]
  by (intro answering) (auto simp: ok_or_def split: option.splits)

lemma answers_login:
  "answers (socks_authenticate auth auth_user_pass options) (refused_after [socks_version, auth_user_pass])
     (\<lambda>_. [0x01, 0x00])"
proof -
  have "auth_user_pass \<noteq> auth_no_auth" by (simp add: auth_no_auth_def auth_user_pass_def)
  then show ?thesis
    unfolding socks_authenticate_def by (simp only: if_False) (intro answering; auto)
qed

abbreviation refused_request :: "socks_error set" where
  "refused_request \<equiv> refused_after [socks_version, auth_no_auth] \<inter>
     refused_after [socks_version, auth_user_pass, 0x01, 0x00]"

lemma answers_request: "answers read_connect_request refused_request (\<lambda>_. [])"
  unfolding read_connect_request_def by (intro answering) auto

lemma answers_route:
  "answers (socks_route lookup connect router user host port) refused_request (\<lambda>_. socks_reply 0x00)"
  unfolding socks_route_def
  by (auto intro!: answering split: sum.split route_decision.split)

lemma answers_requested:
  "answers (io_bind read_connect_request (\<lambda>(host, port). socks_route lookup connect router user host port))
     refused_request (\<lambda>_. socks_reply 0x00)"
  by (rule answers_bind [OF answers_request]) (auto intro: answers_route split: prod.split)

lemma negotiated_method:
  "negotiate_auth options s = (Inr m, t) \<Longrightarrow> m = auth_no_auth \<or> m = auth_user_pass"
  by (erule negotiate_Inr) (auto split: if_splits)

section \<open>Properties\<close>

text \<open>
  How the client's bytes are cut into segments makes no difference: the result, the bytes
  written back and the bytes left unread are the same for every segmentation of one stream.
\<close>

theorem socks5_segments:
  assumes "same_stream s t"
  shows "fst (socks5_handle lookup connect auth router options s) =
      fst (socks5_handle lookup connect auth router options t) \<and>
    same_stream (snd (socks5_handle lookup connect auth router options s))
      (snd (socks5_handle lookup connect auth router options t))"
  using blind_socks5_handle assms by (rule segment_blindD)

text \<open>
  C31. Every client that follows RFC 1928 and RFC 1929 (any offered methods, a login as the
  options ask for, a CONNECT to an IPv4, IPv6 or domain address) is routed with its own user and
  exactly its host and port, is sent the negotiation answers and then the reply of the outcome,
  and what it sent after the request is left unread for the relay.
\<close>

theorem socks5_accepts:
  assumes "socks_user options auth methods login user" "socks_addr_ok addr" "port \<noteq> 0"
    and "pending s = socks_handshake methods login addr port @ rest" "sk_room s = None"
    and "socks_outcome lookup connect router user (socks_addr_host addr) port = (result, reply)"
    and "socks5_handle lookup connect auth router options s = (r, t)"
  shows "r = result \<and> pending t = rest \<and> sk_tx t = sk_tx s @ login_replies login @ reply"
proof -
  have "sk_rx (one_piece s) = [socks_handshake methods login addr port @ rest]" "sk_room (one_piece s) = None"
    using assms(4,5) by (simp_all add: one_piece_def)
  from handle_piece [OF assms(1-3) this, of lookup connect router]
  have "socks5_handle lookup connect auth router options (one_piece s) =
      (result, (one_piece s)\<lparr>sk_rx := [rest], sk_tx := sk_tx s @ login_replies login @ reply\<rparr>)"
    by (simp add: assms(6) one_piece_def)
  with segment_blindD [OF blind_socks5_handle one_piece_stream, of lookup connect auth router options s] assms(7)
  show ?thesis by (auto simp: same_stream_def same_rest_def)
qed

text \<open>
  C7. Conversely a relay starts only on such a handshake: whatever arrives, if the handler gives
  a relay then the bytes consumed are an encoded handshake, of a user with valid credentials (or
  the default user where no authentication is allowed and was offered), and the relay is the one
  that routing chooses for that user, host and port.
\<close>

theorem socks5_only_accepts:
  assumes "socks5_handle lookup connect auth router options s = (Inr plan, t)"
  shows "\<exists>methods login addr port user.
    pending s = socks_handshake methods login addr port @ pending t \<and>
    socks_user options auth methods login user \<and> socks_addr_ok addr \<and> port \<noteq> 0 \<and>
    socks_outcome lookup connect router user (socks_addr_host addr) port = (Inr plan, socks_reply 0x00)"
  using assms by (rule socks5_accepted)

text \<open>
  C32. As long as the client can be written to, a refused connection is told exactly what the
  protocol asks for: the code of its error after the answers of the phases such an error comes
  after, and never that the CONNECT succeeded; a routing error is not answered at all. An accepted
  connection is told its method, for a login that it is accepted, and then success.
\<close>

theorem socks5_refusals:
  assumes "socks5_handle lookup connect auth router options s = (r, t)" "sk_room s = None"
  shows "case r of
      Inl e \<Rightarrow> \<exists>passed \<in> socks_passed e. sk_tx t = sk_tx s @ passed @ socks_refusal e
    | Inr plan \<Rightarrow> \<exists>passed \<in> {[socks_version, auth_no_auth], [socks_version, auth_user_pass, 0x01, 0x00]}.
        sk_tx t = sk_tx s @ passed @ socks_reply 0x00"
  using assms(1) unfolding socks5_handle_def
proof (cases rule: io_bindE)
  case (fail e)
  from answersD [OF answers_negotiate fail(1) assms(2)] fail show ?thesis by force
next
  case (step m s1)
  note chosen = answersD [OF answers_negotiate step(1) assms(2)]
  from negotiated_method [OF step(1)] obtain ok where
    login: "answers (socks_authenticate auth m options) (refused_after [socks_version, m]) (\<lambda>_. ok)"
    and ok: "m = auth_no_auth \<and> ok = [] \<or> m = auth_user_pass \<and> ok = [0x01, 0x00]"
    using answers_default_user answers_login by metis
  from step(2) show ?thesis
  proof (cases rule: io_bindE)
    case (fail e)
    from answersD [OF login fail(1) chosen(1)] fail chosen(4) show ?thesis by force
  next
    case (step user s2)
    note user = answersD [OF login step(1) chosen(1)]
    from answersD [OF answers_requested step(2) user(1)] user(4) chosen(4) ok show ?thesis
      by (auto split: sum.split)
  qed
qed

section \<open>Witnesses\<close>

definition demo_socket :: "u8 list list \<Rightarrow> socket" where
  "demo_socket segs = \<lparr>sk_rx = segs, sk_end = EndOfStream, sk_tx = [], sk_room = None\<rparr>"

definition demo_options :: socks5_options where
  "demo_options = \<lparr>so_allow_no_auth = False, so_default_user = None\<rparr>"

definition demo_auth :: auth_store where
  "demo_auth = [''u'' \<mapsto> demo_user]"

abbreviation demo_socks :: "relay_plan socks_io" where
  "demo_socks \<equiv> socks5_handle (\<lambda>_ _. Inl ''down'') (\<lambda>_ _. Inl ''unreachable'') demo_auth
     (demo_router RemoteForProxy) demo_options"

lemma demo_utf8: "utf8_valid (bytes_of_str ''u'')" "utf8_valid (bytes_of_str ''p'')" "utf8_valid (bytes_of_str ''x'')"
  by code_simp+

lemma demo_socks_user: "socks_user demo_options demo_auth [0x02] (Some (''u'', ''p'')) demo_user"
  using demo_utf8
  by (simp add: socks_user_def demo_options_def demo_auth_def socks_string_ok_def auth_user_pass_def
      auth_authenticate_def demo_user_def)

lemma demo_socks_outcome:
  "socks_outcome lookup connect (demo_router RemoteForProxy) demo_user ''x'' 80 =
     (Inr (RelayGrpc ''b'' ''x'' 80 []), socks_reply 0x00)"
  by (simp add: socks_outcome_def demo_decide)

definition demo_bytes :: "u8 list" where
  "demo_bytes = socks_handshake [0x02] (Some (''u'', ''p'')) (SocksDomain ''x'') 80"

lemma demo_refused: "demo_socks (demo_socket [[5, 1, 9]]) =
    (Inl NoAcceptableMethod, (demo_socket [[]])\<lparr>sk_tx := [socks_version, no_acceptable_methods]\<rparr>)"
  by (simp add: socks5_handle_def negotiate_auth_def demo_options_def auth_user_pass_def socks_version_def
      io_bind_def io_map_err_def demo_socket_def)

theorem socks5_segments_witness:
  "fst (demo_socks (demo_socket [[5], [], [1], [9]])) = Inl NoAcceptableMethod"
proof -
  have "same_stream (demo_socket [[5], [], [1], [9]]) (demo_socket [[5, 1, 9]])"
    by (simp add: same_stream_def same_rest_def pending_def demo_socket_def)
  from socks5_segments [OF this, of "\<lambda>_ _. Inl ''down''" "\<lambda>_ _. Inl ''unreachable''" demo_auth
      "demo_router RemoteForProxy" demo_options] show ?thesis
    by (simp add: demo_refused)
qed

theorem socks5_accepts_witness:
  "fst (demo_socks (demo_socket [demo_bytes @ [22]])) = Inr (RelayGrpc ''b'' ''x'' 80 []) \<and>
   pending (snd (demo_socks (demo_socket [demo_bytes @ [22]]))) = [22]"
proof -
  let ?s = "demo_socket [demo_bytes @ [22]]"
  obtain r t where run: "demo_socks ?s = (r, t)" by (cases "demo_socks ?s")
  have "pending ?s = socks_handshake [0x02] (Some (''u'', ''p'')) (SocksDomain ''x'') 80 @ [22]" "sk_room ?s = None"
    by (simp_all add: demo_socket_def pending_def demo_bytes_def)
  from socks5_accepts [OF demo_socks_user _ _ this _ run] demo_utf8 demo_socks_outcome run
  show ?thesis by (simp add: socks_string_ok_def)
qed

lemma demo_socks_run:
  "demo_socks (demo_socket [demo_bytes @ [22]]) = (Inr (RelayGrpc ''b'' ''x'' 80 []),
     (demo_socket [demo_bytes @ [22]])\<lparr>sk_rx := [[22]], sk_tx := login_replies (Some (''u'', ''p'')) @ socks_reply 0x00\<rparr>)"
  using demo_utf8 demo_socks_outcome
    handle_piece [OF demo_socks_user, of "SocksDomain ''x''" 80 "demo_socket [demo_bytes @ [22]]" "[22]" "\<lambda>_ _. Inl ''down''"
      "\<lambda>_ _. Inl ''unreachable''" "demo_router RemoteForProxy"]
  by (simp add: socks_string_ok_def demo_socket_def demo_bytes_def)

theorem socks5_only_accepts_witness:
  "\<exists>methods login addr port user. demo_bytes @ [22] = socks_handshake methods login addr port @ [22] \<and>
     socks_user demo_options demo_auth methods login user \<and>
     socks_outcome (\<lambda>_ _. Inl ''down'') (\<lambda>_ _. Inl ''unreachable'') (demo_router RemoteForProxy) user
       (socks_addr_host addr) port = (Inr (RelayGrpc ''b'' ''x'' 80 []), socks_reply 0x00)"
  using socks5_only_accepts [OF demo_socks_run] by (simp add: pending_def demo_socket_def) blast

theorem socks5_refusals_witness:
  "demo_socks (demo_socket [[5, 1, 9]]) =
     (Inl NoAcceptableMethod, (demo_socket [[]])\<lparr>sk_tx := [socks_version, no_acceptable_methods]\<rparr>) \<and>
   (\<exists>passed \<in> socks_passed NoAcceptableMethod.
      [socks_version, no_acceptable_methods] = passed @ socks_refusal NoAcceptableMethod)"
proof -
  have "sk_room (demo_socket [[5, 1, 9]]) = None" "sk_tx (demo_socket [[5, 1, 9]]) = []"
    by (simp_all add: demo_socket_def)
  with socks5_refusals [OF demo_refused] demo_refused show ?thesis by auto
qed

end
