(* ===== verification/Ingress_Http.thy ===== *)
theory Ingress_Http
  imports Router Socket Rust_Str
begin

text \<open>
  \<open>client/src/ingress_http.rs\<close>: one connection to the HTTP proxy up to the relay: a bounded
  header, its parsing, \<open>Basic\<close> authentication, CONNECT and absolute-form requests, and the
  request that is sent on. The base64 decoder of the \<open>base64\<close> crate, the resolver and the network
  are parameters.
\<close>

section \<open>Reading the header\<close>

datatype http_error =
    Http_Sock sock_error
  | HeaderClosed
  | HeaderTooLarge
  | HeaderNotUtf8
  | MissingTerminator
  | MissingRequestLine
  | MissingMethod
  | MissingTarget
  | MissingVersion
  | MalformedRequestLine
  | MalformedHeader
  | MissingProxyAuth
  | UnsupportedAuthScheme
  | InvalidBase64
  | AuthNotUtf8
  | AuthWithoutColon
  | InvalidProxyCredentials string
  | NotAbsoluteForm
  | UnsupportedUriScheme string
  | InvalidAuthority
  | InvalidIpv6Authority
  | InvalidIpv6Port
  | InvalidPortNumber
  | Http_Routing route_error
  | Http_DirectFailed string

type_synonym 'a http_io = "(socket, http_error, 'a) io"

definition max_header_size :: nat where "max_header_size = 64 * 1024"

definition header_end :: "u8 list" where
  "header_end = [0x0D, 0x0A, 0x0D, 0x0A]"

function read_header_loop :: "u8 list \<Rightarrow> u8 list http_io" where
  "read_header_loop buf s =
     (if length buf < max_header_size then
        (case io_map_err Http_Sock (sock_read 1) s of
           (Inl e, s') \<Rightarrow> (Inl e, s')
         | (Inr [], s') \<Rightarrow> (Inl HeaderClosed, s')
         | (Inr (one # _), s') \<Rightarrow>
             let buf' = buf @ [one] in
             if suffix header_end buf' then (Inr buf', s') else read_header_loop buf' s')
      else (Inl HeaderTooLarge, s))"
  by pat_completeness auto
termination
  by (relation "measure (\<lambda>(buf, s). max_header_size - length buf)") auto

declare read_header_loop.simps [simp del]

definition read_header :: "u8 list http_io" where
  "read_header = read_header_loop []"

section \<open>Parsing the request\<close>

record request_parts =
  rp_method :: string
  rp_target :: string
  rp_version :: string
  rp_headers :: "(string \<times> string) list"

fun parse_header_lines :: "string list \<Rightarrow> http_error + (string \<times> string) list" where
  "parse_header_lines [] = Inr []"
| "parse_header_lines (line # lines) =
     (case split_once (CHR '':'') line of
        None \<Rightarrow> Inl MalformedHeader
      | Some (name, value) \<Rightarrow>
          rbind (parse_header_lines lines) (\<lambda>headers. Inr ((str_trim name, str_trim value) # headers)))"

definition parse_request_line :: "string \<Rightarrow> http_error + string \<times> string \<times> string" where
  "parse_request_line request_line =
     (case split_whitespace request_line of
        [] \<Rightarrow> Inl MissingMethod
      | [method] \<Rightarrow> Inl MissingTarget
      | [method, target] \<Rightarrow> Inl MissingVersion
      | method # target # version # others \<Rightarrow>
          if others \<noteq> [] \<or> \<not> prefix ''HTTP/'' version then Inl MalformedRequestLine
          else Inr (method, target, version))"

definition parse_request :: "u8 list \<Rightarrow> http_error + request_parts" where
  "parse_request header =
     rbind (ok_or HeaderNotUtf8 (from_utf8 header)) (\<lambda>text.
     rbind (ok_or MissingTerminator (strip_suffix (crlf @ crlf) text)) (\<lambda>text.
     case split_crlf text of
       [] \<Rightarrow> Inl MissingRequestLine
     | request_line # lines \<Rightarrow>
         rbind (parse_request_line request_line) (\<lambda>(method, target, version).
         rbind (parse_header_lines lines) (\<lambda>headers.
         Inr \<lparr>rp_method = method, rp_target = target, rp_version = version, rp_headers = headers\<rparr>))))"

definition http_authenticate ::
    "(string \<Rightarrow> u8 list option) \<Rightarrow> request_parts \<Rightarrow> auth_store \<Rightarrow> http_error + user_profile" where
  "http_authenticate decode request auth =
     rbind (ok_or MissingProxyAuth
       (find (\<lambda>(name, _). eq_ignore_ascii_case name ''Proxy-Authorization'') (rp_headers request)))
       (\<lambda>(_, value).
     let value = str_trim value in
     rbind (ok_or UnsupportedAuthScheme
       (case strip_prefix ''Basic '' value of Some e \<Rightarrow> Some e | None \<Rightarrow> strip_prefix ''basic '' value))
       (\<lambda>encoded.
     rbind (ok_or InvalidBase64 (decode encoded)) (\<lambda>decoded.
     rbind (ok_or AuthNotUtf8 (from_utf8 decoded)) (\<lambda>decoded.
     rbind (ok_or AuthWithoutColon (split_once (CHR '':'') decoded)) (\<lambda>(username, password).
     ok_or (InvalidProxyCredentials username) (auth_authenticate auth username password))))))"

definition parse_authority :: "string \<Rightarrow> u16 \<Rightarrow> http_error + string \<times> u16" where
  "parse_authority authority default_port =
     (if authority = [] \<or> CHR ''@'' \<in> set authority then Inl InvalidAuthority
      else
        (case strip_prefix ''['' authority of
           Some rest \<Rightarrow>
             rbind (ok_or InvalidIpv6Authority (split_once (CHR '']'') rest)) (\<lambda>(host, after).
             rbind (if after = [] then Inr default_port
                    else
                      rbind (ok_or InvalidIpv6Port (strip_prefix '':'' after)) (\<lambda>digits.
                      ok_or InvalidPortNumber (parse_u16 digits))) (\<lambda>port.
             Inr (host, port)))
         | None \<Rightarrow>
             rbind (case rsplit_once (CHR '':'') authority of
                      Some (host, port) \<Rightarrow>
                        if port \<noteq> [] \<and> list_all is_ascii_digit port then
                          rbind (ok_or InvalidPortNumber (parse_u16 port)) (\<lambda>port. Inr (host, port))
                        else Inr (authority, default_port)
                    | None \<Rightarrow> Inr (authority, default_port)) (\<lambda>(host, port).
             if host = [] \<or> port = 0 \<or> list_ex is_ascii_whitespace host then Inl InvalidAuthority
             else Inr (host, port))))"

record absolute_uri =
  au_scheme :: string
  au_host :: string
  au_port :: "u16 option"
  au_path :: string

definition parse_absolute_uri :: "string \<Rightarrow> http_error + absolute_uri" where
  "parse_absolute_uri target =
     rbind (ok_or NotAbsoluteForm (split_once_str ''://'' target)) (\<lambda>(scheme, rest).
     if \<not> eq_ignore_ascii_case scheme ''http'' then Inl (UnsupportedUriScheme scheme)
     else
       let (authority, path) =
             (case str_find (CHR ''/'') rest of
                Some idx \<Rightarrow> (take idx rest, drop idx rest)
              | None \<Rightarrow> (rest, ''/'')) in
       rbind (parse_authority authority 80) (\<lambda>(host, port).
       Inr \<lparr>au_scheme = to_ascii_lowercase scheme, au_host = host, au_port = Some port, au_path = path\<rparr>))"

section \<open>The request sent on\<close>

definition proxy_header :: "string \<Rightarrow> bool" where
  "proxy_header name \<longleftrightarrow>
     eq_ignore_ascii_case name ''Proxy-Authorization'' \<or> eq_ignore_ascii_case name ''Proxy-Connection''"

fun copy_headers :: "(string \<times> string) list \<Rightarrow> bool \<Rightarrow> string \<times> bool" where
  "copy_headers [] has_host = ([], has_host)"
| "copy_headers ((name, value) # headers) has_host =
     (if proxy_header name then copy_headers headers has_host
      else
        (case copy_headers headers (has_host \<or> eq_ignore_ascii_case name ''Host'') of
           (out, found) \<Rightarrow> (name @ '': '' @ value @ crlf @ out, found)))"

definition host_header :: "absolute_uri \<Rightarrow> string" where
  "host_header uri =
     (case au_port uri of
        None \<Rightarrow> au_host uri
      | Some port \<Rightarrow> if port = 80 then au_host uri else au_host uri @ '':'' @ show_dec (unat port))"

definition rewrite_absolute_request :: "request_parts \<Rightarrow> absolute_uri \<Rightarrow> u8 list" where
  "rewrite_absolute_request request uri =
     (case copy_headers (rp_headers request) False of
        (copied, has_host) \<Rightarrow>
          bytes_of_str
            (rp_method request @ '' '' @ au_path uri @ '' '' @ rp_version request @ crlf @ copied @
             (if has_host then [] else ''Host: '' @ host_header uri @ crlf) @ crlf))"

section \<open>The handler\<close>

definition http_response :: "string \<Rightarrow> bool \<Rightarrow> u8 list" where
  "http_response status auth_required =
     bytes_of_str (''HTTP/1.1 '' @ status @ crlf @
       (if auth_required then ''Proxy-Authenticate: Basic realm=\"ech-grpc\"'' @ crlf else []) @
       ''Content-Length: 0'' @ crlf @ crlf)"

definition write_response :: "string \<Rightarrow> bool \<Rightarrow> unit http_io" where
  "write_response status auth_required =
     io_map_err Http_Sock (sock_write_all (http_response status auth_required))"

definition http_decide ::
    "lookup_host \<Rightarrow> 'ch router \<Rightarrow> user_profile \<Rightarrow> string \<Rightarrow> u16 \<Rightarrow> route_decision http_io" where
  "http_decide lookup router user host port =
     io_lift (case decide lookup router user host port of Inl e \<Rightarrow> Inl (Http_Routing e) | Inr d \<Rightarrow> Inr d)"

definition http_relay ::
    "(string \<Rightarrow> u16 \<Rightarrow> string + unit) \<Rightarrow> route_decision \<Rightarrow> string \<Rightarrow> u16 \<Rightarrow> u8 list \<Rightarrow> relay_plan http_io" where
  "http_relay connect decision host port first_payload =
     (case decision of
        Direct connect_host \<Rightarrow>
          (case connect connect_host port of
             Inl err \<Rightarrow> io_fail (Http_DirectFailed err)
           | Inr _ \<Rightarrow> io_return (RelayDirect connect_host port first_payload))
      | Proxy pool \<Rightarrow> io_return (RelayGrpc pool host port first_payload))"

definition http_connect ::
    "lookup_host \<Rightarrow> (string \<Rightarrow> u16 \<Rightarrow> string + unit) \<Rightarrow> 'ch router \<Rightarrow> user_profile \<Rightarrow> request_parts \<Rightarrow>
     relay_plan http_io" where
  "http_connect lookup connect router user request =
     io_bind (io_lift (parse_authority (rp_target request) 443)) (\<lambda>(host, port).
     io_bind (http_decide lookup router user host port) (\<lambda>decision.
     io_bind (write_response ''200 Connection Established'' False) (\<lambda>_.
     http_relay connect decision host port [])))"

definition http_absolute ::
    "lookup_host \<Rightarrow> (string \<Rightarrow> u16 \<Rightarrow> string + unit) \<Rightarrow> 'ch router \<Rightarrow> user_profile \<Rightarrow> request_parts \<Rightarrow>
     relay_plan http_io" where
  "http_absolute lookup connect router user request =
     io_bind (io_lift (parse_absolute_uri (rp_target request))) (\<lambda>absolute.
     let port = (case au_port absolute of
                   Some p \<Rightarrow> p | None \<Rightarrow> if au_scheme absolute = ''https'' then 443 else 80);
         first_payload = rewrite_absolute_request request absolute in
     io_bind (http_decide lookup router user (au_host absolute) port) (\<lambda>decision.
     http_relay connect decision (au_host absolute) port first_payload))"

definition http_handle ::
    "lookup_host \<Rightarrow> (string \<Rightarrow> u16 \<Rightarrow> string + unit) \<Rightarrow> (string \<Rightarrow> u8 list option) \<Rightarrow> auth_store \<Rightarrow>
     'ch router \<Rightarrow> relay_plan http_io" where
  "http_handle lookup connect decode auth router =
     io_bind read_header (\<lambda>header.
     io_bind (io_lift (parse_request header)) (\<lambda>request.
     case http_authenticate decode request auth of
       Inl err \<Rightarrow>
         io_bind (write_response ''407 Proxy Authentication Required'' True) (\<lambda>_. io_fail err)
     | Inr user \<Rightarrow>
         if eq_ignore_ascii_case (rp_method request) ''CONNECT''
         then http_connect lookup connect router user request
         else http_absolute lookup connect router user request))"

section \<open>Segments\<close>

lemma blind_read_header_loop:
  "same_stream s t \<Longrightarrow> fst (read_header_loop buf s) = fst (read_header_loop buf t) \<and>
     same_stream (snd (read_header_loop buf s)) (snd (read_header_loop buf t))"
proof (induction buf s arbitrary: t rule: read_header_loop.induct)
  case (1 buf s)
  have "segment_blind (io_map_err Http_Sock (sock_read 1))" by (intro blind)
  from segment_blindD [OF this "1.prems"] obtain r s' t' where
      run: "io_map_err Http_Sock (sock_read 1) s = (r, s')" "io_map_err Http_Sock (sock_read 1) t = (r, t')"
    and same: "same_stream s' t'"
    by (metis prod.collapse)
  show ?case
  proof (cases "length buf < max_header_size")
    case True
    show ?thesis
    proof (cases "\<exists>one bs. r = Inr (one # bs)")
      case cont: True
      then obtain one bs where "r = Inr (one # bs)" by blast
      with "1.IH" [OF True run(1) [symmetric], of "one # bs" one bs, OF _ _ refl] True run same show ?thesis
        by (simp add: read_header_loop.simps [of buf] Let_def del: suffix_snoc)
    next
      case False
      then have "r = Inr [] \<or> (\<exists>e. r = Inl e)" by (metis list.exhaust sum.exhaust)
      with True run same show ?thesis by (auto simp: read_header_loop.simps [of buf])
    qed
  qed (simp add: read_header_loop.simps [of buf] "1.prems")
qed

lemma blind_read_header [blind]: "segment_blind read_header"
  unfolding read_header_def by (simp add: segment_blind_def blind_read_header_loop)

lemma blind_write_response [blind]: "segment_blind (write_response status auth_required)"
  unfolding write_response_def by (intro blind)

lemma blind_http_relay [blind]: "segment_blind (http_relay connect decision host port first)"
  unfolding http_relay_def by (cases decision) (simp_all add: blind split: sum.split)

lemma blind_http_connect [blind]: "segment_blind (http_connect lookup connect router user request)"
  unfolding http_connect_def http_decide_def by (intro blind)

lemma blind_http_absolute [blind]: "segment_blind (http_absolute lookup connect router user request)"
  unfolding http_absolute_def http_decide_def Let_def by (intro blind)

lemma blind_http_handle: "segment_blind (http_handle lookup connect decode auth router)"
  unfolding http_handle_def by (intro blind)


section \<open>What is read\<close>

definition closing_error :: "socket \<Rightarrow> http_error" where
  "closing_error s = (case sk_end s of EndOfStream \<Rightarrow> HeaderClosed | Fault e \<Rightarrow> Http_Sock (ReadFailed e))"

definition header_result :: "u8 list \<Rightarrow> http_error \<Rightarrow> http_error + u8 list \<Rightarrow> u8 list \<Rightarrow> bool" where
  "header_result input closing r rest =
     (case r of
        Inr h \<Rightarrow> input = h @ rest \<and> length h \<le> 65536 \<and> suffix header_end h \<and> \<not> sublist header_end (butlast h)
      | Inl e \<Rightarrow>
          if e = HeaderTooLarge
          then \<exists>w. input = w @ rest \<and> length w = 65536 \<and> \<not> sublist header_end w
          else e = closing \<and> rest = [] \<and> length input < 65536 \<and> \<not> sublist header_end input)"

lemma sublist_snoc_iff: "sublist xs (ys @ [y]) \<longleftrightarrow> suffix xs (ys @ [y]) \<or> sublist xs ys"
  using sublist_Cons_right [of "rev xs" y "rev ys"]
  by (simp add: suffix_to_prefix del: suffix_snoc flip: sublist_rev_left)
    (metis rev.simps(2) rev_rev_ident sublist_rev)

lemma read_header_loop_result:
  "length buf \<le> 65536 \<Longrightarrow> \<not> sublist header_end buf \<Longrightarrow> read_header_loop buf s = (r, t) \<Longrightarrow>
     header_result (buf @ pending s) (closing_error s) r (pending t)"
proof (induction buf s arbitrary: r t rule: read_header_loop.induct)
  case (1 buf s)
  show ?case
  proof (cases "length buf < max_header_size")
    case False
    with "1.prems" show ?thesis
      by (auto simp: read_header_loop.simps [of buf] max_header_size_def header_result_def)
  next
    case True
    obtain q s' where read: "sock_read 1 s = (q, s')" by (cases "sock_read 1 s")
    from read zero_less_one show ?thesis
    proof (cases rule: sock_read_cases)
      case at_end
      with "1.prems" read True show ?thesis
        by (auto simp: read_header_loop.simps [of buf] io_map_err_def header_result_def closing_error_def
            max_header_size_def split: sock_end.splits)
    next
      case (bytes bs)
      then obtain one where one: "bs = [one]" by (cases bs) auto
      have "closing_error s' = closing_error s"
        using bytes(5) by (simp add: closing_error_def same_rest_def)
      moreover have run: "(if suffix header_end (buf @ [one]) then (Inr (buf @ [one]), s')
          else read_header_loop (buf @ [one]) s') = (r, t)"
        using "1.prems" read True bytes(1) one
        by (simp add: read_header_loop.simps [of buf] io_map_err_def Let_def del: suffix_snoc)
      moreover have "io_map_err Http_Sock (sock_read 1) s = (Inr [one], s')"
        using read bytes(1) one by (simp add: io_map_err_def)
      moreover have "suffix header_end (buf @ [one]) \<or>
          header_result ((buf @ [one]) @ pending s') (closing_error s') r (pending t)"
        using "1.IH" [OF True _ _ _ refl, of "Inr [one]" s' "[one]" one "[]" r t] "1.prems"(2) True calculation(2,3)
        by (auto simp: sublist_snoc_iff max_header_size_def simp del: suffix_snoc split: if_splits)
      ultimately show ?thesis
        using "1.prems"(2) True bytes(4) one
        by (cases "suffix header_end (buf @ [one])")
          (auto simp: header_result_def max_header_size_def simp del: suffix_snoc)
    qed
  qed
qed

lemma sock_read_1_piece: "sk_rx s = [b # x] \<Longrightarrow> sock_read 1 s = (Inr [b], s\<lparr>sk_rx := [x]\<rparr>)"
  by (simp add: sock_read_def)

lemma read_header_loop_piece:
  "sk_rx s = [w @ rest] \<Longrightarrow> w \<noteq> [] \<Longrightarrow> length (buf @ w) \<le> 65536 \<Longrightarrow> suffix header_end (buf @ w) \<Longrightarrow>
     \<not> sublist header_end (butlast (buf @ w)) \<Longrightarrow>
     read_header_loop buf s = (Inr (buf @ w), s\<lparr>sk_rx := [rest]\<rparr>)"
proof (induction w arbitrary: buf s)
  case (Cons b w)
  then have read: "io_map_err Http_Sock (sock_read 1) s = (Inr [b], s\<lparr>sk_rx := [w @ rest]\<rparr>)"
    by (simp add: sock_read_1_piece [simplified] io_map_err_def)
  have len: "length buf < max_header_size" using Cons.prems(3) by (simp add: max_header_size_def)
  show ?case
  proof (cases "w = []")
    case True
    with Cons.prems read len show ?thesis
      by (simp add: read_header_loop.simps [of buf] Let_def del: suffix_snoc)
  next
    case False
    have "\<not> suffix header_end (buf @ [b])"
    proof
      assume "suffix header_end (buf @ [b])"
      then have "sublist header_end (buf @ [b])" by (rule suffix_imp_sublist)
      moreover have "butlast (buf @ b # w) = (buf @ [b]) @ butlast w" using False by (simp add: butlast_append)
      ultimately have "sublist header_end (butlast (buf @ b # w))"
        by (metis prefixI prefix_imp_sublist sublist_order.order_trans)
      with Cons.prems(5) show False by simp
    qed
    with Cons.prems read len False Cons.IH [of "s\<lparr>sk_rx := [w @ rest]\<rparr>" "buf @ [b]"] show ?thesis
      by (simp add: read_header_loop.simps [of buf] Let_def del: suffix_snoc)
  qed
qed simp

definition http_header_ok :: "u8 list \<Rightarrow> bool" where
  "http_header_ok header \<longleftrightarrow>
     length header \<le> 65536 \<and> suffix header_end header \<and> \<not> sublist header_end (butlast header)"

lemma read_header_piece:
  assumes "sk_rx s = [header @ rest]" "http_header_ok header"
  shows "read_header s = (Inr header, s\<lparr>sk_rx := [rest]\<rparr>)"
proof -
  have "header \<noteq> []" using assms(2) by (auto simp: http_header_ok_def header_end_def)
  with read_header_loop_piece [of s header rest "[]"] assms show ?thesis
    by (simp add: read_header_def http_header_ok_def)
qed

lemma read_header_Inr:
  assumes "read_header s = (Inr header, t)"
  shows "pending s = header @ pending t \<and> http_header_ok header"
  using read_header_loop_result [of "[]" s "Inr header" t] assms
  by (simp add: read_header_def header_result_def http_header_ok_def header_end_def)

section \<open>The answer to a request\<close>

text \<open>The outcome of a request whose header is complete, as a result and the bytes written back.\<close>

definition relay_for ::
    "(string \<Rightarrow> u16 \<Rightarrow> string + unit) \<Rightarrow> route_decision \<Rightarrow> string \<Rightarrow> u16 \<Rightarrow> u8 list \<Rightarrow> http_error + relay_plan" where
  "relay_for connect decision host port first =
     (case decision of
        Direct h \<Rightarrow> (case connect h port of Inl e \<Rightarrow> Inl (Http_DirectFailed e) | Inr _ \<Rightarrow> Inr (RelayDirect h port first))
      | Proxy b \<Rightarrow> Inr (RelayGrpc b host port first))"

definition reply_407 :: "u8 list" where
  "reply_407 = http_response ''407 Proxy Authentication Required'' True"

definition reply_200 :: "u8 list" where
  "reply_200 = http_response ''200 Connection Established'' False"

definition http_outcome ::
    "lookup_host \<Rightarrow> (string \<Rightarrow> u16 \<Rightarrow> string + unit) \<Rightarrow> (string \<Rightarrow> u8 list option) \<Rightarrow> auth_store \<Rightarrow>
     'ch router \<Rightarrow> u8 list \<Rightarrow> (http_error + relay_plan) \<times> u8 list" where
  "http_outcome lookup connect decode auth router header =
     (case parse_request header of
        Inl e \<Rightarrow> (Inl e, [])
      | Inr request \<Rightarrow>
          (case http_authenticate decode request auth of
             Inl e \<Rightarrow> (Inl e, reply_407)
           | Inr user \<Rightarrow>
               if eq_ignore_ascii_case (rp_method request) ''CONNECT'' then
                 (case parse_authority (rp_target request) 443 of
                    Inl e \<Rightarrow> (Inl e, [])
                  | Inr (host, port) \<Rightarrow>
                      (case decide lookup router user host port of
                         Inl e \<Rightarrow> (Inl (Http_Routing e), [])
                       | Inr d \<Rightarrow> (relay_for connect d host port [], reply_200)))
               else
                 (case parse_absolute_uri (rp_target request) of
                    Inl e \<Rightarrow> (Inl e, [])
                  | Inr uri \<Rightarrow>
                      (case decide lookup router user (au_host uri) (the (au_port uri)) of
                         Inl e \<Rightarrow> (Inl (Http_Routing e), [])
                       | Inr d \<Rightarrow>
                           (relay_for connect d (au_host uri) (the (au_port uri))
                              (rewrite_absolute_request request uri), [])))))"

lemma parse_absolute_uri_port: "parse_absolute_uri target = Inr uri \<Longrightarrow> \<exists>p. au_port uri = Some p"
  by (auto simp: parse_absolute_uri_def res_simps Let_def split: option.splits if_splits)

lemma http_relay_outcome: "http_relay connect d host port first s = (relay_for connect d host port first, s)"
  by (simp add: http_relay_def relay_for_def split: route_decision.split sum.split)

lemma write_response_room:
  "sk_room s = None \<Longrightarrow> write_response status b s = (Inr (), s\<lparr>sk_tx := sk_tx s @ http_response status b\<rparr>)"
  by (simp add: write_response_def io_map_err_def)

lemma io_bind_lift [simp]:
  "io_bind (io_lift r) f s = (case r of Inl e \<Rightarrow> (Inl e, s) | Inr x \<Rightarrow> f x s)"
  by (cases r) (simp_all add: io_bind_def)

lemma http_connect_outcome:
  assumes "sk_room s = None"
  shows "http_connect lookup connect router user request s =
    (case parse_authority (rp_target request) 443 of
       Inl e \<Rightarrow> (Inl e, s)
     | Inr (host, port) \<Rightarrow>
         (case decide lookup router user host port of
            Inl e \<Rightarrow> (Inl (Http_Routing e), s)
          | Inr d \<Rightarrow> (relay_for connect d host port [], s\<lparr>sk_tx := sk_tx s @ reply_200\<rparr>)))"
  using assms
  by (simp add: http_connect_def http_decide_def write_response_room http_relay_outcome reply_200_def io_bind_def [of "write_response _ _"]
      split: sum.split prod.split)

lemma http_absolute_outcome:
  "http_absolute lookup connect router user request s =
    (case parse_absolute_uri (rp_target request) of
       Inl e \<Rightarrow> (Inl e, s)
     | Inr uri \<Rightarrow>
         (case decide lookup router user (au_host uri) (the (au_port uri)) of
            Inl e \<Rightarrow> (Inl (Http_Routing e), s)
          | Inr d \<Rightarrow> (relay_for connect d (au_host uri) (the (au_port uri)) (rewrite_absolute_request request uri), s)))"
  by (auto simp: http_absolute_def http_decide_def http_relay_outcome Let_def
      dest: parse_absolute_uri_port split: sum.split)

lemma http_handle_header:
  assumes "read_header s = (Inr header, s')" "sk_room s' = None"
  shows "http_handle lookup connect decode auth router s =
    (fst (http_outcome lookup connect decode auth router header),
     s'\<lparr>sk_tx := sk_tx s' @ snd (http_outcome lookup connect decode auth router header)\<rparr>)"
  using assms
  by (simp add: http_handle_def http_outcome_def http_connect_outcome http_absolute_outcome write_response_room
      reply_407_def io_bind_def [of "write_response _ _"] split: sum.split prod.split)

section \<open>The bound on the header\<close>

text \<open>
  C33. Reading a header always ends: with the shortest beginning of the input that ends in an empty
  line, if that has at most 64 KiB; else with an error, after 64 KiB without one or when the client
  closes or fails before; and no byte after the header is consumed.
\<close>

theorem http_header_bounds:
  "header_result (pending s) (closing_error s) (fst (read_header s)) (pending (snd (read_header s)))"
proof -
  have "\<not> sublist header_end []" by (simp add: header_end_def)
  then show ?thesis
    using read_header_loop_result [of "[]" s, OF _ _ prod.collapse [symmetric]]
    by (simp add: read_header_def)
qed

section \<open>A concrete request\<close>

definition demo_header :: "u8 list" where
  "demo_header = bytes_of_str (''CONNECT x:80 HTTP/1.1'' @ crlf @ ''Proxy-Authorization: Basic dTpw'' @ crlf @ crlf)"

lemma demo_header_ok: "http_header_ok demo_header"
  unfolding http_header_ok_def by code_simp

lemma demo_request: "parse_request demo_header = Inr \<lparr>rp_method = ''CONNECT'', rp_target = ''x:80'',
    rp_version = ''HTTP/1.1'', rp_headers = [(''Proxy-Authorization'', ''Basic dTpw'')]\<rparr>"
  by code_simp

lemma demo_authority: "parse_authority ''x:80'' 443 = Inr (''x'', 80)"
  by code_simp

section \<open>Accepted and refused requests\<close>

lemma split_once_Some: "split_once c s = Some (a, b) \<Longrightarrow> s = a @ c # b \<and> c \<notin> set a"
  by (induction c s arbitrary: a rule: split_once.induct) (auto split: if_splits)

lemma strip_prefix_Some: "strip_prefix p s = Some r \<longleftrightarrow> s = p @ r"
  by (auto simp: strip_prefix_def prefix_def)

lemma http_handle_Inr:
  assumes "http_handle lookup connect decode auth router s = (Inr plan, t)"
  obtains header where "pending s = header @ pending t" "http_header_ok header"
    "fst (http_outcome lookup connect decode auth router header) = Inr plan"
proof -
  obtain header s' where h: "read_header s = (Inr header, s')"
    using assms by (auto simp: http_handle_def io_bind_eq_Inr)
  have w: "write_response status b x = (Inr u, y) \<Longrightarrow> pending y = pending x" for status b x u y
    by (auto simp: write_response_def io_simps)
  have "fst (http_outcome lookup connect decode auth router header) = Inr plan \<and> pending t = pending s'"
    using assms h
    by (auto simp: http_handle_def http_outcome_def http_connect_def http_decide_def http_relay_outcome
        http_absolute_outcome io_bind_eq_Inr split: sum.splits prod.splits if_splits dest!: w)
  with read_header_Inr [OF h] that [of header] show thesis by simp
qed

lemma http_authenticate_Inr:
  assumes "http_authenticate decode request auth = Inr user"
  obtains name v encoded username password where
    "(name, v) \<in> set (rp_headers request)" "eq_ignore_ascii_case name ''Proxy-Authorization''"
    "str_trim v = ''Basic '' @ encoded \<or> str_trim v = ''basic '' @ encoded"
    "decode encoded = Some (bytes_of_str (username @ '':'' @ password))"
    "auth_authenticate auth username password = Some user"
proof -
  obtain name v encoded decoded username password where
    f: "find (\<lambda>(name, _). eq_ignore_ascii_case name ''Proxy-Authorization'') (rp_headers request) = Some (name, v)"
    and e: "(case strip_prefix ''Basic '' (str_trim v) of Some e \<Rightarrow> Some e
             | None \<Rightarrow> strip_prefix ''basic '' (str_trim v)) = Some encoded"
    and d: "decode encoded = Some decoded" "from_utf8 decoded = Some (username @ CHR '':'' # password)"
    and u: "auth_authenticate auth username password = Some user"
    using assms by (auto simp: http_authenticate_def res_simps Let_def dest!: split_once_Some)
  from f have "(name, v) \<in> set (rp_headers request)" "eq_ignore_ascii_case name ''Proxy-Authorization''"
    by (auto simp: find_Some_iff in_set_conv_nth)
  moreover from e have "str_trim v = ''Basic '' @ encoded \<or> str_trim v = ''basic '' @ encoded"
    by (auto simp: strip_prefix_Some split: option.splits simp: strip_prefix_Some)
  moreover from d have "decode encoded = Some (bytes_of_str (username @ '':'' @ password))"
    by (auto simp: from_utf8_def split: if_splits) (metis bytes_of_str_of_bytes bytes_of_str_append)
  ultimately show thesis using u that by blast
qed

fun is_auth_error :: "http_error \<Rightarrow> bool" where
  "is_auth_error MissingProxyAuth \<longleftrightarrow> True"
| "is_auth_error UnsupportedAuthScheme \<longleftrightarrow> True"
| "is_auth_error InvalidBase64 \<longleftrightarrow> True"
| "is_auth_error AuthNotUtf8 \<longleftrightarrow> True"
| "is_auth_error AuthWithoutColon \<longleftrightarrow> True"
| "is_auth_error (InvalidProxyCredentials username) \<longleftrightarrow> True"
| "is_auth_error _ \<longleftrightarrow> False"

lemma read_header_loop_rest: "read_header_loop buf s = (r, t) \<Longrightarrow> same_rest s t"
proof (induction buf s arbitrary: r t rule: read_header_loop.induct)
  case (1 buf s)
  obtain q s' where read: "sock_read 1 s = (q, s')" by (cases "sock_read 1 s")
  then have keep: "same_rest s s'" by (rule sock_read_cases) auto
  show ?case
    using "1.prems" "1.IH" read keep
    by (auto simp: read_header_loop.simps [of buf] io_map_err_def Let_def
        intro: same_rest_trans [OF keep] simp del: suffix_snoc split: if_splits sum.splits list.splits)
qed

lemma read_header_rest: "read_header s = (r, t) \<Longrightarrow> same_rest s t"
  by (simp add: read_header_def read_header_loop_rest)

lemma http_authenticate_error: "http_authenticate decode request auth = Inl e \<Longrightarrow> is_auth_error e"
  by (auto simp: http_authenticate_def res_simps Let_def)

lemma parse_header_lines_error: "parse_header_lines lines = Inl e \<Longrightarrow> \<not> is_auth_error e"
  by (induction lines arbitrary: e) (auto simp: res_simps split: option.splits)

lemma parse_request_line_error: "parse_request_line line = Inl e \<Longrightarrow> \<not> is_auth_error e"
  by (auto simp: parse_request_line_def split: list.splits if_splits)

lemma parse_request_error: "parse_request header = Inl e \<Longrightarrow> \<not> is_auth_error e"
  by (auto simp: parse_request_def res_simps neq_Nil_conv split: list.splits
      dest: parse_header_lines_error parse_request_line_error)

lemma parse_authority_error: "parse_authority authority port = Inl e \<Longrightarrow> \<not> is_auth_error e"
  by (auto simp: parse_authority_def res_simps split: if_splits option.splits)

lemma parse_absolute_uri_error: "parse_absolute_uri target = Inl e \<Longrightarrow> \<not> is_auth_error e"
  by (auto simp: parse_absolute_uri_def res_simps Let_def dest: parse_authority_error split: if_splits option.splits)

lemma read_header_error:
  assumes "read_header s = (Inl e, t)"
  shows "\<not> is_auth_error e"
  using read_header_loop_result [of "[]" s "Inl e" t] assms
  by (auto simp: read_header_def header_result_def header_end_def closing_error_def split: if_splits sock_end.splits)

lemma relay_for_error: "relay_for connect d host port first = Inl e \<Longrightarrow> \<not> is_auth_error e"
  by (auto simp: relay_for_def split: route_decision.splits sum.splits)

lemma http_replies_differ: "reply_407 \<noteq> reply_200" "reply_407 \<noteq> []" "reply_200 \<noteq> []"
  by code_simp+

lemma http_outcome_407:
  assumes "http_outcome lookup connect decode auth router header = (r, w)"
  shows "w \<in> {[], reply_200, reply_407} \<and> (w = reply_407 \<longleftrightarrow> (\<exists>e. r = Inl e \<and> is_auth_error e))"
  using assms http_replies_differ
  by (auto simp: http_outcome_def split: sum.splits if_splits prod.splits
      dest: parse_request_error http_authenticate_error parse_authority_error parse_absolute_uri_error relay_for_error)

section \<open>Properties\<close>

lemma http_outcome_Inr:
  assumes "fst (http_outcome lookup connect decode auth router header) = Inr plan"
    and "parse_request header = Inr request" "http_authenticate decode request auth = Inr user"
  obtains host port first decision where
    "if eq_ignore_ascii_case (rp_method request) ''CONNECT''
     then parse_authority (rp_target request) 443 = Inr (host, port) \<and> first = []
     else \<exists>uri. parse_absolute_uri (rp_target request) = Inr uri \<and> host = au_host uri \<and>
       au_port uri = Some port \<and> first = rewrite_absolute_request request uri"
    "decide lookup router user host port = Inr decision"
    "relay_for connect decision host port first = Inr plan"
proof (cases "eq_ignore_ascii_case (rp_method request) ''CONNECT''")
  case True
  with assms obtain host port decision where "parse_authority (rp_target request) 443 = Inr (host, port)"
      "decide lookup router user host port = Inr decision" "relay_for connect decision host port [] = Inr plan"
    by (auto simp: http_outcome_def split: sum.splits)
  with True that [of host port "[]" decision] show thesis by simp
next
  case False
  with assms obtain uri decision where uri: "parse_absolute_uri (rp_target request) = Inr uri"
      "decide lookup router user (au_host uri) (the (au_port uri)) = Inr decision"
      "relay_for connect decision (au_host uri) (the (au_port uri)) (rewrite_absolute_request request uri) = Inr plan"
    by (auto simp: http_outcome_def split: sum.splits)
  with parse_absolute_uri_port [OF uri(1)] False
    that [of "au_host uri" "the (au_port uri)" "rewrite_absolute_request request uri" decision]
  show thesis by auto
qed

lemma http_accepted:
  assumes "http_handle lookup connect decode auth router s = (Inr plan, t)"
  shows "\<exists>header request user host port first decision.
    pending s = header @ pending t \<and> http_header_ok header \<and> parse_request header = Inr request \<and>
    http_authenticate decode request auth = Inr user \<and>
    (if eq_ignore_ascii_case (rp_method request) ''CONNECT''
     then parse_authority (rp_target request) 443 = Inr (host, port) \<and> first = []
     else \<exists>uri. parse_absolute_uri (rp_target request) = Inr uri \<and> host = au_host uri \<and>
       au_port uri = Some port \<and> first = rewrite_absolute_request request uri) \<and>
    decide lookup router user host port = Inr decision \<and>
    relay_for connect decision host port first = Inr plan"
proof -
  from assms obtain header where h: "pending s = header @ pending t" "http_header_ok header"
      "fst (http_outcome lookup connect decode auth router header) = Inr plan"
    by (rule http_handle_Inr)
  from h(3) obtain request user where req: "parse_request header = Inr request"
      "http_authenticate decode request auth = Inr user"
    by (auto simp: http_outcome_def split: sum.splits)
  with http_outcome_Inr [OF h(3)] h(1,2) show ?thesis by metis
qed

text \<open>
  C8. A relay starts only for a complete header with valid \<open>Basic\<close> credentials in a
  \<open>Proxy-Authorization\<close> header; it goes where routing sends that user for the host and port of
  the request target, with nothing to send first for CONNECT and the rewritten request
  otherwise; and what follows the header is left unread for the relay.
\<close>

theorem http_only_accepts:
  assumes "http_handle lookup connect decode auth router s = (Inr plan, t)"
  shows "\<exists>header request name v encoded username password user host port first decision.
    pending s = header @ pending t \<and> http_header_ok header \<and> parse_request header = Inr request \<and>
    (name, v) \<in> set (rp_headers request) \<and> eq_ignore_ascii_case name ''Proxy-Authorization'' \<and>
    (str_trim v = ''Basic '' @ encoded \<or> str_trim v = ''basic '' @ encoded) \<and>
    decode encoded = Some (bytes_of_str (username @ '':'' @ password)) \<and>
    auth_authenticate auth username password = Some user \<and>
    (if eq_ignore_ascii_case (rp_method request) ''CONNECT''
     then parse_authority (rp_target request) 443 = Inr (host, port) \<and> first = []
     else \<exists>uri. parse_absolute_uri (rp_target request) = Inr uri \<and> host = au_host uri \<and>
       au_port uri = Some port \<and> first = rewrite_absolute_request request uri) \<and>
    decide lookup router user host port = Inr decision \<and>
    relay_for connect decision host port first = Inr plan"
proof -
  from http_accepted [OF assms] obtain header request user host port first decision where
    accepted: "pending s = header @ pending t \<and> http_header_ok header \<and> parse_request header = Inr request"
    and user: "http_authenticate decode request auth = Inr user"
    and relay: "(if eq_ignore_ascii_case (rp_method request) ''CONNECT''
       then parse_authority (rp_target request) 443 = Inr (host, port) \<and> first = []
       else \<exists>uri. parse_absolute_uri (rp_target request) = Inr uri \<and> host = au_host uri \<and>
         au_port uri = Some port \<and> first = rewrite_absolute_request request uri) \<and>
      decide lookup router user host port = Inr decision \<and>
      relay_for connect decision host port first = Inr plan" by blast
  from http_authenticate_Inr [OF user] obtain name v encoded username password where
      "(name, v) \<in> set (rp_headers request)" "eq_ignore_ascii_case name ''Proxy-Authorization''"
      "str_trim v = ''Basic '' @ encoded \<or> str_trim v = ''basic '' @ encoded"
      "decode encoded = Some (bytes_of_str (username @ '':'' @ password))"
      "auth_authenticate auth username password = Some user" .
  with accepted relay show ?thesis by blast
qed

text \<open>
  C34. While the client can be written to, it is asked for credentials (407) exactly when the
  request fails to authenticate; every other refusal is silent or comes after a 200.
\<close>

theorem http_407_exactly:
  assumes "http_handle lookup connect decode auth router s = (r, t)" "sk_room s = None"
  shows "\<exists>w \<in> {[], reply_200, reply_407}. sk_tx t = sk_tx s @ w \<and>
    (w = reply_407 \<longleftrightarrow> (\<exists>e. r = Inl e \<and> is_auth_error e))"
proof -
  obtain q s' where run: "read_header s = (q, s')" by (cases "read_header s")
  have keep: "sk_room s' = None" "sk_tx s' = sk_tx s"
    using read_header_rest [OF run] assms(2) by (simp_all add: same_rest_def)
  show ?thesis
  proof (cases q)
    case (Inl e)
    then have "r = Inl e" "t = s'" using assms(1) run by (simp_all add: http_handle_def)
    with keep read_header_error run Inl http_replies_differ show ?thesis by auto
  next
    case (Inr header)
    obtain r' w where out: "http_outcome lookup connect decode auth router header = (r', w)"
      by (cases "http_outcome lookup connect decode auth router header")
    with http_handle_header [OF run [unfolded Inr] keep(1), of lookup connect decode auth router] assms(1)
    have "r = r'" "sk_tx t = sk_tx s @ w" using keep(2) by auto
    with http_outcome_407 [OF out] show ?thesis by blast
  qed
qed

text \<open>
  CONNECT is answered with 200 before the direct connection is attempted: when that fails the
  client has already been told that the tunnel is established.
\<close>

theorem http_connect_early_success:
  assumes "pending s = header @ rest" "http_header_ok header" "sk_room s = None"
    and "parse_request header = Inr request" "http_authenticate decode request auth = Inr user"
    and "eq_ignore_ascii_case (rp_method request) ''CONNECT''"
    and "parse_authority (rp_target request) 443 = Inr (host, port)"
    and "decide lookup router user host port = Inr (Direct h)" "connect h port = Inl err"
    and "http_handle lookup connect decode auth router s = (r, t)"
  shows "r = Inl (Http_DirectFailed err) \<and> sk_tx t = sk_tx s @ reply_200"
proof -
  have "sk_rx (one_piece s) = [header @ rest]" using assms(1) by (simp add: one_piece_def)
  from read_header_piece [OF this assms(2)] assms(3-9)
  have "http_handle lookup connect decode auth router (one_piece s) =
      (Inl (Http_DirectFailed err), (one_piece s)\<lparr>sk_rx := [rest], sk_tx := sk_tx s @ reply_200\<rparr>)"
    by (simp add: http_handle_header http_outcome_def relay_for_def one_piece_def)
  with segment_blindD [OF blind_http_handle one_piece_stream, of lookup connect decode auth router s] assms(10)
  show ?thesis by (simp add: same_stream_def same_rest_def)
qed
section \<open>Witnesses\<close>

definition demo_decode :: "string \<Rightarrow> u8 list option" where
  "demo_decode e = (if e = ''dTpw'' then Some (bytes_of_str ''u:p'') else None)"

definition demo_users :: auth_store where
  "demo_users = [''u'' \<mapsto> demo_user]"

definition demo_parts :: request_parts where
  "demo_parts = \<lparr>rp_method = ''CONNECT'', rp_target = ''x:80'', rp_version = ''HTTP/1.1'',
     rp_headers = [(''Proxy-Authorization'', ''Basic dTpw'')]\<rparr>"

definition demo_client :: socket where
  "demo_client = \<lparr>sk_rx = [demo_header @ [22]], sk_end = EndOfStream, sk_tx = [], sk_room = None\<rparr>"

lemma demo_login: "http_authenticate demo_decode demo_parts demo_users = Inr demo_user"
  by code_simp

lemma demo_method: "eq_ignore_ascii_case (rp_method demo_parts) ''CONNECT''"
  by code_simp

lemma demo_read: "read_header demo_client = (Inr demo_header, demo_client\<lparr>sk_rx := [[22]]\<rparr>)"
  by (rule read_header_piece) (simp_all add: demo_client_def demo_header_ok)

lemma demo_http_run:
  "http_handle lookup connect demo_decode demo_users (demo_router RemoteForProxy) demo_client =
     (Inr (RelayGrpc ''b'' ''x'' 80 []), demo_client\<lparr>sk_rx := [[22]], sk_tx := reply_200\<rparr>)"
proof -
  have "sk_room (demo_client\<lparr>sk_rx := [[22]]\<rparr>) = None" by (simp add: demo_client_def)
  from http_handle_header [OF demo_read this, of lookup connect demo_decode demo_users "demo_router RemoteForProxy"]
  show ?thesis
    using demo_method
    by (simp add: http_outcome_def demo_request demo_authority demo_login demo_decide relay_for_def flip: demo_parts_def)
      (simp add: demo_client_def demo_parts_def demo_authority demo_decide relay_for_def)
qed

theorem http_only_accepts_witness:
  "\<exists>name v username password user. (name, v) \<in> set (rp_headers demo_parts) \<and>
     eq_ignore_ascii_case name ''Proxy-Authorization'' \<and>
     auth_authenticate demo_users username password = Some user"
proof -
  have "pending demo_client = demo_header @ [22]"
      "pending (demo_client\<lparr>sk_rx := [[22]], sk_tx := reply_200\<rparr>) = [22]"
    by (simp_all add: demo_client_def pending_def)
  with http_only_accepts [OF demo_http_run, of "\<lambda>_ _. Inl []" "\<lambda>_ _. Inl []"]
    demo_request [folded demo_parts_def]
  show ?thesis by auto
qed

theorem http_407_exactly_witness:
  "sk_tx (snd (http_handle (\<lambda>_ _. Inl []) (\<lambda>_ _. Inl []) demo_decode demo_users (demo_router RemoteForProxy) demo_client))
     \<in> {[], reply_200}"
proof -
  have "sk_room demo_client = None" "sk_tx demo_client = []" by (simp_all add: demo_client_def)
  with http_407_exactly [OF demo_http_run] show ?thesis by (simp add: demo_http_run)
qed

definition demo_cn_router :: "unit router" where
  "demo_cn_router = (demo_router SystemDns)\<lparr>rt_china_ip := \<lparr>cs_v4 = [(0, 9)], cs_v6 = []\<rparr>\<rparr>"

definition demo_lookup :: lookup_host where
  "demo_lookup host port = Inr [\<lparr>sa_ip = V4 1, sa_port = port\<rparr>]"

lemma demo_direct: "decide demo_lookup demo_cn_router demo_user ''x'' 80 = Inr (Direct ''0.0.0.1'')"
  by code_simp

theorem http_connect_early_success_witness:
  "\<exists>t. http_handle demo_lookup (\<lambda>_ _. Inl ''refused'') demo_decode demo_users demo_cn_router demo_client =
     (Inl (Http_DirectFailed ''refused''), t) \<and> sk_tx t = reply_200"
proof -
  obtain r t where run: "http_handle demo_lookup (\<lambda>_ _. Inl ''refused'') demo_decode demo_users demo_cn_router
      demo_client = (r, t)" by (metis surj_pair)
  have s: "pending demo_client = demo_header @ [22]" "sk_room demo_client = None" "sk_tx demo_client = []"
    by (simp_all add: demo_client_def pending_def)
  from http_connect_early_success [OF s(1) demo_header_ok s(2) demo_request [folded demo_parts_def] demo_login
      demo_method _ demo_direct _ run] s(3) run show ?thesis
    by (simp add: demo_parts_def demo_authority)
qed

end
