(* ===== verification/Http_Rewrite.thy ===== *)
theory Http_Rewrite
  imports Ingress_Http
begin

text \<open>
  The request that \<open>rewrite_absolute_request\<close> of \<open>client/src/ingress_http.rs\<close> sends on is a
  request again: parsed as the proxy itself parses, it is the original with the path as target and
  without the headers meant for the proxy. The lemmas are about what the string operations of the
  parser keep: valid UTF-8, the absence of line ends and of white space.
\<close>

section \<open>Valid UTF-8\<close>

definition utf8_str :: "string \<Rightarrow> bool" where
  "utf8_str s \<longleftrightarrow> utf8_valid (bytes_of_str s)"

text \<open>The encoding of one character.\<close>

fun utf8_char :: "u8 list \<Rightarrow> bool" where
  "utf8_char [a] \<longleftrightarrow> a \<le> 0x7F"
| "utf8_char [a, b] \<longleftrightarrow> 0xC2 \<le> a \<and> a \<le> 0xDF \<and> utf8_cont b"
| "utf8_char [a, b, c] \<longleftrightarrow> 0xE0 \<le> a \<and> a \<le> 0xEF \<and> utf8_second a b \<and> utf8_cont c"
| "utf8_char [a, b, c, d] \<longleftrightarrow> 0xF0 \<le> a \<and> a \<le> 0xF4 \<and> utf8_second a b \<and> utf8_cont c \<and> utf8_cont d"
| "utf8_char _ \<longleftrightarrow> False"

lemma lead_ranges:
  fixes a :: u8
  shows "0xC2 \<le> a \<Longrightarrow> \<not> a \<le> 0x7F" "0xE0 \<le> a \<Longrightarrow> \<not> a \<le> 0x7F" "0xF0 \<le> a \<Longrightarrow> \<not> a \<le> 0x7F"
    "0xE0 \<le> a \<Longrightarrow> \<not> a \<le> 0xDF" "0xF0 \<le> a \<Longrightarrow> \<not> a \<le> 0xDF" "0xF0 \<le> a \<Longrightarrow> \<not> a \<le> 0xEF"
  by (simp_all add: word_le_nat_alt)

lemma utf8_valid_char: "utf8_char c \<Longrightarrow> utf8_valid (c @ r) \<longleftrightarrow> utf8_valid r"
  by (induction c rule: utf8_char.induct) (simp_all add: lead_ranges)

lemma utf8_valid_first:
  assumes "utf8_valid (a # xs)"
  obtains c r where "a # xs = c @ r" "utf8_char c" "utf8_valid r"
proof -
  consider "a \<le> 0x7F" | "\<not> a \<le> 0x7F" "0xC2 \<le> a" "a \<le> 0xDF" | "0xE0 \<le> a" "a \<le> 0xEF" | "0xF0 \<le> a" "a \<le> 0xF4"
    using assms by (simp only: utf8_valid.simps split: if_splits) blast+
  then show thesis
  proof cases
    case 1
    with assms that [of "[a]" xs] show thesis by simp
  next
    case 2
    with assms obtain b ys where "xs = b # ys" "utf8_cont b" "utf8_valid ys" by (cases xs) simp_all
    with 2 that [of "[a, b]" ys] show thesis by simp
  next
    case 3
    note no = lead_ranges(2,4) [OF 3(1)]
    from 3 no assms obtain b c ys where "xs = b # c # ys" "utf8_second a b" "utf8_cont c" "utf8_valid ys"
      by (cases xs; cases "tl xs") simp_all
    with 3 that [of "[a, b, c]" ys] show thesis by simp
  next
    case 4
    note no = lead_ranges(3,5,6) [OF 4(1)]
    from 4 no assms obtain b c d ys where "xs = b # c # d # ys" "utf8_second a b" "utf8_cont c" "utf8_cont d"
        "utf8_valid ys"
      by (cases xs; cases "tl xs"; cases "tl (tl xs)") simp_all
    with 4 that [of "[a, b, c, d]" ys] show thesis by simp
  qed
qed

lemma utf8_char_nonempty: "utf8_char c \<Longrightarrow> c \<noteq> []"
  by auto

lemma utf8_char_tl: "utf8_char c \<Longrightarrow> b \<in> set (tl c) \<Longrightarrow> utf8_cont b"
proof (induction c rule: utf8_char.induct)
  have *: "utf8_second a b \<Longrightarrow> utf8_cont b" for a b
    by (auto simp: utf8_second_def utf8_cont_def word_le_nat_alt split: if_splits)
  case (3 a b c) with * show ?case by auto
next
  have *: "utf8_second a b \<Longrightarrow> utf8_cont b" for a b
    by (auto simp: utf8_second_def utf8_cont_def word_le_nat_alt split: if_splits)
  case (4 a b c d) with * show ?case by auto
qed auto

lemma utf8_valid_induct [consumes 1, case_names Nil char]:
  assumes "utf8_valid s" "P []" "\<And>c r. utf8_char c \<Longrightarrow> utf8_valid r \<Longrightarrow> P r \<Longrightarrow> P (c @ r)"
  shows "P s"
  using assms(1)
proof (induction s rule: length_induct)
  case (1 s)
  show ?case
  proof (cases s)
    case (Cons a xs)
    with 1(2) obtain c r where s: "s = c @ r" "utf8_char c" "utf8_valid r"
      by (metis utf8_valid_first)
    moreover from this have "length r < length s" using utf8_char_nonempty [of c] by simp
    ultimately show ?thesis using 1(1) assms(3) by blast
  qed (simp add: assms(2))
qed

lemma utf8_valid_append [simp]: "utf8_valid a \<Longrightarrow> utf8_valid (a @ b) \<longleftrightarrow> utf8_valid b"
  by (induction a rule: utf8_valid_induct) (simp_all add: utf8_valid_char)

lemma utf8_valid_cut:
  "utf8_valid s \<Longrightarrow> s = a @ b # bs \<Longrightarrow> \<not> utf8_cont b \<Longrightarrow> utf8_valid a"
proof (induction s arbitrary: a rule: utf8_valid_induct)
  case (char c r)
  show ?case
  proof (cases "a = []")
    case nonempty: False
    show ?thesis
    proof (cases "length a < length c")
      case True
      with char.prems(1) have "c = a @ b # drop (Suc (length a)) c"
        by (metis append_eq_append_conv_if append_take_drop_id id_take_nth_drop less_imp_le nth_append_length nth_append)
      with nonempty have "b \<in> set (tl c)" by (metis in_set_conv_decomp tl_append2)
      with char show ?thesis by (blast dest: utf8_char_tl)
    next
      case False
      with char.prems(1) obtain a' where "a = c @ a'" "r = a' @ b # bs"
        by (auto simp: append_eq_append_conv2 Cons_eq_append_conv)
      with char show ?thesis by (simp add: utf8_valid_char)
    qed
  qed simp
qed simp

lemma utf8_char_hd: "utf8_char c \<Longrightarrow> \<not> utf8_cont (hd c)"
  by (induction c rule: utf8_char.induct) (auto simp: utf8_cont_def word_le_nat_alt)

lemma utf8_valid_hd: "utf8_valid (b # bs) \<Longrightarrow> \<not> utf8_cont b"
  by (metis append_eq_Cons_conv list.sel(1) utf8_char_hd utf8_char_nonempty utf8_valid_first)

lemma utf8_cut:
  assumes "utf8_str (a @ w @ b)" "utf8_str w" "w \<noteq> []"
  shows "utf8_str a \<and> utf8_str b"
proof -
  from assms(3) obtain c cs where w: "bytes_of_str w = c # cs"
    by (cases w) (auto simp: bytes_of_str_def)
  with assms(2) have "\<not> utf8_cont c" by (simp add: utf8_str_def utf8_valid_hd)
  with assms(1) w have a: "utf8_valid (bytes_of_str a)"
    by (auto simp: utf8_str_def intro: utf8_valid_cut)
  with assms(1,2) show ?thesis by (simp add: utf8_str_def)
qed

lemma utf8_append: "utf8_str a \<Longrightarrow> utf8_str b \<Longrightarrow> utf8_str (a @ b)"
  by (simp add: utf8_str_def)

text \<open>ASCII characters are characters.\<close>

definition ascii :: "char \<Rightarrow> bool" where
  "ascii c \<longleftrightarrow> (of_char c :: nat) < 128"

lemma ascii_byte: "ascii c \<Longrightarrow> byte_of_char c \<le> 0x7F"
  by (simp add: ascii_def byte_of_char_def word_le_nat_alt unat_of_nat)

lemma utf8_ascii: "list_all ascii s \<Longrightarrow> utf8_str s"
  by (induction s) (simp_all add: utf8_str_def bytes_of_str_def ascii_byte)

lemma utf8_cut_ascii: "utf8_str (a @ c # b) \<Longrightarrow> ascii c \<Longrightarrow> utf8_str a \<and> utf8_str b"
  using utf8_cut [of a "[c]" b] utf8_ascii [of "[c]"] by simp

section \<open>White space\<close>

lemma utf8_ws: "w \<in> set unicode_ws \<Longrightarrow> utf8_str w"
proof -
  have "list_all (\<lambda>w. utf8_valid (bytes_of_str w)) unicode_ws" by code_simp
  then show "w \<in> set unicode_ws \<Longrightarrow> utf8_str w" by (simp add: list_all_iff utf8_str_def)
qed

lemma ws_len_split:
  assumes "ws_len s \<noteq> 0"
  obtains w where "w \<in> set unicode_ws" "s = w @ drop (ws_len s) s" "length w = ws_len s"
  using assms by (auto simp: ws_len_def find_Some_iff prefix_def split: option.splits) (use nth_mem in blast)

lemma ws_len_end_split:
  assumes "ws_len_end s \<noteq> 0"
  obtains w where "w \<in> set unicode_ws" "s = take (length s - ws_len_end s) s @ w"
  using assms
  by (auto simp: ws_len_end_def find_Some_iff suffix_def split: option.splits) (use nth_mem in blast)

lemma trim_start_cut: "\<exists>w. s = w @ trim_start s \<and> (utf8_str s \<longrightarrow> utf8_str (trim_start s))"
proof (induction s rule: trim_start.induct)
  case (1 s)
  show ?case
  proof (cases "ws_len s = 0")
    case False
    then obtain w where w: "w \<in> set unicode_ws" "s = w @ drop (ws_len s) s" by (rule ws_len_split)
    from 1 [OF False] obtain u where "drop (ws_len s) s = u @ trim_start (drop (ws_len s) s)"
      "utf8_str (drop (ws_len s) s) \<longrightarrow> utf8_str (trim_start (drop (ws_len s) s))" by blast
    moreover have "trim_start s = trim_start (drop (ws_len s) s)"
      using False by (simp add: trim_start.simps [of s])
    moreover have "utf8_str s \<longrightarrow> utf8_str (drop (ws_len s) s)"
      using utf8_cut [of "[]" w] utf8_ws [OF w(1)] unicode_ws_nonempty [OF w(1)] w(2) by (metis append_Nil)
    ultimately show ?thesis using w(2) by (metis append.assoc)
  qed (simp add: trim_start.simps)
qed

lemma trim_end_cut: "utf8_str s \<longrightarrow> utf8_str (trim_end s)"
proof (induction s rule: trim_end.induct)
  case (1 s)
  show ?case
  proof (cases "ws_len_end s = 0")
    case False
    then obtain w where w: "w \<in> set unicode_ws" "s = take (length s - ws_len_end s) s @ w"
      by (rule ws_len_end_split)
    with utf8_cut [of "take (length s - ws_len_end s) s" w "[]"] utf8_ws [OF w(1)] unicode_ws_nonempty [OF w(1)]
      1 [OF False] False show ?thesis
      by (simp add: trim_end.simps [of s])
  qed (simp add: trim_end.simps)
qed

lemma utf8_trim: "utf8_str s \<Longrightarrow> utf8_str (str_trim s)"
  using trim_start_cut trim_end_cut by (auto simp: str_trim_def)

lemma sublist_trim: "sublist (str_trim s) s"
proof -
  obtain w where "s = w @ trim_start s" using trim_start_cut by blast
  then have "suffix (trim_start s) s" by (metis suffixI)
  then show ?thesis
    using trim_end_prefix [of "trim_start s"] unfolding str_trim_def
    by (meson prefix_imp_sublist sublist_order.order_trans suffix_imp_sublist)
qed

section \<open>Words\<close>

lemma ws_char: "w \<in> set unicode_ws \<Longrightarrow> CHR '' '' \<in> set w \<Longrightarrow> w = '' ''"
proof -
  have "list_all (\<lambda>w. CHR '' '' \<in> set w \<longrightarrow> w = '' '') unicode_ws" by code_simp
  then show "w \<in> set unicode_ws \<Longrightarrow> CHR '' '' \<in> set w \<Longrightarrow> w = '' ''" by (auto simp: list_all_iff)
qed

lemma ws_len_space [simp]: "ws_len (CHR '' '' # s) = 1"
  by (simp add: ws_len_def unicode_ws_def)

lemma ws_len_word:
  assumes "ws_free w" "w \<noteq> []"
  shows "ws_len (w @ CHR '' '' # s) = 0" "ws_len w = 0"
proof -
  have "\<not> prefix v (w @ CHR '' '' # s)" if v: "v \<in> set unicode_ws" for v
  proof
    assume "prefix v (w @ CHR '' '' # s)"
    then consider "prefix v w" | u where "v = w @ CHR '' '' # u"
      by (auto simp: prefix_append prefix_Cons)
    then show False
    proof cases
      case 1
      with assms(1) v show False by (auto simp: ws_free_def)
    next
      case 2
      with ws_char [OF v] assms(2) show False by (cases w) auto
    qed
  qed
  then show "ws_len (w @ CHR '' '' # s) = 0" by (simp add: ws_len_0)
  show "ws_len w = 0" using assms by (auto simp: ws_len_0 ws_free_def)
qed

lemma ws_free_tl: "ws_free (c # w) \<Longrightarrow> ws_free w"
  by (erule ws_free_sublist) (simp add: sublist_Cons_right)

lemma ws_pieces_word:
  "ws_free w \<Longrightarrow> ws_pieces acc (w @ CHR '' '' # s) = (rev acc @ w) # ws_pieces [] s"
proof (induction w arbitrary: acc)
  case Nil
  show ?case by (simp add: ws_pieces.simps [of acc])
next
  case (Cons c w)
  with ws_len_word(1) [OF Cons.prems] ws_free_tl [OF Cons.prems] show ?case
    by (simp add: ws_pieces.simps [of acc])
qed

lemma ws_pieces_last: "ws_free w \<Longrightarrow> ws_pieces acc w = [rev acc @ w]"
proof (induction w arbitrary: acc)
  case Nil
  show ?case by (simp add: ws_pieces.simps [of acc])
next
  case (Cons c w)
  with ws_len_word(2) [OF Cons.prems] ws_free_tl [OF Cons.prems] show ?case
    by (simp add: ws_pieces.simps [of acc])
qed

lemma split_three_words:
  assumes "ws_free a" "ws_free b" "ws_free c" "a \<noteq> []" "b \<noteq> []" "c \<noteq> []"
  shows "split_whitespace (a @ '' '' @ b @ '' '' @ c) = [a, b, c]"
  using assms by (simp add: split_whitespace_def ws_pieces_word ws_pieces_last)

text \<open>What the words of a line are.\<close>

definition clean_word :: "string \<Rightarrow> bool" where
  "clean_word w \<longleftrightarrow> ws_free w \<and> utf8_str w"

lemma ws_pieces_clean:
  "(\<forall>k < length acc. ws_len (drop k (rev acc) @ s) = 0) \<Longrightarrow> utf8_str (rev acc @ s) \<Longrightarrow>
     \<forall>p \<in> set (ws_pieces acc s). clean_word p"
proof (induction acc s rule: ws_pieces.induct)
  case (1 acc s)
  have free: "ws_free (rev acc)"
    unfolding ws_free_def
  proof (intro ballI notI)
    fix w assume w: "w \<in> set unicode_ws" "sublist w (rev acc)"
    then obtain u v where uv: "rev acc = u @ w @ v" by (auto simp: sublist_def)
    have "length (rev acc) = length u + length w + length v" using uv by simp
    with unicode_ws_nonempty [OF w(1)] have "length u < length acc" by (cases w) auto
    with "1.prems"(1) have "ws_len (drop (length u) (rev acc) @ s) = 0" by blast
    with uv w(1) show False by (auto simp: ws_len_0)
  qed
  consider "s = []" | "s \<noteq> []" "ws_len s \<noteq> 0" | "s \<noteq> []" "ws_len s = 0" by blast
  then show ?case
  proof cases
    case 1
    with free "1.prems"(2) show ?thesis by (simp add: ws_pieces.simps [of acc] clean_word_def)
  next
    case 2
    obtain w where w: "w \<in> set unicode_ws" "s = w @ drop (ws_len s) s"
      using 2(2) by (rule ws_len_split)
    with "1.prems"(2) have "utf8_str (rev acc @ w @ drop (ws_len s) s)" by metis
    with utf8_cut utf8_ws unicode_ws_nonempty w(1)
    have "utf8_str (rev acc)" "utf8_str (drop (ws_len s) s)" by blast+
    with 2 free "1.IH"(1) [OF 2] show ?thesis
      by (simp add: ws_pieces.simps [of acc s] clean_word_def)
  next
    case 3
    have "ws_len (drop k (rev acc @ [hd s]) @ tl s) = 0" if "k \<le> length acc" for k
      using that 3 "1.prems"(1) by (cases "k = length acc") auto
    with 3 "1.IH"(2) [OF 3(1)] "1.prems"(2) show ?thesis
      by (simp add: ws_pieces.simps [of acc s] less_Suc_eq_le)
  qed
qed

lemma split_whitespace_clean:
  "utf8_str s \<Longrightarrow> w \<in> set (split_whitespace s) \<Longrightarrow> clean_word w \<and> w \<noteq> []"
  using ws_pieces_clean [of "[]" s] by (auto simp: split_whitespace_def)

section \<open>Lines\<close>

definition line_free :: "string \<Rightarrow> bool" where
  "line_free s \<longleftrightarrow> \<not> sublist crlf s"

lemma line_free_sublist: "line_free s \<Longrightarrow> sublist t s \<Longrightarrow> line_free t"
  unfolding line_free_def by (meson sublist_order.order_trans)

lemma line_free_ws: "ws_free s \<Longrightarrow> line_free s"
proof -
  assume "ws_free s"
  moreover have "[CR] \<in> set unicode_ws" by (simp add: unicode_ws_def)
  ultimately have "\<not> sublist [CR] s" by (simp add: ws_free_def)
  moreover have "sublist [CR] crlf" by simp
  ultimately show "line_free s" unfolding line_free_def by (meson sublist_order.order_trans)
qed

lemma line_free_join:
  "line_free a \<Longrightarrow> line_free b \<Longrightarrow> c \<noteq> CR \<Longrightarrow> c \<noteq> LF \<Longrightarrow> line_free (a @ c # b)"
  by (auto simp: line_free_def sublist_append sublist_Cons_right suffix_def prefix_Cons Cons_eq_append_conv)

lemma split_crlf_line: "line_free p \<Longrightarrow> split_crlf (p @ crlf @ s) = p # split_crlf s"
proof (induction p rule: split_crlf.induct)
  case (3 c d cs)
  then have "line_free (d # cs)" "\<not> (c = CR \<and> d = LF)"
    by (auto simp: line_free_def sublist_Cons_right)
  with 3 show ?case by simp
qed auto

lemma split_crlf_last: "line_free p \<Longrightarrow> split_crlf p = [p]"
proof (induction p rule: split_crlf.induct)
  case (3 c d cs)
  then have "line_free (d # cs)" "\<not> (c = CR \<and> d = LF)"
    by (auto simp: line_free_def sublist_Cons_right)
  with 3 show ?case by simp
qed auto

lemma split_crlf_nonempty: "split_crlf s \<noteq> []"
  by (induction s rule: split_crlf.induct) (auto split: list.splits)

lemma split_crlf_join:
  "\<forall>l \<in> set (l0 # ls). line_free l \<Longrightarrow> split_crlf (join_with crlf (l0 # ls)) = l0 # ls"
proof (induction ls arbitrary: l0)
  case (Cons l ls)
  then show ?case by (simp add: split_crlf_line [simplified])
qed (simp add: split_crlf_last)

lemma split_crlf_cut:
  "split_crlf s = w # ws \<Longrightarrow>
     line_free w \<and> (if ws = [] then s = w else \<exists>s'. s = w @ crlf @ s' \<and> ws = split_crlf s')"
proof (induction s arbitrary: w rule: split_crlf.induct)
  case (3 c d cs)
  show ?case
  proof (cases "c = CR \<and> d = LF")
    case True
    with 3 show ?thesis
      by (cases "split_crlf cs") (auto simp: line_free_def split_crlf_nonempty)
  next
    case False
    then obtain w' where w': "split_crlf (d # cs) = w' # ws" "w = c # w'"
      using "3.prems" by (cases "split_crlf (d # cs)") (auto simp: split_crlf_nonempty)
    from "3.IH"(2) [OF False w'(1)]
    have IH: "line_free w'" "if ws = [] then d # cs = w' else \<exists>s'. d # cs = w' @ crlf @ s' \<and> ws = split_crlf s'"
      by auto
    from IH(2) have "w' = [] \<or> hd w' = d" by (cases w') (auto split: if_splits)
    with False IH(1) have "line_free w"
      by (cases w') (auto simp: line_free_def w'(2) sublist_Cons_right)
    with IH(2) w'(2) show ?thesis by (auto split: if_splits)
  qed
qed (auto simp: line_free_def sublist_Cons_right)

lemma split_crlf_parts:
  "utf8_str s \<Longrightarrow> \<forall>p \<in> set (split_crlf s). line_free p \<and> utf8_str p"
proof (induction s rule: length_induct)
  case (1 s)
  obtain w ws where w: "split_crlf s = w # ws"
    using split_crlf_nonempty [of s] by (cases "split_crlf s") auto
  show ?case
  proof (cases "ws = []")
    case True
    with split_crlf_cut [OF w] w 1(2) show ?thesis by auto
  next
    case False
    with split_crlf_cut [OF w] obtain s' where s': "s = w @ crlf @ s'" "ws = split_crlf s'" "line_free w"
      by auto
    moreover have "utf8_str crlf" by (rule utf8_ascii) (simp add: ascii_def)
    ultimately have "utf8_str w" "utf8_str s'" using 1(2) utf8_cut [of w crlf s'] by auto
    moreover from s' have "length s' < length s" by simp
    ultimately show ?thesis using 1(1) s'(2,3) w by auto
  qed
qed

section \<open>The parsed request\<close>

definition clean_header :: "string \<times> string \<Rightarrow> bool" where
  "clean_header h \<longleftrightarrow>
     (case h of (name, v) \<Rightarrow>
        line_free name \<and> utf8_str name \<and> CHR '':'' \<notin> set name \<and> str_trim name = name \<and>
        line_free v \<and> utf8_str v \<and> str_trim v = v)"

lemma parse_header_lines_clean:
  "parse_header_lines lines = Inr headers \<Longrightarrow> \<forall>l \<in> set lines. line_free l \<and> utf8_str l \<Longrightarrow>
     list_all clean_header headers"
proof (induction lines arbitrary: headers)
  case (Cons line lines)
  then obtain name v hs where h: "split_once (CHR '':'') line = Some (name, v)"
      "parse_header_lines lines = Inr hs" "headers = (str_trim name, str_trim v) # hs"
    by (auto simp: res_simps split: option.splits)
  from split_once_Some [OF h(1)] have line: "line = name @ CHR '':'' # v" "CHR '':'' \<notin> set name" by auto
  have "prefix name line" "suffix v line" by (simp_all add: line(1) suffix_appendI suffix_ConsI)
  then have "sublist name line" "sublist v line" by auto
  then have "sublist (str_trim name) line" "sublist (str_trim v) line"
    using sublist_trim by (blast intro: sublist_order.order_trans)+
  moreover have "utf8_str name \<and> utf8_str v"
    using Cons.prems(2) utf8_cut_ascii [of name "CHR '':''" v] by (simp add: line(1) ascii_def)
  moreover have "CHR '':'' \<notin> set (str_trim name)"
    using line(2) set_mono_sublist [OF sublist_trim [of name]] by blast
  ultimately have "clean_header (str_trim name, str_trim v)"
    using Cons.prems(2) by (auto simp: clean_header_def utf8_trim str_trim_idem intro: line_free_sublist)
  with Cons h show ?case by simp
qed simp

definition clean_request :: "request_parts \<Rightarrow> bool" where
  "clean_request request \<longleftrightarrow>
     list_all (\<lambda>w. clean_word w \<and> w \<noteq> []) [rp_method request, rp_target request, rp_version request] \<and>
     prefix ''HTTP/'' (rp_version request) \<and> list_all clean_header (rp_headers request)"

lemma parse_request_clean:
  assumes "parse_request header = Inr request"
  shows "clean_request request"
proof -
  obtain whole body line lines where whole: "from_utf8 header = Some whole" "strip_suffix (crlf @ crlf) whole = Some body"
      "split_crlf body = line # lines" and
    line: "parse_request_line line = Inr (rp_method request, rp_target request, rp_version request)" and
    headers: "parse_header_lines lines = Inr (rp_headers request)"
    using assms by (auto simp: parse_request_def res_simps neq_Nil_conv split: list.splits)
  have "whole = body @ crlf @ crlf" using whole(2) by (auto simp: strip_suffix_def suffix_def split: if_splits)
  moreover have "utf8_str whole" using whole(1) by (auto simp: from_utf8_def utf8_str_def split: if_splits)
  moreover have "utf8_str (crlf @ crlf)" by (rule utf8_ascii) (simp add: ascii_def)
  ultimately have "utf8_str body" using utf8_cut [of body "crlf @ crlf" "[]"] by simp
  with split_crlf_parts [of body] whole(3) have parts: "\<forall>l \<in> set (line # lines). line_free l \<and> utf8_str l"
    by simp
  from line have "split_whitespace line = [rp_method request, rp_target request, rp_version request]"
      "prefix ''HTTP/'' (rp_version request)"
    by (auto simp: parse_request_line_def split: list.splits if_splits)
  with parts split_whitespace_clean [of line] parse_header_lines_clean [OF headers] show ?thesis
    by (auto simp: clean_request_def)
qed

section \<open>The parsed target\<close>

lemma sublist_split:
  assumes "sublist w (a @ c # b)"
  shows "sublist w a \<or> sublist w b \<or> c \<in> set w"
proof -
  from assms obtain p q where "a @ c # b = p @ w @ q" by (auto simp: sublist_def)
  then consider us where "a = p @ us" "us @ c # b = w @ q" | us where "p = a @ us" "c # b = us @ w @ q"
    by (auto simp: append_eq_append_conv2)
  then show ?thesis
  proof cases
    case (1 us)
    then consider vs where "us = w @ vs" | vs where "w = us @ vs" "c # b = vs @ q"
      by (auto simp: append_eq_append_conv2)
    then show ?thesis using 1(1) by cases (auto simp: Cons_eq_append_conv)
  next
    case (2 us)
    show ?thesis
    proof (cases us)
      case Nil
      with 2(2) show ?thesis by (cases w) auto
    next
      case (Cons x vs)
      with 2(2) have "b = vs @ w @ q" by simp
      then show ?thesis by (simp add: sublist_appendI)
    qed
  qed
qed

lemma ws_no_colon: "w \<in> set unicode_ws \<Longrightarrow> CHR '':'' \<notin> set w"
proof -
  have "list_all (\<lambda>w. CHR '':'' \<notin> set w) unicode_ws" by code_simp
  then show "w \<in> set unicode_ws \<Longrightarrow> CHR '':'' \<notin> set w" by (simp add: list_all_iff)
qed

lemma clean_word_colon: "clean_word a \<Longrightarrow> clean_word b \<Longrightarrow> clean_word (a @ '':'' @ b)"
proof -
  assume ab: "clean_word a" "clean_word b"
  then have "ws_free (a @ CHR '':'' # b)"
    using sublist_split [of _ a "CHR '':''" b] ws_no_colon
    unfolding clean_word_def ws_free_def by metis
  moreover have "utf8_str '':''" by (rule utf8_ascii) (simp add: ascii_def)
  ultimately show ?thesis using ab utf8_append [of a "'':'' @ b"] utf8_append [of "'':''" b]
    by (simp add: clean_word_def)
qed

lemma graph_ascii: "graph c \<Longrightarrow> ascii c"
  by (simp add: graph_def ascii_def)

lemma clean_word_ascii: "list_all graph s \<Longrightarrow> clean_word s"
  by (simp add: clean_word_def ws_free_graph) (simp add: list_all_iff graph_ascii utf8_ascii)

lemma clean_word_show_dec: "clean_word (show_dec n)"
  by (rule clean_word_ascii) (simp add: graph_show_radix)

lemma clean_word_cut: "clean_word (a @ c # b) \<Longrightarrow> ascii c \<Longrightarrow> clean_word a \<and> clean_word b"
proof -
  assume "clean_word (a @ c # b)" "ascii c"
  moreover have "sublist a (a @ c # b)" "sublist b (a @ c # b)"
    by (simp_all add: suffix_imp_sublist suffix_appendI suffix_ConsI)
  ultimately show ?thesis using utf8_cut_ascii [of a c b] ws_free_sublist
    unfolding clean_word_def by blast
qed

lemma split_once_str_Some: "split_once_str p s = Some (a, b) \<Longrightarrow> s = a @ p @ b"
  by (induction p s arbitrary: a rule: split_once_str.induct)
    (auto simp: prefix_def split: if_splits)

lemma rsplit_once_Some: "rsplit_once c s = Some (a, b) \<Longrightarrow> s = a @ c # b \<and> c \<notin> set b"
  by (auto simp: rsplit_once_def dest!: split_once_Some) (metis append.assoc append_Cons append_Nil rev.simps(2) rev_append rev_rev_ident)

lemma str_find_Some: "str_find c s = Some i \<Longrightarrow> s = take i s @ c # drop (Suc i) s \<and> drop i s = c # drop (Suc i) s"
  by (induction c s arbitrary: i rule: str_find.induct) (auto split: if_splits)

lemma parse_authority_clean:
  assumes "parse_authority authority dp = Inr (host, port)" "clean_word authority"
  shows "clean_word host"
proof (cases "strip_prefix ''['' authority")
  case None
  with assms(1) have "host = authority \<or> (\<exists>p. rsplit_once (CHR '':'') authority = Some (host, p))"
    by (auto simp: parse_authority_def res_simps split: if_splits option.splits)
  moreover have "ascii (CHR '':'')" by (simp add: ascii_def)
  ultimately show ?thesis
    using assms(2) clean_word_cut [of host "CHR '':''"] rsplit_once_Some by metis
next
  case (Some rest)
  then have "clean_word rest"
    using assms(2) clean_word_cut [of "[]" "CHR ''[''" rest] by (simp add: strip_prefix_Some ascii_def)
  moreover obtain after where "split_once (CHR '']'') rest = Some (host, after)"
    using Some assms(1) by (auto simp: parse_authority_def res_simps split: if_splits)
  moreover have "ascii (CHR '']'')" by (simp add: ascii_def)
  ultimately show ?thesis using clean_word_cut [of host "CHR '']''"] split_once_Some by metis
qed

lemma parse_absolute_uri_clean:
  assumes "parse_absolute_uri target = Inr uri" "clean_word target"
  shows "clean_word (au_host uri) \<and> clean_word (au_path uri) \<and> au_path uri \<noteq> []"
proof -
  obtain scheme rest where s: "split_once_str ''://'' target = Some (scheme, rest)"
    using assms(1) by (auto simp: parse_absolute_uri_def res_simps)
  define parts where "parts = (case str_find (CHR ''/'') rest of
      Some idx \<Rightarrow> (take idx rest, drop idx rest) | None \<Rightarrow> (rest, ''/''))"
  have "clean_word (scheme @ CHR '':'' # ''//'' @ rest)"
    using split_once_str_Some [OF s] assms(2) by simp
  moreover have a: "ascii (CHR '':'')" "ascii (CHR ''/'')" by (simp_all add: ascii_def)
  ultimately have "clean_word ([] @ CHR ''/'' # ''/'' @ rest)"
    using clean_word_cut [of scheme "CHR '':''" "''//'' @ rest"] by simp
  then have "clean_word ([] @ CHR ''/'' # rest)"
    using clean_word_cut [of "[]" "CHR ''/''" "''/'' @ rest"] a by simp
  then have rest: "clean_word rest"
    using clean_word_cut [of "[]" "CHR ''/''" rest] a by simp
  have parts: "clean_word (fst parts) \<and> clean_word (snd parts) \<and> snd parts \<noteq> []"
  proof (cases "str_find (CHR ''/'') rest")
    case None
    have "clean_word ''/''" by (rule clean_word_ascii) (simp add: graph_def)
    with None rest show ?thesis by (simp add: parts_def)
  next
    case (Some idx)
    note cut = str_find_Some [OF Some]
    from a rest cut have "clean_word (take idx rest)"
      using clean_word_cut [of "take idx rest" "CHR ''/''" "drop (Suc idx) rest"] by metis
    moreover have "utf8_str (drop idx rest)"
    proof -
      have "utf8_str (take idx rest @ drop idx rest)" "utf8_str (take idx rest)"
        using rest calculation by (simp_all add: clean_word_def)
      then show ?thesis unfolding utf8_str_def bytes_of_str_append by simp
    qed
    moreover have "ws_free (drop idx rest)"
      using rest ws_free_sublist [of rest "drop idx rest"] suffix_imp_sublist [OF suffix_drop]
      unfolding clean_word_def by blast
    moreover have "drop idx rest \<noteq> []" using cut by (metis list.distinct(1))
    ultimately show ?thesis by (simp add: parts_def Some clean_word_def)
  qed
  obtain port where "parse_authority (fst parts) 80 = Inr (au_host uri, port)" "au_path uri = snd parts"
    using assms(1) s
    by (cases parts) (auto simp: parse_absolute_uri_def res_simps Let_def simp flip: parts_def split: if_splits)
  with parts parse_authority_clean show ?thesis by auto
qed

section \<open>Printing and parsing\<close>

definition header_line :: "string \<times> string \<Rightarrow> string" where
  "header_line h = fst h @ '': '' @ snd h"

text \<open>The headers of the request that is sent on.\<close>

definition forwarded_headers :: "request_parts \<Rightarrow> absolute_uri \<Rightarrow> (string \<times> string) list" where
  "forwarded_headers request uri =
     (let kept = filter (\<lambda>h. \<not> proxy_header (fst h)) (rp_headers request) in
      kept @ (if list_ex (\<lambda>h. eq_ignore_ascii_case (fst h) ''Host'') kept then [] else [(''Host'', host_header uri)]))"

lemma copy_headers_eq:
  "copy_headers hs b =
     (let kept = filter (\<lambda>h. \<not> proxy_header (fst h)) hs in
      (concat (map (\<lambda>h. header_line h @ crlf) kept), b \<or> list_ex (\<lambda>h. eq_ignore_ascii_case (fst h) ''Host'') kept))"
  by (induction hs b rule: copy_headers.induct) (auto simp: Let_def header_line_def)

lemma join_lines_crlf: "concat (map (\<lambda>l. l @ crlf) (l # ls)) = join_with crlf (l # ls) @ crlf"
proof (induction ls arbitrary: l)
  case (Cons m ls)
  then show ?case by simp
qed simp

lemma rewrite_lines:
  "rewrite_absolute_request request uri = bytes_of_str
     (join_with crlf ((rp_method request @ '' '' @ au_path uri @ '' '' @ rp_version request)
        # map header_line (forwarded_headers request uri)) @ crlf @ crlf)"
proof -
  have c: "concat (map (\<lambda>h. header_line h @ crlf) hs) = concat (map (\<lambda>l. l @ crlf) (map header_line hs))" for hs
    by (simp add: comp_def)
  have "rewrite_absolute_request request uri = bytes_of_str
      (concat (map (\<lambda>l. l @ crlf) ((rp_method request @ '' '' @ au_path uri @ '' '' @ rp_version request)
         # map header_line (forwarded_headers request uri))) @ crlf)"
    by (simp add: rewrite_absolute_request_def copy_headers_eq c forwarded_headers_def Let_def header_line_def comp_def del: bytes_of_str_append)
  then show ?thesis by (simp only: join_lines_crlf append.assoc)
qed

lemma split_once_colon: "c \<notin> set a \<Longrightarrow> split_once c (a @ c # b) = Some (a, b)"
  by (induction a) auto

lemma trim_space: "str_trim (CHR '' '' # s) = str_trim s"
  by (simp add: str_trim_def trim_start.simps [of "CHR '' '' # s"])

lemma parse_header_line:
  "clean_header (name, v) \<Longrightarrow>
     parse_header_lines (header_line (name, v) # lines) =
       rbind (parse_header_lines lines) (\<lambda>hs. Inr ((name, v) # hs))"
  by (simp add: clean_header_def header_line_def split_once_colon trim_space)

lemma parse_header_lines_print: "list_all clean_header hs \<Longrightarrow> parse_header_lines (map header_line hs) = Inr hs"
proof (induction hs)
  case (Cons h hs)
  then show ?case by (cases h) (simp add: parse_header_line del: parse_header_lines.simps)
qed simp

lemma host_header_clean: "clean_word (au_host uri) \<Longrightarrow> clean_header (''Host'', host_header uri)"
proof -
  assume "clean_word (au_host uri)"
  then have "clean_word (host_header uri)"
    using clean_word_colon [OF _ clean_word_show_dec] by (simp add: host_header_def split: option.split)
  moreover have "clean_word ''Host''" by (rule clean_word_ascii) (simp add: graph_def)
  ultimately show ?thesis
    by (simp add: clean_header_def clean_word_def line_free_ws ws_free_trim)
qed

lemma forwarded_clean:
  "clean_request request \<Longrightarrow> clean_word (au_host uri) \<Longrightarrow> list_all clean_header (forwarded_headers request uri)"
  by (auto simp: forwarded_headers_def clean_request_def Let_def list_all_iff host_header_clean)

lemma clean_header_line: "clean_header h \<Longrightarrow> line_free (header_line h) \<and> utf8_str (header_line h)"
proof -
  assume h: "clean_header h"
  obtain name v where nv: "h = (name, v)" by (cases h)
  have "line_free ([] @ CHR '' '' # v)"
    using h nv by (intro line_free_join) (auto simp: clean_header_def line_free_def)
  then have "line_free (name @ CHR '':'' # CHR '' '' # v)"
    using h nv by (intro line_free_join) (auto simp: clean_header_def)
  moreover have "utf8_str '': ''" by (rule utf8_ascii) (simp add: ascii_def)
  ultimately show ?thesis
    using h nv utf8_append [of name "'': '' @ v"] utf8_append [of "'': ''" v]
    by (simp add: header_line_def clean_header_def)
qed

lemma request_line_clean:
  assumes "clean_word a" "clean_word b" "clean_word c"
  shows "line_free (a @ '' '' @ b @ '' '' @ c) \<and> utf8_str (a @ '' '' @ b @ '' '' @ c)"
proof -
  have "line_free a" "line_free b" "line_free c" using assms by (auto simp: clean_word_def line_free_ws)
  then have "line_free (a @ CHR '' '' # b @ CHR '' '' # c)"
    using line_free_join [of b c "CHR '' ''"] line_free_join [of a "b @ CHR '' '' # c" "CHR '' ''"] by simp
  moreover have "utf8_str '' ''" by (rule utf8_ascii) (simp add: ascii_def)
  then have "utf8_str (a @ '' '' @ b @ '' '' @ c)"
    using assms by (intro utf8_append) (simp_all add: clean_word_def)
  ultimately show ?thesis by simp
qed

lemma utf8_join: "utf8_str sep \<Longrightarrow> \<forall>l \<in> set ls. utf8_str l \<Longrightarrow> utf8_str (join_with sep ls)"
  by (induction sep ls rule: join_with.induct) (auto intro!: utf8_append simp: utf8_str_def)

section \<open>Properties\<close>

text \<open>
  C35. The rewritten request of an accepted absolute-form request is itself a well-formed request:
  parsing it gives the same method and version, the path of the URI as target, and the original
  headers in order without \<open>Proxy-Authorization\<close> and \<open>Proxy-Connection\<close>, with a \<open>Host\<close> header
  added when there was none.
\<close>

theorem rewrite_parses_back:
  assumes "parse_request header = Inr request" "parse_absolute_uri (rp_target request) = Inr uri"
  shows "parse_request (rewrite_absolute_request request uri) =
    Inr (request\<lparr>rp_target := au_path uri, rp_headers := forwarded_headers request uri\<rparr>)"
proof -
  let ?line = "rp_method request @ '' '' @ au_path uri @ '' '' @ rp_version request"
  let ?lines = "map header_line (forwarded_headers request uri)"
  let ?body = "join_with crlf (?line # ?lines)"
  have clean: "clean_request request" using assms(1) by (rule parse_request_clean)
  then have words: "clean_word (rp_method request)" "clean_word (rp_version request)" "clean_word (rp_target request)"
      "rp_method request \<noteq> []" "rp_version request \<noteq> []" "prefix ''HTTP/'' (rp_version request)"
    by (simp_all add: clean_request_def)
  have uri: "clean_word (au_host uri)" "clean_word (au_path uri)" "au_path uri \<noteq> []"
    using parse_absolute_uri_clean [OF assms(2) words(3)] by auto
  have headers: "list_all clean_header (forwarded_headers request uri)"
    using clean uri(1) by (rule forwarded_clean)
  then have all: "\<forall>l \<in> set (?line # ?lines). line_free l \<and> utf8_str l"
    using request_line_clean [OF words(1) uri(2) words(2)] clean_header_line by (auto simp: list_all_iff)
  have crlf: "utf8_str crlf" by (rule utf8_ascii) (simp add: ascii_def)
  have "utf8_str (?body @ crlf @ crlf)"
    using all crlf by (intro utf8_append utf8_join) auto
  then have "from_utf8 (bytes_of_str (?body @ crlf @ crlf)) = Some (?body @ crlf @ crlf)"
    by (simp add: from_utf8_def utf8_str_def del: bytes_of_str_append)
  moreover have "strip_suffix (crlf @ crlf) (?body @ crlf @ crlf) = Some ?body"
    by (simp add: strip_suffix_def suffix_def)
  moreover have "split_crlf ?body = ?line # ?lines" using all by (intro split_crlf_join) blast
  moreover have "parse_request_line ?line = Inr (rp_method request, au_path uri, rp_version request)"
    using words uri split_three_words [of "rp_method request" "au_path uri" "rp_version request"]
    by (simp add: parse_request_line_def clean_word_def)
  ultimately show ?thesis
    using rewrite_lines [of request uri] parse_header_lines_print [OF headers]
    by (auto simp: parse_request_def simp del: bytes_of_str_append append_assoc)
qed

definition demo_get :: "u8 list" where
  "demo_get = bytes_of_str (''GET http://x/a HTTP/1.1'' @ crlf @ ''proxy-connection:  close'' @ crlf @ ''A:b'' @ crlf @ crlf)"

definition demo_get_parts :: request_parts where
  "demo_get_parts = \<lparr>rp_method = ''GET'', rp_target = ''http://x/a'', rp_version = ''HTTP/1.1'',
     rp_headers = [(''proxy-connection'', ''close''), (''A'', ''b'')]\<rparr>"

definition demo_uri :: absolute_uri where
  "demo_uri = \<lparr>au_scheme = ''http'', au_host = ''x'', au_port = Some 80, au_path = ''/a''\<rparr>"

lemma demo_get_parsed:
  "parse_request demo_get = Inr demo_get_parts" "parse_absolute_uri (rp_target demo_get_parts) = Inr demo_uri"
  "forwarded_headers demo_get_parts demo_uri = [(''A'', ''b''), (''Host'', ''x'')]"
  by code_simp+

theorem rewrite_parses_back_witness:
  "parse_request (rewrite_absolute_request demo_get_parts demo_uri) =
     Inr \<lparr>rp_method = ''GET'', rp_target = ''/a'', rp_version = ''HTTP/1.1'',
          rp_headers = [(''A'', ''b''), (''Host'', ''x'')]\<rparr>"
  using rewrite_parses_back [OF demo_get_parsed(1,2)]
  by (simp add: demo_get_parsed(3)) (simp add: demo_get_parts_def demo_uri_def)

section \<open>Authorities\<close>

text \<open>The forms of an authority: a name or an address in brackets, with a port or without.\<close>

definition plain_host :: "string \<Rightarrow> bool" where
  "plain_host host \<longleftrightarrow> host \<noteq> [] \<and> hd host \<noteq> CHR ''['' \<and> CHR '':'' \<notin> set host \<and> CHR ''@'' \<notin> set host \<and>
     \<not> list_ex is_ascii_whitespace host"

lemma show_dec_digits: "list_all is_ascii_digit (show_dec n)"
  unfolding list_all_iff
proof
  fix c assume "c \<in> set (show_dec n)"
  then obtain d where "d < 10" "c = digit_char d" using show_radix_digits [of 10 c n] by auto
  then show "is_ascii_digit c" by (simp add: is_ascii_digit_def digit_char_def)
qed

lemma digit_not: "is_ascii_digit c \<Longrightarrow> c \<noteq> CHR '':'' \<and> c \<noteq> CHR ''@''"
  by (auto simp: is_ascii_digit_def)

lemma show_dec_no: "CHR '':'' \<notin> set (show_dec n)" "CHR ''@'' \<notin> set (show_dec n)"
  using show_dec_digits [of n] digit_not by (auto simp: list_all_iff)

lemma rsplit_once_last: "c \<notin> set b \<Longrightarrow> rsplit_once c (a @ c # b) = Some (a, b)"
  using split_once_colon [of c "rev b" "rev a"] by (simp add: rsplit_once_def)

lemma rsplit_once_none: "c \<notin> set s \<Longrightarrow> rsplit_once c s = None"
proof -
  have "c \<notin> set s \<Longrightarrow> split_once c s = None" for s by (induction s) auto
  then show "c \<notin> set s \<Longrightarrow> rsplit_once c s = None" by (simp add: rsplit_once_def)
qed

lemma ip_char_not: "ip_char c \<Longrightarrow> c \<noteq> CHR '']'' \<and> c \<noteq> CHR ''@''"
proof -
  have "list_all (\<lambda>d. digit_char d \<noteq> CHR '']'' \<and> digit_char d \<noteq> CHR ''@'') [0..<16]" by code_simp
  then show "ip_char c \<Longrightarrow> c \<noteq> CHR '']'' \<and> c \<noteq> CHR ''@''" by (auto simp: ip_char_def list_all_iff)
qed

lemma ipv6_text: "CHR '']'' \<notin> set (show_ipv6 ip)" "CHR ''@'' \<notin> set (show_ipv6 ip)"
  using show_ipv6_chars ip_char_not by blast+

lemma plain_no_bracket: "plain_host host \<Longrightarrow> strip_prefix ''['' (host @ s) = None"
  by (cases host) (auto simp: plain_host_def strip_prefix_def)

lemma parse_authority_port:
  assumes "plain_host host" "port \<noteq> 0"
  shows "parse_authority (host @ CHR '':'' # show_dec (unat port)) dp = Inr (host, port)"
proof -
  let ?a = "host @ CHR '':'' # show_dec (unat port)"
  have "\<not> (?a = [] \<or> CHR ''@'' \<in> set ?a)" using assms(1) show_dec_no by (simp add: plain_host_def)
  moreover have "rsplit_once (CHR '':'') ?a = Some (host, show_dec (unat port))"
    using show_dec_no(1) by (rule rsplit_once_last)
  ultimately show ?thesis
    using assms plain_no_bracket [OF assms(1), of "CHR '':'' # show_dec (unat port)"] show_dec_digits [of "unat port"]
    unfolding parse_authority_def by (simp add: plain_host_def)
qed

lemma parse_authority_plain:
  assumes "plain_host host" "dp \<noteq> 0"
  shows "parse_authority host dp = Inr (host, dp)"
  using assms plain_no_bracket [OF assms(1), of "[]"] rsplit_once_none [of "CHR '':''" host]
  unfolding parse_authority_def by (simp add: plain_host_def)

lemma parse_authority_ipv6:
  "parse_authority (CHR ''['' # show_ipv6 ip @ CHR '']'' # CHR '':'' # show_dec (unat port)) dp = Inr (show_ipv6 ip, port)"
proof -
  let ?after = "CHR '':'' # show_dec (unat port)"
  let ?rest = "show_ipv6 ip @ CHR '']'' # ?after"
  have "\<not> (CHR ''['' # ?rest = [] \<or> CHR ''@'' \<in> set (CHR ''['' # ?rest))"
    using ipv6_text(2) show_dec_no(2) by simp
  moreover have "strip_prefix ''['' (CHR ''['' # ?rest) = Some ?rest" by (simp add: strip_prefix_Some)
  moreover have "split_once (CHR '']'') ?rest = Some (show_ipv6 ip, ?after)"
    using ipv6_text(1) by (rule split_once_colon)
  moreover have "strip_prefix '':'' ?after = Some (show_dec (unat port))" by (simp add: strip_prefix_Some)
  ultimately show ?thesis unfolding parse_authority_def by simp
qed

text \<open>
  The target of a CONNECT is read back as it is printed: a plain host with its port or with
  the default one, and any IPv6 address in brackets, whose text is then the same address again.
\<close>

theorem authority_roundtrip:
  assumes "plain_host host" "port \<noteq> 0" "default_port \<noteq> 0"
  shows "parse_authority (host @ '':'' @ show_dec (unat port)) default_port = Inr (host, port) \<and>
    parse_authority host default_port = Inr (host, default_port) \<and>
    parse_authority (''['' @ show_ipv6 ip @ '']:'' @ show_dec (unat port)) default_port = Inr (show_ipv6 ip, port) \<and>
    parse_ip (show_ipv6 ip) = Some (V6 ip)"
  using assms by (simp add: parse_authority_port parse_authority_plain parse_authority_ipv6 parse_show_ipv6)

theorem authority_roundtrip_witness:
  "parse_authority ''x:8443'' 443 = Inr (''x'', 8443) \<and> parse_authority ''x'' 443 = Inr (''x'', 443)"
proof -
  have "plain_host ''x''" "show_dec (unat (8443 :: u16)) = ''8443''" by code_simp+
  with authority_roundtrip [of "''x''" 8443 443 0] show ?thesis by simp
qed

text \<open>
  The checks for an empty host and for port 0 are skipped for an authority in brackets.
\<close>

theorem bracket_authority_unchecked:
  "parse_authority ''[]:0'' default_port = Inr ([], 0) \<and> parse_authority '':0'' default_port = Inl InvalidAuthority"
proof -
  have "parse_u16 ''0'' = Some 0" "rsplit_once (CHR '':'') '':0'' = Some ([], ''0'')" "list_all is_ascii_digit ''0''"
    by code_simp+
  then show ?thesis by (simp add: parse_authority_def strip_prefix_def)
qed

end
