(* ===== verification/Client_Tunnel.thy ===== *)
theory Client_Tunnel
  imports Grpc_Pool Tunnel_Task
begin

text \<open>
  \<open>client/src/tunnel.rs\<close>: one local connection through a backend. \<open>relay_grpc_open\<close> is
  \<open>relay_grpc\<close> up to the relay, a function of the pool and of what the backend answers. The relay
  is two tasks, the loop over the backend's frames and the reader of the local connection
  (\<open>Tunnel_Task\<close>); it is the step relation \<open>client_step\<close>, in which every await point of the loop is
  a state of it, with the bounded channel into the request stream in the state.
\<close>

section \<open>Frames\<close>

definition client_chunk_size :: nat where "client_chunk_size = 64 * 1024"
definition client_queue :: nat where "client_queue = 64"
definition max_message_size :: nat where "max_message_size = client_chunk_size * 2"

definition open_frame :: "string \<Rightarrow> u16 \<Rightarrow> u8 list \<Rightarrow> client_frame" where
  "open_frame target_host target_port first_payload =
     Some (C_Open \<lparr>om_target_host = target_host, om_target_port = ucast target_port,
                   om_first_payload = first_payload\<rparr>)"

definition data_frame :: "u8 list \<Rightarrow> client_frame" where "data_frame d = Some (C_Data d)"
definition half_close_frame :: client_frame where "half_close_frame = Some C_HalfClose"
definition reset_frame :: "string \<Rightarrow> client_frame" where "reset_frame reason = Some (C_Reset reason)"

section \<open>Opening\<close>

datatype tunnel_error =
    PickPanic
  | InvalidToken
  | CallFailed string
  | FirstMessageFailed string
  | ResetBeforeOpen string
  | UnexpectedFirstFrame
  | ClosedBeforeOpen
  | OpenFailed string
  | StreamFailed string
  | LocalWriteFailed string
  | LocalShutdownFailed string
  | BackendReset string
  | DuplicateOpenResult
  | EmptyFrame

text \<open>What the response stream gives: a frame, a status or its end.\<close>

datatype stream_item = Frame server_frame | StreamError string | StreamEnd

text \<open>
  The parts of \<open>tonic\<close>: whether a string is a metadata value, and the call on a channel with the
  \<open>authorization\<close> value and the first request frame, which fails or gives a stream with its first
  message.
\<close>

record 'ch call_env =
  ce_metadata_ok :: "string \<Rightarrow> bool"
  ce_call :: "'ch \<Rightarrow> string \<Rightarrow> client_frame \<Rightarrow> string + stream_item"

text \<open>What the answer to the call says: whether the tunnel is open.\<close>

definition open_answer :: "string + stream_item \<Rightarrow> tunnel_error + unit" where
  "open_answer answer =
     (case answer of
        Inl status \<Rightarrow> Inl (CallFailed status)
      | Inr (StreamError status) \<Rightarrow> Inl (FirstMessageFailed status)
      | Inr StreamEnd \<Rightarrow> Inl ClosedBeforeOpen
      | Inr (Frame (Some (S_OpenResult ok error))) \<Rightarrow> if \<not> ok then Inl (OpenFailed error) else Inr ()
      | Inr (Frame (Some (S_Reset reason))) \<Rightarrow> Inl (ResetBeforeOpen reason)
      | Inr (Frame _) \<Rightarrow> Inl UnexpectedFirstFrame)"

lemma open_answer_Inr: "open_answer answer = Inr u \<longleftrightarrow> (\<exists>e. answer = Inr (Frame (Some (S_OpenResult True e))))"
  by (auto simp: open_answer_def split: sum.splits stream_item.splits option.splits server_payload.splits)

text \<open>\<open>None\<close>: no permit is free, the operation waits. The permit is given back on every error.\<close>

definition relay_grpc_open ::
    "'ch call_env \<Rightarrow> 'ch backend_pool \<Rightarrow> string \<Rightarrow> u16 \<Rightarrow> u8 list \<Rightarrow>
     ((tunnel_error + 'ch) \<times> 'ch backend_pool) option" where
  "relay_grpc_open env pool target_host target_port first_payload =
     (case acquire_stream_permit pool of
        None \<Rightarrow> None
      | Some pool \<Rightarrow>
          (case pick pool of
             (None, pool) \<Rightarrow> Some (Inl PickPanic, drop_permit pool)
           | (Some channel, pool) \<Rightarrow>
               let token = ''Bearer '' @ pool_auth_token pool;
                   failed = (\<lambda>e. Some (Inl e, drop_permit pool)) in
               if \<not> ce_metadata_ok env token then failed InvalidToken
               else
                 (case open_answer (ce_call env channel token (open_frame target_host target_port first_payload)) of
                    Inl e \<Rightarrow> failed e
                  | Inr _ \<Rightarrow> Some (Inr channel, pool))))"

section \<open>The relay\<close>

text \<open>
  The control points of the loop over the backend's frames: waiting for one, in \<open>write_all\<close> with
  the bytes left to write, or returned with a result.
\<close>

datatype client_point = Receiving | Delivering "u8 list" | Returned "tunnel_error + unit"

text \<open>
  The channel and the reading task of the local connection, with the loop: \<open>ct_written\<close> is what the
  local client has been given and \<open>ct_shut\<close> that its connection was shut down for writing.
  \<open>ct_frames\<close> records the frames handled, for the statements only.
\<close>

record client_state = "client_frame reader" +
  ct_main :: client_point
  ct_written :: "u8 list"
  ct_shut :: bool
  ct_frames :: "server_frame list"

definition client_start :: client_state where
  "client_start =
     \<lparr>tk_task = Reading, tk_aborting = False, tk_queue = [], tk_sent = [], tk_receiver = True, tk_read = [],
      tk_eof = False, ct_main = Receiving, ct_written = [], ct_shut = False, ct_frames = []\<rparr>"

definition client_frames :: "client_frame reader_frames" where
  "client_frames = \<lparr>rf_data = data_frame, rf_half_close = half_close_frame,
     rf_reset = (\<lambda>err. reset_frame (''local read failed: '' @ err))\<rparr>"

definition local_to_grpc :: "client_state \<Rightarrow> client_state \<Rightarrow> bool" where
  "local_to_grpc = task_step client_frames client_queue client_chunk_size"

text \<open>Leaving the loop: \<open>break\<close> reaches \<open>local_to_grpc.abort()\<close>, an error does not.\<close>

definition client_finish :: "client_state \<Rightarrow> client_state" where
  "client_finish s = s\<lparr>ct_main := Returned (Inr ()), tk_aborting := True\<rparr>"

definition client_fail :: "tunnel_error \<Rightarrow> client_state \<Rightarrow> client_state" where
  "client_fail e s = s\<lparr>ct_main := Returned (Inl e)\<rparr>"

text \<open>One round of the loop, up to its next await point; \<open>err\<close> is the error of \<open>shutdown\<close>, if any.\<close>

fun handle_server_frame :: "server_frame \<Rightarrow> string option \<Rightarrow> client_state \<Rightarrow> client_state" where
  "handle_server_frame (Some (S_Data d)) err s = s\<lparr>ct_main := Delivering d\<rparr>"
| "handle_server_frame (Some S_HalfClose) err s =
     (case err of
        None \<Rightarrow> client_finish (s\<lparr>ct_shut := True\<rparr>)
      | Some e \<Rightarrow> client_fail (LocalShutdownFailed e) s)"
| "handle_server_frame (Some (S_Reset reason)) err s = client_fail (BackendReset reason) s"
| "handle_server_frame (Some (S_Pong millis)) err s = s"
| "handle_server_frame (Some (S_OpenResult ok error)) err s = client_fail DuplicateOpenResult s"
| "handle_server_frame None err s = client_fail EmptyFrame s"

fun handle_stream_item :: "stream_item \<Rightarrow> string option \<Rightarrow> client_state \<Rightarrow> client_state" where
  "handle_stream_item StreamEnd err s = client_finish s"
| "handle_stream_item (StreamError status) err s = client_fail (StreamFailed status) s"
| "handle_stream_item (Frame f) err s = handle_server_frame f err (s\<lparr>ct_frames := ct_frames s @ [f]\<rparr>)"

definition deliver_some :: "nat \<Rightarrow> u8 list \<Rightarrow> client_state \<Rightarrow> client_state" where
  "deliver_some n bs s = s\<lparr>ct_written := ct_written s @ take n bs, ct_main := Delivering (drop n bs)\<rparr>"

inductive client_step :: "client_state \<Rightarrow> client_state \<Rightarrow> bool" where
  Item: "ct_main s = Receiving \<Longrightarrow> client_step s (handle_stream_item item err s)"
| Write: "ct_main s = Delivering bs \<Longrightarrow> 0 < n \<Longrightarrow> n \<le> length bs \<Longrightarrow> client_step s (deliver_some n bs s)"
| Written: "ct_main s = Delivering [] \<Longrightarrow> client_step s (s\<lparr>ct_main := Receiving\<rparr>)"
| Write_Fail: "ct_main s = Delivering bs \<Longrightarrow> bs \<noteq> [] \<Longrightarrow> client_step s (client_fail (LocalWriteFailed e) s)"
| Task: "local_to_grpc s t \<Longrightarrow> client_step s t"

inductive_cases client_stepE: "client_step s t"

definition returned :: "client_state \<Rightarrow> bool" where
  "returned s \<longleftrightarrow> (\<exists>r. ct_main s = Returned r)"

text \<open>The local connection is closed once both halves of it are dropped.\<close>

definition local_open :: "client_state \<Rightarrow> bool" where
  "local_open s \<longleftrightarrow> \<not> returned s \<or> tk_task s \<noteq> Stopped"

section \<open>Direct connections\<close>

text \<open>\<open>copy\<close> stands for \<open>tokio::io::copy_bidirectional\<close> on the two connections.\<close>

definition relay_direct ::
    "(u8 list \<Rightarrow> 't \<Rightarrow> (string + unit) \<times> 't) \<Rightarrow> ('t \<Rightarrow> (string + unit) \<times> 't) \<Rightarrow> u8 list \<Rightarrow> 't \<Rightarrow>
     (string + unit) \<times> 't" where
  "relay_direct write_all copy first_payload =
     io_bind (if first_payload \<noteq> [] then write_all first_payload else io_return ()) (\<lambda>_.
     io_bind copy (\<lambda>_. io_return ()))"

section \<open>Invariants\<close>

fun is_data :: "client_frame \<Rightarrow> bool" where
  "is_data (Some (C_Data d)) \<longleftrightarrow> True"
| "is_data _ \<longleftrightarrow> False"

interpretation local_task: reader_task client_frames client_data is_data
  by unfold_locales (simp_all add: client_frames_def data_frame_def half_close_frame_def reset_frame_def)

lemmas client_defs = client_finish_def client_fail_def deliver_some_def client_start_def

lemma client_run:
  assumes "client_step\<^sup>*\<^sup>* s t" "I s" "\<And>s t. client_step s t \<Longrightarrow> I s \<Longrightarrow> I t"
  shows "I t"
  using assms by (induction rule: rtranclp_induct) auto

lemma client_task_runs: "(task_step client_frames client_queue client_chunk_size)\<^sup>*\<^sup>* s t \<Longrightarrow> client_step\<^sup>*\<^sup>* s t"
  by (rule rtranclp_mono [THEN predicate2D]) (auto simp: local_to_grpc_def intro: client_step.Task)

lemma stream_cases [case_names End Error Data HalfClose Reset Pong OpenResult Empty]:
  obtains "item = StreamEnd" | status where "item = StreamError status"
  | d where "item = Frame (Some (S_Data d))" | "item = Frame (Some S_HalfClose)"
  | reason where "item = Frame (Some (S_Reset reason))" | millis where "item = Frame (Some (S_Pong millis))"
  | ok error where "item = Frame (Some (S_OpenResult ok error))" | "item = Frame None"
  by (cases item rule: stream_item.exhaust; (metis option.exhaust server_payload.exhaust)?)

lemma local_task_keeps:
  assumes "local_to_grpc s t"
  shows "ct_main t = ct_main s" "ct_written t = ct_written s" "ct_shut t = ct_shut s" "ct_frames t = ct_frames s"
    "tk_aborting t = tk_aborting s"
  using assms unfolding local_to_grpc_def
  by (auto elim!: task_stepE simp: task_read_def task_sent_def channel_deliver_def channel_send_def split: if_splits)

lemma client_loop_keeps [simp]:
  "keeps_task s (handle_stream_item item err s)" "keeps_task s (deliver_some n bs s)"
  "keeps_task s (s\<lparr>ct_main := m\<rparr>)" "keeps_task s (client_fail e s)"
  by (cases item rule: stream_cases; simp add: keeps_task_def client_defs split: option.split)
    (simp_all add: keeps_task_def client_defs)

lemma half_close_frame_of [simp]: "rf_half_close client_frames = Some C_HalfClose"
  by (simp add: client_frames_def half_close_frame_def)

text \<open>Towards the backend: what was read, as data frames with at most one other frame at the end.\<close>

definition sending_inv :: "client_state \<Rightarrow> bool" where
  "sending_inv s \<longleftrightarrow> task_inv client_frames client_data client_queue client_chunk_size s \<and> alone_inv is_data s"

lemma sending_keeps: "sending_inv s \<Longrightarrow> keeps_task s t \<Longrightarrow> sending_inv t"
  by (simp add: sending_inv_def keeps_task_inv)

lemma sending_step: "client_step s t \<Longrightarrow> sending_inv s \<Longrightarrow> sending_inv t"
proof (induction rule: client_step.induct)
  case (Task s t)
  then show ?case
    unfolding sending_inv_def local_to_grpc_def by (blast intro: local_task.inv_step local_task.alone_step)
qed (erule sending_keeps, simp)+

lemma sending_start: "sending_inv client_start"
  by (simp add: sending_inv_def task_inv_def task_inv_defs alone_inv_def client_start_def channel_out_def unsent_def)

text \<open>Towards the local client: the data of the frames; the loop goes on only after data and pongs.\<close>

fun delivering :: "client_point \<Rightarrow> u8 list option" where
  "delivering Receiving = Some []"
| "delivering (Delivering bs) = Some bs"
| "delivering (Returned r) = None"

definition writer_inv :: "client_state \<Rightarrow> bool" where
  "writer_inv s \<longleftrightarrow>
     prefix (ct_written s) (server_bytes (ct_frames s)) \<and>
     (\<forall>bs. delivering (ct_main s) = Some bs \<longrightarrow>
        ct_written s @ bs = server_bytes (ct_frames s) \<and> list_all relayed (ct_frames s)) \<and>
     (ct_shut s \<longrightarrow> ct_main s = Returned (Inr ()) \<and> ct_written s = server_bytes (ct_frames s) \<and>
        Some S_HalfClose \<in> set (ct_frames s)) \<and>
     (tk_aborting s \<longrightarrow> ct_main s = Returned (Inr ()))"

lemma writer_item: "ct_main s = Receiving \<Longrightarrow> writer_inv s \<Longrightarrow> writer_inv (handle_stream_item item err s)"
  by (cases item rule: stream_cases) (auto simp: writer_inv_def client_defs split: option.split)

lemma writer_step: "client_step s t \<Longrightarrow> writer_inv s \<Longrightarrow> writer_inv t"
proof (induction rule: client_step.induct)
  case (Item s item err)
  then show ?case by (simp add: writer_item)
next
  case (Write s bs n)
  then have "(ct_written s @ take n bs) @ drop n bs = server_bytes (ct_frames s)" by (simp add: writer_inv_def)
  with Write show ?case unfolding writer_inv_def deliver_some_def by (simp, metis append_assoc prefixI)
next
  case (Task s t)
  then show ?case by (simp add: writer_inv_def local_task_keeps [OF Task(1)])
qed (auto simp: writer_inv_def client_defs)

lemma writer_start: "writer_inv client_start"
  by (simp add: writer_inv_def client_start_def)

section \<open>Properties\<close>

lemma relay_grpc_open_Inr:
  assumes "relay_grpc_open env pool host port first = Some (Inr ch, pool')"
  shows "\<exists>answer. ce_metadata_ok env (''Bearer '' @ pool_auth_token pool) \<and>
    ce_call env ch (''Bearer '' @ pool_auth_token pool) (open_frame host port first) =
      Inr (Frame (Some (S_OpenResult True answer)))"
  using assms
  by (auto simp: relay_grpc_open_def acquire_stream_permit_def pick_def Let_def pool_auth_token_def open_answer_Inr
      split: sum.splits option.splits if_splits)

text \<open>
  C36. Opening a tunnel waits exactly while the pool has no free permit; otherwise it gives back its
  permit on every error, and on success holds it and has made one call, on a channel of the pool,
  authorised by the token of that backend, with an Open frame for exactly the host, port and
  first bytes, which the backend answered with a successful result.
\<close>

theorem tunnel_open_permit:
  "case relay_grpc_open env pool host port first of
     None \<Rightarrow> bp_permits pool = 0
   | Some (Inl e, pool') \<Rightarrow> bp_permits pool \<noteq> 0 \<and> bp_permits pool' = bp_permits pool
   | Some (Inr ch, pool') \<Rightarrow>
       bp_permits pool = bp_permits pool' + 1 \<and> ch \<in> set (bp_channels pool) \<and>
       (\<exists>msg answer. om_target_host msg = host \<and> unat (om_target_port msg) = unat port \<and> om_first_payload msg = first \<and>
          ce_call env ch (''Bearer '' @ bc_auth_token (bp_backend pool)) (Some (C_Open msg)) =
            Inr (Frame (Some (S_OpenResult True answer))))"
proof (cases "bp_permits pool = 0")
  case True
  then show ?thesis by (simp add: relay_grpc_open_def acquire_stream_permit_def)
next
  case False
  have port: "unat (ucast port :: u32) = unat port"
    using unat_u16_less [of port] by (simp add: unsigned_ucast_eq take_bit_nat_eq_self)
  let ?n = "length (bp_channels pool)"
  show ?thesis
  proof (cases "?n = 0")
    case True
    with False show ?thesis
      by (simp add: relay_grpc_open_def acquire_stream_permit_def pick_def Let_def drop_permit_def)
  next
    case nonempty: False
    then have "bp_channels pool ! (unat (bp_next pool) mod ?n) \<in> set (bp_channels pool)" by simp
    with False nonempty port show ?thesis
      by (auto simp: relay_grpc_open_def acquire_stream_permit_def pick_def Let_def drop_permit_def
          pool_auth_token_def open_frame_def open_answer_Inr
          split: sum.splits option.splits intro!: exI)
  qed
qed

text \<open>
  C37. Towards the backend, in every order of events: the data frames carry the bytes read from the
  local connection, in order and all of them but those in the hands of the reading task while
  the request stream is alive and the loop has not returned; at most 64 frames wait in the
  channel; no data frame is larger than half the maximal message size; every frame but the last
  is data, and none follows a half close, which comes after the end of the connection, or reset.
\<close>

theorem client_upstream_in_order:
  assumes "client_step\<^sup>*\<^sup>* client_start s"
  shows "prefix (client_bytes (channel_out s)) (tk_read s) \<and>
    (tk_receiver s \<and> ct_main s \<noteq> Returned (Inr ()) \<longrightarrow> client_bytes (channel_out s @ unsent s) = tk_read s) \<and>
    length (tk_queue s) \<le> 64 \<and>
    (\<forall>f \<in> set (channel_out s). 2 * length (client_data f) \<le> max_message_size) \<and>
    list_all is_data (butlast (channel_out s)) \<and> (tk_task s \<noteq> Stopped \<longrightarrow> list_all is_data (channel_out s)) \<and>
    (Some C_HalfClose \<in> set (channel_out s) \<longrightarrow> tk_eof s)"
proof -
  have "sending_inv s" using assms sending_start by (rule client_run) (rule sending_step)
  moreover have "writer_inv s" using assms writer_start by (rule client_run) (rule writer_step)
  ultimately show ?thesis
    by (auto simp: sending_inv_def writer_inv_def alone_inv_def task_inv_def carries_def channel_bounds_def
        half_close_last_def client_queue_def client_chunk_size_def max_message_size_def)
qed

text \<open>
  Towards the local client: it has been given a prefix of the data of the backend's frames, all
  of it whenever the loop waits for a frame, and all of it when its connection is shut down for
  writing, which happens only on the half close of the backend.
\<close>

theorem client_downstream_in_order:
  assumes "client_step\<^sup>*\<^sup>* client_start s"
  shows "prefix (ct_written s) (server_bytes (ct_frames s)) \<and>
    (ct_main s = Receiving \<longrightarrow> ct_written s = server_bytes (ct_frames s)) \<and>
    (ct_shut s \<longrightarrow> ct_main s = Returned (Inr ()) \<and> ct_written s = server_bytes (ct_frames s) \<and>
       Some S_HalfClose \<in> set (ct_frames s))"
proof -
  have "writer_inv s" using assms writer_start by (rule client_run) (rule writer_step)
  then show ?thesis by (cases "ct_main s") (auto simp: writer_inv_def)
qed

section \<open>Errors leave the reader behind\<close>

text \<open>What can happen while the local client neither sends nor closes: every step but a read.\<close>

definition quiet_step :: "client_state \<Rightarrow> client_state \<Rightarrow> bool" where
  "quiet_step s t \<longleftrightarrow> client_step s t \<and> \<not> (\<exists>rd. tk_task s = Reading \<and> t = task_read client_frames rd s)"

definition stuck_reader :: "client_state \<Rightarrow> bool" where
  "stuck_reader s \<longleftrightarrow> tk_task s = Reading \<and> \<not> tk_aborting s \<and> (\<exists>e. ct_main s = Returned (Inl e))"

lemma stuck_step:
  assumes "quiet_step s t" "stuck_reader s"
  shows "stuck_reader t"
proof -
  from assms have "client_step s t" "\<not> (\<exists>rd. t = task_read client_frames rd s)" "tk_task s = Reading"
    by (auto simp: quiet_step_def stuck_reader_def)
  then show ?thesis
    using assms(2) unfolding stuck_reader_def
    by (elim client_stepE) (auto simp: local_to_grpc_def channel_deliver_def elim!: task_stepE)
qed

text \<open>
  When the relay ends with an error while the local connection is being read, the task that
  reads it is not stopped: the connection stays open, for as long as the local client neither
  sends nor closes, whatever else happens. (After a half close of the backend it is stopped.)
\<close>

theorem error_leaves_local_open:
  assumes "\<not> returned s" "tk_task s = Reading" "\<not> tk_aborting s" "client_step s t"
    and "ct_main t = Returned (Inl e)" "quiet_step\<^sup>*\<^sup>* t u"
  shows "local_open u \<and> tk_task u = Reading"
proof -
  have "tk_task t = Reading \<and> \<not> tk_aborting t"
    using assms(4,1,2,3,5)
  proof (induction rule: client_step.induct)
    case (Item s item err)
    then show ?case
      by (cases item rule: stream_cases) (auto simp: client_defs split: option.splits)
  next
    case (Task s t)
    then show ?case by (auto simp: returned_def local_task_keeps [OF Task(1)])
  qed (simp_all add: client_defs)
  with assms(5) have "stuck_reader t" by (simp add: stuck_reader_def)
  with assms(6) have "stuck_reader u"
    by (induction rule: rtranclp_induct) (auto intro: stuck_step)
  then show ?thesis by (simp add: stuck_reader_def local_open_def)
qed

section \<open>Witnesses\<close>

definition demo_reply :: client_state where
  "demo_reply = (deliver_some 1 [7] (handle_stream_item (Frame (Some (S_Data [7]))) None client_start))\<lparr>ct_main := Receiving\<rparr>"

definition demo_typing :: client_state where
  "demo_typing = drained (task_read client_frames (ReadBytes [1]) demo_reply)"

definition demo_client_end :: client_state where
  "demo_client_end = drained (task_read client_frames ReadEof demo_typing)"

lemmas demo_client_defs = demo_reply_def demo_typing_def demo_client_end_def client_defs drained_def task_read_def
  client_frames_def data_frame_def half_close_frame_def channel_out_def unsent_def

lemma reads_into_channel:
  assumes "tk_task s = Reading" "tk_receiver s" "read_possible client_chunk_size rd"
  shows "client_step\<^sup>*\<^sup>* s (drained (task_read client_frames rd s))"
proof (rule client_task_runs, rule converse_rtranclp_into_rtranclp)
  show "task_step client_frames client_queue client_chunk_size s (task_read client_frames rd s)"
    using assms(1,3) by (rule task_step.Read)
  show "(task_step client_frames client_queue client_chunk_size)\<^sup>*\<^sup>* (task_read client_frames rd s)
      (drained (task_read client_frames rd s))"
    by (rule task_drains) (simp_all add: task_read_def assms(2) client_queue_def)
qed

lemma demo_client_run: "client_step\<^sup>*\<^sup>* client_start demo_client_end"
proof -
  let ?a = "handle_stream_item (Frame (Some (S_Data [7]))) None client_start"
  have "client_step client_start ?a" by (rule client_step.Item) (simp add: client_start_def)
  moreover have "client_step ?a (deliver_some 1 [7] ?a)"
    by (rule client_step.Write) (simp_all add: client_start_def)
  moreover have "client_step (deliver_some 1 [7] ?a) demo_reply"
    unfolding demo_reply_def by (rule client_step.Written) (simp add: client_defs)
  ultimately have "client_step\<^sup>*\<^sup>* client_start demo_reply"
    by (meson r_into_rtranclp rtranclp.rtrancl_into_rtrancl)
  moreover have "client_step\<^sup>*\<^sup>* demo_reply demo_typing"
    unfolding demo_typing_def
    by (rule reads_into_channel) (simp_all add: demo_reply_def client_defs client_chunk_size_def)
  moreover have "client_step\<^sup>*\<^sup>* demo_typing demo_client_end"
    unfolding demo_client_end_def by (rule reads_into_channel) (simp_all add: demo_client_defs)
  ultimately show ?thesis by (meson rtranclp_trans)
qed

lemma demo_client_state:
  "tk_receiver demo_client_end" "channel_out demo_client_end = [Some (C_Data [1]), Some C_HalfClose]"
  "unsent demo_client_end = []" "tk_read demo_client_end = [1]" "ct_main demo_client_end = Receiving"
  "ct_frames demo_client_end = [Some (S_Data [7])]"
  by (simp_all add: demo_client_defs)

theorem client_upstream_in_order_witness:
  "client_bytes [Some (C_Data [1]), Some C_HalfClose] = [1] \<and> tk_eof demo_client_end"
  using client_upstream_in_order [OF demo_client_run] by (simp add: demo_client_state)

theorem client_downstream_in_order_witness: "ct_written demo_client_end = [7]"
  using client_downstream_in_order [OF demo_client_run] by (simp add: demo_client_state)

theorem error_leaves_local_open_witness:
  "local_open (handle_stream_item (Frame (Some (S_Reset ''gone''))) None client_start)"
proof -
  let ?t = "handle_stream_item (Frame (Some (S_Reset ''gone''))) None client_start"
  have "client_step client_start ?t" by (rule client_step.Item) (simp add: client_start_def)
  from error_leaves_local_open [OF _ _ _ this] show ?thesis by (simp add: client_defs returned_def)
qed

end
