(* ===== verification/Tunnel_Pool.thy ===== *)
theory Tunnel_Pool
  imports Client_Tunnel
begin

text \<open>
  Many tunnels on one backend pool: \<open>relay_grpc\<close> of \<open>client/src/tunnel.rs\<close>, from the wait for a
  permit to its return, run by any number of connection handlers at once. The pool of
  \<open>grpc_pool.rs\<close>, its semaphore and its counter are shared; every access to them is a step of its
  own, between which the other tunnels go on.
\<close>

section \<open>The tunnels of a pool\<close>

text \<open>
  Where a call of \<open>relay_grpc\<close> is: waiting for a permit, with the permit, waiting for the answer to
  the call, in the relay, or over, with an error before the relay or after it. After the relay the
  reading task may still be there.
\<close>

datatype 'ch tunnel_phase =
    Waiting string u16 "u8 list"
  | Permitted string u16 "u8 list"
  | Calling 'ch client_frame
  | Relaying 'ch client_state
  | NotOpened tunnel_error
  | Finished 'ch client_state

text \<open>\<open>pt_picked\<close> records what \<open>pick\<close> gave, for the statements only.\<close>

record 'ch pool_tunnels =
  pt_pool :: "'ch backend_pool"
  pt_tunnels :: "'ch tunnel_phase list"
  pt_picked :: "'ch option list"

definition pool_start :: "'ch backend_pool \<Rightarrow> 'ch pool_tunnels" where
  "pool_start pool = \<lparr>pt_pool = pool, pt_tunnels = [], pt_picked = []\<rparr>"

definition set_tunnel :: "nat \<Rightarrow> 'ch tunnel_phase \<Rightarrow> 'ch backend_pool \<Rightarrow> 'ch pool_tunnels \<Rightarrow> 'ch pool_tunnels" where
  "set_tunnel i t pool s = s\<lparr>pt_pool := pool, pt_tunnels := (pt_tunnels s)[i := t]\<rparr>"

text \<open>With the permit: the channel, the token and the call.\<close>

definition after_permit ::
    "(string \<Rightarrow> bool) \<Rightarrow> string \<Rightarrow> u16 \<Rightarrow> u8 list \<Rightarrow> 'ch backend_pool \<Rightarrow> 'ch tunnel_phase \<times> 'ch backend_pool" where
  "after_permit metadata_ok host port first pool =
     (case pick pool of
        (None, pool) \<Rightarrow> (NotOpened PickPanic, drop_permit pool)
      | (Some channel, pool) \<Rightarrow>
          if \<not> metadata_ok (''Bearer '' @ pool_auth_token pool) then (NotOpened InvalidToken, drop_permit pool)
          else (Calling channel (open_frame host port first), pool))"

text \<open>With the answer: the relay, or an error, whose return gives back the permit.\<close>

definition after_answer ::
    "'ch \<Rightarrow> string + stream_item \<Rightarrow> 'ch backend_pool \<Rightarrow> 'ch tunnel_phase \<times> 'ch backend_pool" where
  "after_answer channel answer pool =
     (case open_answer answer of
        Inl e \<Rightarrow> (NotOpened e, drop_permit pool)
      | Inr _ \<Rightarrow> (Relaying channel client_start, pool))"

inductive pool_tunnels_step :: "(string \<Rightarrow> bool) \<Rightarrow> 'ch pool_tunnels \<Rightarrow> 'ch pool_tunnels \<Rightarrow> bool"
  for metadata_ok where
  Arrive: "pool_tunnels_step metadata_ok s (s\<lparr>pt_tunnels := pt_tunnels s @ [Waiting host port first]\<rparr>)"
| Acquire: "i < length (pt_tunnels s) \<Longrightarrow> pt_tunnels s ! i = Waiting host port first \<Longrightarrow>
    acquire_stream_permit (pt_pool s) = Some pool \<Longrightarrow>
    pool_tunnels_step metadata_ok s (set_tunnel i (Permitted host port first) pool s)"
| Pick: "i < length (pt_tunnels s) \<Longrightarrow> pt_tunnels s ! i = Permitted host port first \<Longrightarrow>
    after_permit metadata_ok host port first (pt_pool s) = (t, pool) \<Longrightarrow>
    pool_tunnels_step metadata_ok s
      ((set_tunnel i t pool s)\<lparr>pt_picked := pt_picked s @ [fst (pick (pt_pool s))]\<rparr>)"
| Answer: "i < length (pt_tunnels s) \<Longrightarrow> pt_tunnels s ! i = Calling channel frame \<Longrightarrow>
    after_answer channel answer (pt_pool s) = (t, pool) \<Longrightarrow>
    pool_tunnels_step metadata_ok s (set_tunnel i t pool s)"
| Relay: "i < length (pt_tunnels s) \<Longrightarrow> pt_tunnels s ! i = Relaying channel c \<Longrightarrow> client_step c c' \<Longrightarrow>
    pool_tunnels_step metadata_ok s (set_tunnel i (Relaying channel c') (pt_pool s) s)"
| Return: "i < length (pt_tunnels s) \<Longrightarrow> pt_tunnels s ! i = Relaying channel c \<Longrightarrow> returned c \<Longrightarrow>
    pool_tunnels_step metadata_ok s (set_tunnel i (Finished channel c) (drop_permit (pt_pool s)) s)"
| Leftover: "i < length (pt_tunnels s) \<Longrightarrow> pt_tunnels s ! i = Finished channel c \<Longrightarrow> local_to_grpc c c' \<Longrightarrow>
    pool_tunnels_step metadata_ok s (set_tunnel i (Finished channel c') (pt_pool s) s)"

text \<open>The tunnels that hold a permit.\<close>

fun holds_permit :: "'ch tunnel_phase \<Rightarrow> bool" where
  "holds_permit (Permitted host port first) \<longleftrightarrow> True"
| "holds_permit (Calling channel frame) \<longleftrightarrow> True"
| "holds_permit (Relaying channel c) \<longleftrightarrow> True"
| "holds_permit _ \<longleftrightarrow> False"

definition open_tunnels :: "'ch pool_tunnels \<Rightarrow> nat" where
  "open_tunnels s = length (filter holds_permit (pt_tunnels s))"

section \<open>One tunnel alone is \<open>relay_grpc_open\<close>\<close>

text \<open>The function and the steps agree: with the answer that the call gives, they open the same tunnel.\<close>

lemma relay_grpc_open_phases:
  "relay_grpc_open env pool host port first =
     (case acquire_stream_permit pool of
        None \<Rightarrow> None
      | Some pool \<Rightarrow>
          (case after_permit (ce_metadata_ok env) host port first pool of
             (NotOpened e, pool) \<Rightarrow> Some (Inl e, pool)
           | (Calling channel frame, pool) \<Rightarrow>
               (case after_answer channel (ce_call env channel (''Bearer '' @ pool_auth_token pool) frame) pool of
                  (NotOpened e, pool) \<Rightarrow> Some (Inl e, pool)
                | (Relaying channel c, pool) \<Rightarrow> Some (Inr channel, pool))))"
  by (simp add: relay_grpc_open_def after_permit_def after_answer_def Let_def
      split: option.split prod.split sum.split)

section \<open>Invariants\<close>

text \<open>What is known of a tunnel of a pool with these channels, whatever the others do.\<close>

fun tunnel_ok :: "'ch list \<Rightarrow> 'ch tunnel_phase \<Rightarrow> bool" where
  "tunnel_ok channels (Calling channel frame) \<longleftrightarrow>
     channel \<in> set channels \<and> (\<exists>host port first. frame = open_frame host port first)"
| "tunnel_ok channels (Relaying channel c) \<longleftrightarrow> channel \<in> set channels \<and> client_step\<^sup>*\<^sup>* client_start c"
| "tunnel_ok channels (Finished channel c) \<longleftrightarrow>
     channel \<in> set channels \<and> client_step\<^sup>*\<^sup>* client_start c \<and> returned c"
| "tunnel_ok channels _ \<longleftrightarrow> True"

definition pool_inv :: "'ch backend_pool \<Rightarrow> 'ch pool_tunnels \<Rightarrow> bool" where
  "pool_inv pool s \<longleftrightarrow>
     bp_permits (pt_pool s) + open_tunnels s = bp_permits pool \<and>
     bp_channels (pt_pool s) = bp_channels pool \<and> bp_backend (pt_pool s) = bp_backend pool \<and>
     list_all (tunnel_ok (bp_channels pool)) (pt_tunnels s)"

definition picks_inv :: "'ch backend_pool \<Rightarrow> 'ch pool_tunnels \<Rightarrow> bool" where
  "picks_inv pool s \<longleftrightarrow>
     bp_channels (pt_pool s) = bp_channels pool \<and>
     bp_next (pt_pool s) = bp_next pool + of_nat (length (pt_picked s)) \<and>
     pt_picked s = pick_n (length (pt_picked s)) pool"

lemma pool_inv_start: "pool_inv pool (pool_start pool)"
  by (simp add: pool_inv_def pool_start_def open_tunnels_def)

lemma pool_inv_set:
  assumes "pool_inv pool s" "i < length (pt_tunnels s)" "tunnel_ok (bp_channels pool) t"
    and "bp_permits pool' + of_bool (holds_permit t) = bp_permits (pt_pool s) + of_bool (holds_permit (pt_tunnels s ! i))"
    and "bp_channels pool' = bp_channels (pt_pool s)" "bp_backend pool' = bp_backend (pt_pool s)"
  shows "pool_inv pool (set_tunnel i t pool' s)"
proof -
  have "length (filter holds_permit ((pt_tunnels s)[i := t])) + of_bool (holds_permit (pt_tunnels s ! i)) =
      length (filter holds_permit (pt_tunnels s)) + of_bool (holds_permit t)"
    using assms(2) by (rule length_filter_update)
  then have "bp_permits pool' + open_tunnels (set_tunnel i t pool' s) = bp_permits pool"
    using assms(1,4) unfolding pool_inv_def open_tunnels_def set_tunnel_def by simp
  moreover have "list_all (tunnel_ok (bp_channels pool)) ((pt_tunnels s)[i := t])"
    using assms(1,3) set_update_subset_insert [of "pt_tunnels s" i t] by (auto simp: pool_inv_def list_all_iff)
  ultimately show ?thesis
    using assms(1,5,6) by (simp add: pool_inv_def set_tunnel_def)
qed

lemma after_permit_cases:
  assumes "after_permit metadata_ok host port first pool = (t, pool')"
  shows "tunnel_ok (bp_channels pool) t \<and> bp_permits pool' + of_bool (holds_permit t) = bp_permits pool + 1 \<and>
    bp_channels pool' = bp_channels pool \<and> bp_backend pool' = bp_backend pool \<and> bp_next pool' = bp_next pool + 1"
  using assms
  by (auto simp: after_permit_def pick_def Let_def drop_permit_def intro!: exI split: if_splits)

lemma after_answer_cases:
  assumes "after_answer channel answer pool = (t, pool')" "channel \<in> set channels"
  shows "tunnel_ok channels t \<and> bp_permits pool' + of_bool (holds_permit t) = bp_permits pool + 1 \<and>
    bp_channels pool' = bp_channels pool \<and> bp_backend pool' = bp_backend pool \<and> bp_next pool' = bp_next pool"
  using assms by (auto simp: after_answer_def drop_permit_def split: sum.splits)

lemma pool_inv_tunnel: "pool_inv pool s \<Longrightarrow> i < length (pt_tunnels s) \<Longrightarrow> tunnel_ok (bp_channels pool) (pt_tunnels s ! i)"
  by (simp add: pool_inv_def list_all_length)

lemma pool_inv_step: "pool_tunnels_step metadata_ok s s' \<Longrightarrow> pool_inv pool s \<Longrightarrow> pool_inv pool s'"
proof (induction rule: pool_tunnels_step.induct)
  case (Arrive s host port first)
  then show ?case by (simp add: pool_inv_def open_tunnels_def)
next
  case (Acquire i s host port first pool')
  then show ?case
    by (intro pool_inv_set) (auto simp: acquire_stream_permit_def split: if_splits)
next
  case (Pick i s host port first t pool')
  have "pool_inv pool (set_tunnel i t pool' s)"
    using after_permit_cases [OF Pick(3)] Pick by (intro pool_inv_set) (auto simp: pool_inv_def)
  then show ?case by (simp add: pool_inv_def open_tunnels_def)
next
  case (Answer i s channel frame answer t pool')
  have "channel \<in> set (bp_channels pool)" using pool_inv_tunnel [OF Answer(4,1)] Answer(2) by simp
  from after_answer_cases [OF Answer(3) this] Answer show ?case by (intro pool_inv_set) auto
next
  case (Relay i s channel c c')
  have "tunnel_ok (bp_channels pool) (Relaying channel c)" using pool_inv_tunnel [OF Relay(4,1)] Relay(2) by simp
  with Relay show ?case by (intro pool_inv_set) (auto intro: rtranclp.rtrancl_into_rtrancl)
next
  case (Return i s channel c)
  have "tunnel_ok (bp_channels pool) (Relaying channel c)" using pool_inv_tunnel [OF Return(4,1)] Return(2) by simp
  with Return show ?case by (intro pool_inv_set) (auto simp: drop_permit_def)
next
  case (Leftover i s channel c c')
  have "tunnel_ok (bp_channels pool) (Finished channel c)" using pool_inv_tunnel [OF Leftover(4,1)] Leftover(2) by simp
  moreover have "client_step c c'" "returned c = returned c'"
    using Leftover(3) by (auto intro: client_step.Task simp: returned_def local_task_keeps)
  ultimately show ?case
    using Leftover by (intro pool_inv_set) (auto intro: rtranclp.rtrancl_into_rtrancl)
qed

lemma pool_inv_run: "(pool_tunnels_step metadata_ok)\<^sup>*\<^sup>* (pool_start pool) s \<Longrightarrow> pool_inv pool s"
  by (induction rule: rtranclp_induct) (auto intro: pool_inv_start pool_inv_step)

section \<open>Which channels are used\<close>

lemma pick_same: "bp_channels p = bp_channels q \<Longrightarrow> bp_next p = bp_next q \<Longrightarrow> fst (pick p) = fst (pick q)"
  by (simp add: pick_def Let_def)

lemma length_pick_n [simp]: "length (pick_n m pool) = m"
  by (induction m arbitrary: pool) simp_all

lemma pick_n_snoc: "pick_n (Suc m) pool = pick_n m pool @ [fst (pick (pool\<lparr>bp_next := bp_next pool + of_nat m\<rparr>))]"
proof (induction m arbitrary: pool)
  case (Suc m)
  have "pick_n (Suc m) (snd (pick pool)) =
      pick_n m (snd (pick pool)) @ [fst (pick (pool\<lparr>bp_next := bp_next pool + of_nat (Suc m)\<rparr>))]"
    using Suc [of "snd (pick pool)"] by (simp add: pick_state add.assoc del: pick_n.simps)
  then show ?case by (simp only: pick_n.simps append_Cons)
qed (simp add: pick_state)

text \<open>Only the step that picks changes the counter or what was picked.\<close>

lemma picks_inv_set:
  "picks_inv pool s \<Longrightarrow> bp_channels pool' = bp_channels (pt_pool s) \<Longrightarrow> bp_next pool' = bp_next (pt_pool s) \<Longrightarrow>
     picks_inv pool (set_tunnel i t pool' s)"
  by (simp add: picks_inv_def set_tunnel_def)

lemma picks_inv_step: "pool_tunnels_step metadata_ok s s' \<Longrightarrow> picks_inv pool s \<Longrightarrow> picks_inv pool s'"
proof (induction rule: pool_tunnels_step.induct)
  case (Pick i s host port first t pool')
  let ?m = "length (pt_picked s)"
  from Pick(4) have s: "bp_channels (pt_pool s) = bp_channels pool" "bp_next (pt_pool s) = bp_next pool + of_nat ?m"
      "pt_picked s = pick_n ?m pool"
    by (simp_all add: picks_inv_def)
  have "pt_picked s @ [fst (pick (pt_pool s))] = pick_n (Suc ?m) pool"
    using s(3) pick_same [of "pt_pool s" "pool\<lparr>bp_next := bp_next pool + of_nat ?m\<rparr>"] s(1,2)
    unfolding pick_n_snoc by simp
  with after_permit_cases [OF Pick(3)] s(1,2) show ?case
    by (simp add: picks_inv_def set_tunnel_def add.assoc add.commute del: pick_n.simps)
next
  case (Answer i s channel frame answer t pool')
  from Answer(3) have "bp_channels pool' = bp_channels (pt_pool s) \<and> bp_next pool' = bp_next (pt_pool s)"
    by (auto simp: after_answer_def drop_permit_def split: sum.splits)
  with Answer(4) show ?case by (intro picks_inv_set) auto
qed (auto simp: acquire_stream_permit_def drop_permit_def picks_inv_def set_tunnel_def split: if_splits)

lemma picks_inv_run: "(pool_tunnels_step metadata_ok)\<^sup>*\<^sup>* (pool_start pool) s \<Longrightarrow> picks_inv pool s"
proof (induction rule: rtranclp_induct)
  case base
  show ?case by (simp add: picks_inv_def pool_start_def)
qed (auto intro: picks_inv_step)

section \<open>Readers left behind\<close>

text \<open>
  A tunnel that is over with an error and whose reading task waits for its local client, not told to
  stop (\<open>stuck_reader\<close>).
\<close>

fun left_behind :: "'ch tunnel_phase \<Rightarrow> bool" where
  "left_behind (Finished channel c) \<longleftrightarrow> stuck_reader c"
| "left_behind _ \<longleftrightarrow> False"

text \<open>
  What can happen while the local clients of the tunnels that are over neither send nor close: every
  step of the pool but a read by a reading task that is left over.
\<close>

definition leftover_read :: "'ch pool_tunnels \<Rightarrow> 'ch pool_tunnels \<Rightarrow> bool" where
  "leftover_read s s' \<longleftrightarrow>
     (\<exists>i channel c rd. i < length (pt_tunnels s) \<and> pt_tunnels s ! i = Finished channel c \<and> tk_task c = Reading \<and>
        s' = set_tunnel i (Finished channel (task_read client_frames rd c)) (pt_pool s) s)"

definition quiet_pool_step :: "(string \<Rightarrow> bool) \<Rightarrow> 'ch pool_tunnels \<Rightarrow> 'ch pool_tunnels \<Rightarrow> bool" where
  "quiet_pool_step metadata_ok s s' \<longleftrightarrow> pool_tunnels_step metadata_ok s s' \<and> \<not> leftover_read s s'"

text \<open>The tunnels that were left behind stay, each at its place, whatever the others do.\<close>

lemma left_behind_set:
  assumes "i < length (pt_tunnels s)" "left_behind (pt_tunnels s ! i)" "j = i \<Longrightarrow> left_behind t"
  shows "i < length (pt_tunnels (set_tunnel j t pool s)) \<and> left_behind (pt_tunnels (set_tunnel j t pool s) ! i)"
  using assms by (cases "j = i") (simp_all add: set_tunnel_def)

lemma left_behind_step:
  assumes "quiet_pool_step metadata_ok s s'" "i < length (pt_tunnels s)" "left_behind (pt_tunnels s ! i)"
  shows "i < length (pt_tunnels s') \<and> left_behind (pt_tunnels s' ! i)"
proof -
  from assms(1) have "pool_tunnels_step metadata_ok s s'" "\<not> leftover_read s s'" by (simp_all add: quiet_pool_step_def)
  then show ?thesis
    using assms(2,3)
  proof (induction rule: pool_tunnels_step.induct)
    case (Leftover j s channel c c')
    show ?case
    proof (intro left_behind_set Leftover.prems(2,3))
      assume "j = i"
      with Leftover have c: "stuck_reader c" "tk_task c = Reading" by (simp_all add: stuck_reader_def)
      with Leftover have "quiet_step c c'" unfolding quiet_step_def leftover_read_def by (blast intro: client_step.Task)
      then show "left_behind (Finished channel c')" using c(1) by (simp add: stuck_step)
    qed
  next
    case (Pick j s host port first t pool)
    then have "j \<noteq> i" by auto
    with left_behind_set [OF Pick.prems(2,3)] show ?case by simp
  next
    case (Arrive s host port first)
    then show ?case by (simp add: nth_append)
  qed (rule left_behind_set, assumption, assumption, fastforce)+
qed

lemma left_behind_run:
  assumes "(quiet_pool_step metadata_ok)\<^sup>*\<^sup>* s s'" "i < length (pt_tunnels s)" "left_behind (pt_tunnels s ! i)"
  shows "i < length (pt_tunnels s') \<and> left_behind (pt_tunnels s' ! i)"
  using assms by (induction rule: rtranclp_induct) (auto dest: left_behind_step)

definition reset_client :: client_state where
  "reset_client = handle_stream_item (Frame (Some (S_Reset ''gone''))) None client_start"

lemma reset_client_state:
  "client_step client_start reset_client" "returned reset_client" "left_behind (Finished channel reset_client)"
  unfolding reset_client_def
  by (rule client_step.Item) (simp_all add: client_start_def client_fail_def returned_def stuck_reader_def)

text \<open>A tunnel that the backend accepts and then resets, from its arrival to its return.\<close>

lemma leave_one:
  assumes "bp_permits (pt_pool s) \<noteq> 0" "bp_channels (pt_pool s) \<noteq> []"
    and "metadata_ok (''Bearer '' @ pool_auth_token (pt_pool s))"
  shows "\<exists>s' channel. (pool_tunnels_step metadata_ok)\<^sup>*\<^sup>* s s' \<and> pt_tunnels s' = pt_tunnels s @ [Finished channel reset_client] \<and>
    bp_permits (pt_pool s') = bp_permits (pt_pool s) \<and> bp_channels (pt_pool s') = bp_channels (pt_pool s) \<and>
    bp_backend (pt_pool s') = bp_backend (pt_pool s)"
proof -
  let ?R = "pool_tunnels_step metadata_ok"
  let ?i = "length (pt_tunnels s)"
  let ?p = "(pt_pool s)\<lparr>bp_permits := bp_permits (pt_pool s) - 1\<rparr>"
  let ?q = "?p\<lparr>bp_next := bp_next (pt_pool s) + 1\<rparr>"
  obtain channel where pick: "pick ?p = (Some channel, ?q)"
    using assms(2) by (simp add: pick_def Let_def)
  define a where "a = s\<lparr>pt_tunnels := pt_tunnels s @ [Waiting [] 1 []]\<rparr>"
  define b where "b = set_tunnel ?i (Permitted [] 1 []) ?p a"
  define c where "c = (set_tunnel ?i (Calling channel (open_frame [] 1 [])) ?q b)\<lparr>pt_picked := pt_picked b @ [fst (pick (pt_pool b))]\<rparr>"
  define d where "d = set_tunnel ?i (Relaying channel client_start) ?q c"
  define e where "e = set_tunnel ?i (Relaying channel reset_client) ?q d"
  define f where "f = set_tunnel ?i (Finished channel reset_client) (drop_permit ?q) e"
  note defs = a_def b_def c_def d_def e_def f_def set_tunnel_def
  have "?R s a" unfolding a_def by (rule pool_tunnels_step.Arrive)
  moreover have "?R a b" unfolding b_def
    by (rule pool_tunnels_step.Acquire) (use assms(1) in \<open>simp_all add: a_def acquire_stream_permit_def\<close>)
  moreover have "?R b c" unfolding c_def
    by (rule pool_tunnels_step.Pick) (use assms(3) pick in \<open>simp_all add: defs after_permit_def pool_auth_token_def\<close>)
  moreover have "?R c d" unfolding d_def
    by (rule pool_tunnels_step.Answer [where answer = "Inr (Frame (Some (S_OpenResult True [])))"])
      (simp_all add: defs after_answer_def open_answer_def)
  moreover have "?R d e"
    using pool_tunnels_step.Relay [of ?i d channel client_start reset_client metadata_ok] reset_client_state(1)
    by (simp add: e_def) (simp add: defs)
  moreover have "?R e f"
    using pool_tunnels_step.Return [of ?i e channel reset_client metadata_ok] reset_client_state(2)
    by (simp add: f_def) (simp add: defs)
  ultimately have "?R\<^sup>*\<^sup>* s f" by (meson rtranclp.rtrancl_into_rtrancl rtranclp.rtrancl_refl)
  then show ?thesis
    using assms(1) by (intro exI [of _ f] exI [of _ channel]) (simp add: defs drop_permit_def)
qed

lemma leave_many:
  assumes "bp_permits pool \<noteq> 0" "bp_channels pool \<noteq> []" "metadata_ok (''Bearer '' @ pool_auth_token pool)"
  shows "\<exists>s. (pool_tunnels_step metadata_ok)\<^sup>*\<^sup>* (pool_start pool) s \<and> length (pt_tunnels s) = n \<and>
    list_all left_behind (pt_tunnels s) \<and> bp_permits (pt_pool s) = bp_permits pool \<and>
    bp_channels (pt_pool s) = bp_channels pool \<and> bp_backend (pt_pool s) = bp_backend pool"
proof (induction n)
  case 0
  show ?case by (intro exI [of _ "pool_start pool"]) (simp add: pool_start_def)
next
  case (Suc n)
  then obtain s where run: "(pool_tunnels_step metadata_ok)\<^sup>*\<^sup>* (pool_start pool) s"
    and s: "length (pt_tunnels s) = n" "list_all left_behind (pt_tunnels s)" "bp_permits (pt_pool s) = bp_permits pool"
      "bp_channels (pt_pool s) = bp_channels pool" "bp_backend (pt_pool s) = bp_backend pool" by blast
  have "metadata_ok (''Bearer '' @ pool_auth_token (pt_pool s))"
    using assms(3) s(5) by (simp add: pool_auth_token_def)
  with leave_one [of s metadata_ok] assms(1,2) s(3,4) obtain s' channel where
    "(pool_tunnels_step metadata_ok)\<^sup>*\<^sup>* s s'" "pt_tunnels s' = pt_tunnels s @ [Finished channel reset_client]"
    "bp_permits (pt_pool s') = bp_permits pool" "bp_channels (pt_pool s') = bp_channels pool"
    "bp_backend (pt_pool s') = bp_backend pool"
    using s(5) by auto
  with run s(1,2) reset_client_state(3) [of channel] show ?case
    by (intro exI [of _ s']) (auto intro: rtranclp_trans simp del: left_behind.simps)
qed

section \<open>Properties\<close>

text \<open>
  C22. Whatever the tunnels of a pool do, in any interleaving of their steps: those that hold a permit
  are as many as permits are taken, so never more than the pool has, and one more can start
  exactly when they are fewer; each of them uses a channel of the pool, has sent the Open frame of
  a request, and relays as it would alone; and a tunnel that has given its permit back has
  returned.
\<close>

theorem pool_tunnels_bounded:
  assumes "(pool_tunnels_step metadata_ok)\<^sup>*\<^sup>* (pool_start pool) s"
  shows "open_tunnels s + bp_permits (pt_pool s) = bp_permits pool \<and>
    ((\<exists>p. acquire_stream_permit (pt_pool s) = Some p) \<longleftrightarrow> open_tunnels s < bp_permits pool) \<and>
    (\<forall>channel frame. Calling channel frame \<in> set (pt_tunnels s) \<longrightarrow>
       channel \<in> set (bp_channels pool) \<and> (\<exists>host port first. frame = open_frame host port first)) \<and>
    (\<forall>channel c. Relaying channel c \<in> set (pt_tunnels s) \<longrightarrow>
       channel \<in> set (bp_channels pool) \<and> client_step\<^sup>*\<^sup>* client_start c) \<and>
    (\<forall>channel c. Finished channel c \<in> set (pt_tunnels s) \<longrightarrow>
       channel \<in> set (bp_channels pool) \<and> client_step\<^sup>*\<^sup>* client_start c \<and> returned c)"
proof -
  have "pool_inv pool s" using assms by (rule pool_inv_run)
  then have "open_tunnels s + bp_permits (pt_pool s) = bp_permits pool"
    and ok: "\<And>t. t \<in> set (pt_tunnels s) \<Longrightarrow> tunnel_ok (bp_channels pool) t"
    by (auto simp: pool_inv_def list_all_iff)
  moreover from this(1) have "(\<exists>p. acquire_stream_permit (pt_pool s) = Some p) \<longleftrightarrow> open_tunnels s < bp_permits pool"
    by (auto simp: acquire_stream_permit_def)
  ultimately show ?thesis by (auto dest: ok)
qed

text \<open>
  C21. The channels of a pool are used evenly by its tunnels together: as long as the counter does not
  wrap, whenever \<open>k\<close> rounds of \<open>pick\<close> have been made, by whichever tunnels and whatever happened
  in between, every channel has been given exactly \<open>k\<close> times.
\<close>

theorem pool_channels_fair:
  assumes "(pool_tunnels_step metadata_ok)\<^sup>*\<^sup>* (pool_start pool) s" "bp_channels pool \<noteq> []"
    and "length (pt_picked s) = k * length (bp_channels pool)" "unat (bp_next pool) + length (pt_picked s) \<le> 2 ^ 64"
  shows "mset (pt_picked s) = repeat_mset k (mset (map Some (bp_channels pool)))"
proof -
  have "pt_picked s = pick_n (k * length (bp_channels pool)) pool"
    using picks_inv_run [OF assms(1)] assms(3) by (simp add: picks_inv_def)
  with round_robin_fair [OF assms(2)] assms(3,4) show ?thesis by simp
qed

text \<open>
  C38. The permits do not bound the connections that a client holds: for every number there is a run
  after which that many tunnels are over with an error, the pool has all its permits back, and
  whatever happens from then on, new tunnels and every step of the old ones included, their local
  connections all stay open with their reading tasks waiting and never told to stop, until their
  local clients send or close.
\<close>

theorem leftover_readers_unbounded:
  assumes "bp_permits pool \<noteq> 0" "bp_channels pool \<noteq> []" "metadata_ok (''Bearer '' @ pool_auth_token pool)"
  shows "\<exists>s. (pool_tunnels_step metadata_ok)\<^sup>*\<^sup>* (pool_start pool) s \<and>
    length (pt_tunnels s) = n \<and> open_tunnels s = 0 \<and> bp_permits (pt_pool s) = bp_permits pool \<and>
    (\<forall>s'. (quiet_pool_step metadata_ok)\<^sup>*\<^sup>* s s' \<longrightarrow>
       (\<forall>i < n. \<exists>channel c. pt_tunnels s' ! i = Finished channel c \<and> local_open c \<and>
          tk_task c = Reading \<and> \<not> tk_aborting c))"
proof -
  from leave_many [of pool metadata_ok n, OF assms] obtain s where
    run: "(pool_tunnels_step metadata_ok)\<^sup>*\<^sup>* (pool_start pool) s"
    and s: "length (pt_tunnels s) = n" "list_all left_behind (pt_tunnels s)" "bp_permits (pt_pool s) = bp_permits pool" by blast
  from run have "pool_inv pool s" by (rule pool_inv_run)
  with s(3) have "open_tunnels s = 0" by (simp add: pool_inv_def)
  moreover have "\<exists>channel c. pt_tunnels s' ! i = Finished channel c \<and> local_open c \<and> tk_task c = Reading \<and> \<not> tk_aborting c"
    if "(quiet_pool_step metadata_ok)\<^sup>*\<^sup>* s s'" "i < n" for s' i
  proof -
    have "left_behind (pt_tunnels s' ! i)" using left_behind_run [OF that(1)] s(1,2) that(2) by (simp add: list_all_length)
    then show ?thesis by (cases "pt_tunnels s' ! i") (auto simp: stuck_reader_def local_open_def)
  qed
  ultimately show ?thesis using run s(1,3) by blast
qed

section \<open>Witnesses\<close>

definition two_channels :: "nat backend_pool" where
  "two_channels = \<lparr>bp_backend = demo_backend, bp_channels = [10, 11], bp_next = 3, bp_permits = 1\<rparr>"

definition demo_waiting :: "nat pool_tunnels" where
  "demo_waiting = (pool_start two_channels)\<lparr>pt_tunnels := [Waiting ''x'' 80 []]\<rparr>"

definition demo_permitted :: "nat pool_tunnels" where
  "demo_permitted = set_tunnel 0 (Permitted ''x'' 80 []) (two_channels\<lparr>bp_permits := 0\<rparr>) demo_waiting"

lemma demo_pool_run: "(pool_tunnels_step (\<lambda>_. True))\<^sup>*\<^sup>* (pool_start two_channels) demo_permitted"
proof (rule two_steps)
  show "pool_tunnels_step (\<lambda>_. True) (pool_start two_channels) demo_waiting"
    using pool_tunnels_step.Arrive [of "\<lambda>_. True" "pool_start two_channels"]
    by (simp add: demo_waiting_def pool_start_def)
  show "pool_tunnels_step (\<lambda>_. True) demo_waiting demo_permitted"
    unfolding demo_permitted_def
    by (rule pool_tunnels_step.Acquire)
      (simp_all add: demo_waiting_def pool_start_def acquire_stream_permit_def two_channels_def)
qed

theorem pool_tunnels_bounded_witness:
  "open_tunnels demo_permitted = 1 \<and> acquire_stream_permit (pt_pool demo_permitted) = None"
proof -
  have "open_tunnels demo_permitted = 1" by (simp add: open_tunnels_def demo_permitted_def demo_waiting_def set_tunnel_def)
  with pool_tunnels_bounded [OF demo_pool_run] show ?thesis by (auto simp: two_channels_def)
qed

definition demo_two_picks :: "nat pool_tunnels" where
  "demo_two_picks = \<lparr>pt_pool = two_channels\<lparr>bp_next := 5\<rparr>,
     pt_tunnels = [NotOpened InvalidToken, NotOpened InvalidToken], pt_picked = [Some 11, Some 10]\<rparr>"

lemma refused_one:
  assumes "bp_permits (pt_pool s) = Suc n" "bp_channels (pt_pool s) \<noteq> []"
  shows "(pool_tunnels_step (\<lambda>_. False))\<^sup>*\<^sup>* s
    (s\<lparr>pt_pool := snd (pick (pt_pool s)), pt_tunnels := pt_tunnels s @ [NotOpened InvalidToken],
       pt_picked := pt_picked s @ [fst (pick (pt_pool s))]\<rparr>)"
proof -
  let ?R = "pool_tunnels_step (\<lambda>_. False)"
  let ?i = "length (pt_tunnels s)"
  let ?p = "(pt_pool s)\<lparr>bp_permits := n\<rparr>"
  let ?a = "s\<lparr>pt_tunnels := pt_tunnels s @ [Waiting [] 1 []]\<rparr>"
  let ?b = "set_tunnel ?i (Permitted [] 1 []) ?p ?a"
  have "?R s ?a" by (rule pool_tunnels_step.Arrive)
  moreover have "?R ?a ?b"
    by (rule pool_tunnels_step.Acquire) (use assms(1) in \<open>simp_all add: acquire_stream_permit_def\<close>)
  moreover have "?R ?b ((set_tunnel ?i (NotOpened InvalidToken) (drop_permit (snd (pick ?p))) ?b)
      \<lparr>pt_picked := pt_picked ?b @ [fst (pick (pt_pool ?b))]\<rparr>)"
    by (rule pool_tunnels_step.Pick) (use assms(2) in \<open>simp_all add: set_tunnel_def after_permit_def pick_def Let_def\<close>)
  ultimately have "?R\<^sup>*\<^sup>* s ((set_tunnel ?i (NotOpened InvalidToken) (drop_permit (snd (pick ?p))) ?b)
      \<lparr>pt_picked := pt_picked ?b @ [fst (pick (pt_pool ?b))]\<rparr>)"
    by (meson rtranclp.rtrancl_into_rtrancl rtranclp.rtrancl_refl)
  then show ?thesis
    using assms by (cases "pt_pool s") (simp add: set_tunnel_def drop_permit_def pick_def Let_def)
qed

theorem pool_channels_fair_witness: "mset (pt_picked demo_two_picks) = mset [Some 10, Some 11]"
proof -
  let ?R = "pool_tunnels_step (\<lambda>_. False)"
  let ?s = "\<lparr>pt_pool = two_channels\<lparr>bp_next := 4\<rparr>, pt_tunnels = [NotOpened InvalidToken], pt_picked = [Some 11]\<rparr>"
  have mod: "(3 :: nat) mod Suc (Suc 0) = 1" "(4 :: nat) mod Suc (Suc 0) = 0" by code_simp+
  have "?R\<^sup>*\<^sup>* (pool_start two_channels) ?s"
    using refused_one [of "pool_start two_channels" 0] by (simp add: pool_start_def two_channels_def pick_def mod)
  also have "?R\<^sup>*\<^sup>* ?s demo_two_picks"
    using refused_one [of ?s 0] by (simp add: two_channels_def pick_def demo_two_picks_def mod)
  finally have run: "?R\<^sup>*\<^sup>* (pool_start two_channels) demo_two_picks" .
  have "bp_channels two_channels = [10, 11]" "bp_next two_channels = 3" by (simp_all add: two_channels_def)
  with pool_channels_fair [OF run, of 1] show ?thesis by (simp add: demo_two_picks_def)
qed

theorem leftover_readers_unbounded_witness:
  "\<exists>s. (pool_tunnels_step (\<lambda>_. True))\<^sup>*\<^sup>* (pool_start two_channels) s \<and> open_tunnels s = 0 \<and>
     bp_permits (pt_pool s) = 1 \<and> (\<exists>channel c. pt_tunnels s ! 6 = Finished channel c \<and> local_open c \<and> \<not> tk_aborting c)"
proof -
  have "bp_permits two_channels = 1" "bp_channels two_channels \<noteq> []" by (simp_all add: two_channels_def)
  with leftover_readers_unbounded [of two_channels "\<lambda>_. True" 7] obtain s where
    "(pool_tunnels_step (\<lambda>_. True))\<^sup>*\<^sup>* (pool_start two_channels) s" "open_tunnels s = 0" "bp_permits (pt_pool s) = 1"
    and stay: "\<And>i. i < 7 \<Longrightarrow> \<exists>channel c. pt_tunnels s ! i = Finished channel c \<and> local_open c \<and> \<not> tk_aborting c"
    by fastforce
  with stay [of 6] show ?thesis by auto
qed

end
