(* ===== verification/Tunnel_End_To_End.thy ===== *)
theory Tunnel_End_To_End
  imports Client_Tunnel Server_Tunnel
begin

text \<open>
  The two ends of an established tunnel together: \<open>relay_grpc\<close> of \<open>client/src/tunnel.rs\<close> and
  \<open>handle_tunnel\<close> of \<open>server/src/service.rs\<close>. The transport of \<open>tonic\<close> is reliable and ordered
  while it lasts: each side handles a prefix of the frames that the other side's stream has taken
  from its channel. It may stop at any moment, which both models contain as a failing or ending
  stream and a dropped channel. The whole refines a two-way byte pipe, and as long as both loops
  run it can deliver everything that was put into it.
\<close>

section \<open>The system\<close>

definition sends_to_server :: "client_state \<Rightarrow> relay_state \<Rightarrow> bool" where
  "sends_to_server c s \<longleftrightarrow> prefix (rl_frames s) (tk_sent c)"

text \<open>The first frame of the server is the result of opening, which the client takes before its relay.\<close>

definition sends_to_client :: "client_state \<Rightarrow> relay_state \<Rightarrow> bool" where
  "sends_to_client c s \<longleftrightarrow> prefix (opened_frames @ ct_frames c) (tk_sent s)"

inductive tunnel_step :: "nat \<Rightarrow> client_state \<times> relay_state \<Rightarrow> client_state \<times> relay_state \<Rightarrow> bool" for idle where
  Client: "client_step c c' \<Longrightarrow> sends_to_client c' s \<Longrightarrow> tunnel_step idle (c, s) (c', s)"
| Server: "relay_step idle s s' \<Longrightarrow> sends_to_server c s' \<Longrightarrow> tunnel_step idle (c, s) (c, s')"

definition tunnel_start :: "u8 list \<Rightarrow> nat \<Rightarrow> client_state \<times> relay_state" where
  "tunnel_start first now = (client_start, relay_start opened_frames first now)"

text \<open>What is specified: bytes go in at one end and come out at the other, in both directions.\<close>

record duplex =
  up_in :: "u8 list"
  up_out :: "u8 list"
  down_in :: "u8 list"
  down_out :: "u8 list"

inductive duplex_step :: "duplex \<Rightarrow> duplex \<Rightarrow> bool" where
  Put_Up: "duplex_step p (p\<lparr>up_in := up_in p @ bs\<rparr>)"
| Put_Down: "duplex_step p (p\<lparr>down_in := down_in p @ bs\<rparr>)"
| Get_Up: "prefix (up_out p @ bs) (up_in p) \<Longrightarrow> duplex_step p (p\<lparr>up_out := up_out p @ bs\<rparr>)"
| Get_Down: "prefix (down_out p @ bs) (down_in p) \<Longrightarrow> duplex_step p (p\<lparr>down_out := down_out p @ bs\<rparr>)"

definition tunnel_abs :: "u8 list \<Rightarrow> client_state \<times> relay_state \<Rightarrow> duplex" where
  "tunnel_abs first = (\<lambda>(c, s). \<lparr>up_in = first @ tk_read c, up_out = rl_written s,
     down_in = tk_read s, down_out = ct_written c\<rparr>)"

section \<open>The invariant of the system\<close>

text \<open>
  A half close, where the server has handled it, came when everything before it was written; the
  write half is shut down in the running loop only after one.
\<close>

definition half_inv :: "u8 list \<Rightarrow> relay_state \<Rightarrow> bool" where
  "half_inv first s \<longleftrightarrow>
     (\<forall>fs. rl_frames s = fs @ [Some C_HalfClose] \<longrightarrow> rl_shut s \<and> rl_written s = first @ client_bytes fs) \<and>
     (rl_shut s \<and> writing (rl_main s) \<noteq> None \<longrightarrow> Some C_HalfClose \<in> set (rl_frames s)) \<and>
     (\<forall>bs. rl_main s = Writing bs \<longrightarrow> (\<exists>fs d. rl_frames s = fs @ [Some (C_Data d)]))"

lemma half_item:
  "rl_main s = Awaiting \<Longrightarrow> upstream_inv first s \<Longrightarrow> half_inv first s \<Longrightarrow> half_inv first (handle_item item s)"
  by (cases item rule: inbound_cases) (auto simp: half_inv_def upstream_inv_def loop_defs)

lemma half_step: "relay_step idle s t \<Longrightarrow> upstream_inv first s \<Longrightarrow> half_inv first s \<Longrightarrow> half_inv first t"
proof (induction rule: relay_step.induct)
  case (Item s item)
  then show ?case by (simp add: half_item)
next
  case (Task s t)
  then show ?case by (simp add: half_inv_def task_keeps_loop [OF Task(1)])
qed (auto simp: half_inv_def loop_defs split: if_splits)

definition tunnel_inv :: "u8 list \<Rightarrow> client_state \<times> relay_state \<Rightarrow> bool" where
  "tunnel_inv first = (\<lambda>(c, s). sending_inv c \<and> writer_inv c \<and> upstream_inv first s \<and> half_inv first s \<and>
     downstream_inv s \<and> sends_to_server c s \<and> (ct_frames c = [] \<or> sends_to_client c s))"

lemma task_grows: "task_step F cap chunk a b \<Longrightarrow> prefix (tk_sent a) (tk_sent b)"
  by (induction rule: task_step.induct) (simp_all add: task_read_def task_sent_def channel_deliver_def channel_send_def)

lemma keeps_grows: "keeps_task a b \<Longrightarrow> prefix (tk_sent a) (tk_sent b)"
  by (simp add: keeps_task_def)

lemma client_grows:
  assumes "client_step c c'"
  shows "prefix (tk_sent c) (tk_sent c')" "prefix (ct_frames c) (ct_frames c')"
proof -
  show "prefix (tk_sent c) (tk_sent c')"
    using assms by (elim client_stepE) (auto simp: local_to_grpc_def intro: task_grows keeps_grows)
  show "prefix (ct_frames c) (ct_frames c')"
    using assms
  proof (induction rule: client_step.induct)
    case (Item s item err)
    then show ?case by (cases item rule: stream_cases) (auto simp: client_defs split: option.split)
  qed (auto simp: client_defs local_task_keeps)
qed

lemma server_grows:
  assumes "relay_step idle s s'"
  shows "prefix (tk_sent s) (tk_sent s')" "prefix (rl_frames s) (rl_frames s')"
proof -
  show "prefix (tk_sent s) (tk_sent s')"
    using assms
  proof (induction rule: relay_step.induct)
    case (Replied s f again)
    then show ?case by (simp add: reply_sent_def next_frame_def finish_def)
  next
    case (Task s t)
    then show ?case by (simp add: target_to_grpc_def task_grows)
  qed (simp_all add: keeps_grows)
  show "prefix (rl_frames s) (rl_frames s')"
    using assms
  proof (induction rule: relay_step.induct)
    case (Item s item)
    then show ?case by (cases item rule: inbound_cases) (auto simp: loop_defs)
  qed (auto simp: loop_defs task_keeps_loop)
qed

lemma tunnel_inv_step: "tunnel_step idle x y \<Longrightarrow> tunnel_inv first x \<Longrightarrow> tunnel_inv first y"
proof (induction rule: tunnel_step.induct)
  case (Client c c' s)
  then show ?case
    using client_grows(1) [OF Client(1)] sending_step [OF Client(1)] writer_step [OF Client(1)]
    by (auto simp: tunnel_inv_def sends_to_server_def intro: prefix_order.trans)
next
  case (Server s s' c)
  then show ?case
    using server_grows(1) [OF Server(1)] upstream_step [OF Server(1)] half_step [OF Server(1)] down_step [OF Server(1)]
    by (auto simp: tunnel_inv_def sends_to_client_def intro: prefix_order.trans)
qed

lemma tunnel_inv_start: "tunnel_inv first (tunnel_start first now)"
  using sending_start writer_start relay_start_inv [of first]
  by (simp add: tunnel_inv_def tunnel_start_def sends_to_server_def)
    (simp add: half_inv_def relay_start_def client_start_def)

lemma tunnel_inv_run: "(tunnel_step idle)\<^sup>*\<^sup>* (tunnel_start first now) x \<Longrightarrow> tunnel_inv first x"
  by (induction rule: rtranclp_induct) (auto intro: tunnel_inv_start tunnel_inv_step)

lemma open_result_bytes [simp]: "server_data_of (open_result_frame ok e) = []"
  by (simp add: open_result_frame_def)

lemma tunnel_inv_bytes:
  assumes "tunnel_inv first (c, s)"
  shows "prefix (rl_written s) (first @ tk_read c)" "prefix (ct_written c) (tk_read s)"
proof -
  have "prefix (client_bytes (rl_frames s)) (client_bytes (tk_sent c))"
    using assms by (intro frame_bytes_mono) (simp add: tunnel_inv_def sends_to_server_def)
  moreover have "prefix (client_bytes (tk_sent c)) (tk_read c)"
    using assms append_prefixD by (auto simp: tunnel_inv_def sending_inv_def task_inv_def carries_def channel_out_def)
  ultimately have "prefix (first @ client_bytes (rl_frames s)) (first @ tk_read c)"
    by (auto intro: prefix_order.trans)
  moreover have "prefix (rl_written s) (first @ client_bytes (rl_frames s))"
    using assms by (simp add: tunnel_inv_def upstream_inv_def)
  ultimately show "prefix (rl_written s) (first @ tk_read c)" by (rule prefix_order.trans [rotated])
  have "prefix (server_bytes (ct_frames c)) (server_bytes (tk_sent s))"
  proof (cases "ct_frames c = []")
    case False
    with assms have "prefix (opened_frames @ ct_frames c) (tk_sent s)"
      by (simp add: tunnel_inv_def sends_to_client_def)
    from frame_bytes_mono [OF this, of server_data_of] show ?thesis by simp
  qed simp
  moreover have "prefix (server_bytes (tk_sent s)) (tk_read s)"
    using assms append_prefixD by (auto simp: tunnel_inv_def downstream_inv_def task_inv_def carries_def channel_out_def)
  moreover have "prefix (ct_written c) (server_bytes (ct_frames c))"
    using assms by (simp add: tunnel_inv_def writer_inv_def)
  ultimately show "prefix (ct_written c) (tk_read s)" by (meson prefix_order.trans)
qed

text \<open>Where the frames around a half close are.\<close>

lemma half_close_bytes:
  assumes "half_close_last F payload s" "carries payload s" "rf_half_close F \<in> set fs" "prefix fs (channel_out s)"
  shows "tk_eof s" "frame_bytes payload fs = tk_read s"
proof -
  from assms(4) obtain gs where out: "channel_out s = fs @ gs" by (auto simp: prefix_def)
  moreover from assms(3) have "takeWhile (\<lambda>f. f \<noteq> rf_half_close F) (fs @ gs) = takeWhile (\<lambda>f. f \<noteq> rf_half_close F) fs"
    by simp
  ultimately have half: "tk_eof s" "frame_bytes payload (takeWhile (\<lambda>f. f \<noteq> rf_half_close F) fs) = tk_read s"
    using assms(1,3) by (simp_all add: half_close_last_def)
  then show "tk_eof s" by simp
  have "prefix (frame_bytes payload (takeWhile (\<lambda>f. f \<noteq> rf_half_close F) fs)) (frame_bytes payload fs)"
    by (intro frame_bytes_mono) (simp add: takeWhile_is_prefix)
  moreover have "prefix (frame_bytes payload fs) (tk_read s)"
    using assms(2) out append_prefixD by (auto simp: carries_def)
  ultimately show "frame_bytes payload fs = tk_read s"
    using half(2) by (simp add: prefix_order.antisym)
qed

lemma tunnel_clean_down:
  assumes "tunnel_inv first (c, s)" "ct_shut c"
  shows "tk_eof s" "ct_written c = tk_read s"
proof -
  have c: "Some S_HalfClose \<in> set (ct_frames c)" "ct_written c = server_bytes (ct_frames c)"
    using assms by (simp_all add: tunnel_inv_def writer_inv_def)
  with assms(1) have "sends_to_client c s" by (auto simp: tunnel_inv_def)
  then have "prefix (opened_frames @ ct_frames c) (channel_out s)" by (simp add: sends_to_client_def channel_out_def)
  with half_close_bytes [of server_frames server_data_of s "opened_frames @ ct_frames c"] c assms(1)
  show "tk_eof s" "ct_written c = tk_read s"
    by (simp_all add: tunnel_inv_def downstream_inv_def task_inv_def)
qed

lemma half_close_at_end:
  assumes "list_all is_data (butlast fs)" "Some C_HalfClose \<in> set hs" "prefix hs fs"
  shows "hs = fs" "\<exists>gs. fs = gs @ [Some C_HalfClose]"
proof -
  from assms(3) obtain rest where fs: "fs = hs @ rest" by (auto simp: prefix_def)
  have "rest = []"
  proof (rule ccontr)
    assume "rest \<noteq> []"
    with assms(1) fs have "list_all is_data hs" by (simp add: butlast_append)
    with assms(2) show False by (force simp: list_all_iff)
  qed
  with fs show "hs = fs" by simp
  with assms(1,2) show "\<exists>gs. fs = gs @ [Some C_HalfClose]"
    by (cases fs rule: rev_cases) (fastforce simp: list_all_iff)+
qed

lemma tunnel_clean_up:
  assumes "tunnel_inv first (c, s)" "Some C_HalfClose \<in> set (rl_frames s)"
  shows "tk_eof c" "rl_written s = first @ tk_read c" "rl_shut s"
proof -
  have "prefix (rl_frames s) (channel_out c)"
    using assms(1) by (simp add: tunnel_inv_def sends_to_server_def channel_out_def)
  moreover have "list_all is_data (butlast (channel_out c))"
    using assms(1) by (simp add: tunnel_inv_def sending_inv_def alone_inv_def)
  note half_close_at_end [OF this assms(2)]
  ultimately obtain fs where fs: "rl_frames s = channel_out c" "rl_frames s = fs @ [Some C_HalfClose]" by metis
  have "half_inv first s" using assms(1) by (simp add: tunnel_inv_def)
  with fs(2) have "rl_shut s" "rl_written s = first @ client_bytes fs" unfolding half_inv_def by blast+
  with fs(2) have "rl_shut s" "rl_written s = first @ client_bytes (rl_frames s)" by simp_all
  with half_close_bytes [of client_frames client_data c "rl_frames s"] fs assms
  show "tk_eof c" "rl_written s = first @ tk_read c" "rl_shut s"
    by (simp_all add: tunnel_inv_def sending_inv_def task_inv_def)
qed

section \<open>Delivering everything\<close>

text \<open>A run of one side is a run of the system, as long as the frames it handles have arrived.\<close>

lemma server_runs:
  assumes "(relay_step idle)\<^sup>*\<^sup>* s s'" "sends_to_server c s'"
  shows "(tunnel_step idle)\<^sup>*\<^sup>* (c, s) (c, s')"
  using assms
proof (induction rule: rtranclp_induct)
  case (step t u)
  then have "sends_to_server c t"
    using server_grows(2) [OF step(2)] by (auto simp: sends_to_server_def intro: prefix_order.trans)
  with step have "(tunnel_step idle)\<^sup>*\<^sup>* (c, s) (c, t)" by simp
  moreover have "tunnel_step idle (c, t) (c, u)" using step by (intro tunnel_step.Server)
  ultimately show ?case by (rule rtranclp.rtrancl_into_rtrancl)
qed simp

lemma client_runs:
  assumes "client_step\<^sup>*\<^sup>* c c'" "sends_to_client c' s"
  shows "(tunnel_step idle)\<^sup>*\<^sup>* (c, s) (c', s)"
  using assms
proof (induction rule: rtranclp_induct)
  case (step d e)
  then have "sends_to_client d s"
    using client_grows(2) [OF step(2)] unfolding sends_to_client_def
    by (metis prefix_order.trans same_prefix_prefix)
  with step have "(tunnel_step idle)\<^sup>*\<^sup>* (c, s) (d, s)" by simp
  moreover have "tunnel_step idle (d, s) (e, s)" using step by (intro tunnel_step.Client)
  ultimately show ?case by (rule rtranclp.rtrancl_into_rtrancl)
qed simp

text \<open>What each side has done when it is ready for the next frame and its channel is empty.\<close>

definition server_ready :: "relay_state \<Rightarrow> u8 list \<Rightarrow> relay_state \<Rightarrow> bool" where
  "server_ready s bs t \<longleftrightarrow> rl_main t = Awaiting \<and> rl_written t = rl_written s @ bs \<and> rl_shut t = rl_shut s \<and>
     tk_read t = tk_read s \<and> tk_receiver t"

lemma server_writes:
  assumes "rl_main s = Writing bs" "rl_shut s \<longrightarrow> bs = []"
  shows "(relay_step idle)\<^sup>*\<^sup>* s (next_frame (s\<lparr>rl_written := rl_written s @ bs\<rparr>))"
proof (cases "bs = []")
  case True
  with relay_step.Written [of s idle] assms(1) show ?thesis by simp
next
  case False
  let ?t = "write_some (length bs) bs s"
  have "relay_step idle s ?t" using False assms by (intro relay_step.Write) simp_all
  moreover have "relay_step idle ?t (next_frame ?t)"
    by (rule relay_step.Written) (simp add: write_some_def)
  moreover have "next_frame ?t = next_frame (s\<lparr>rl_written := rl_written s @ bs\<rparr>)"
    by (simp add: write_some_def next_frame_def)
  ultimately show ?thesis by (simp add: two_steps)
qed

lemma server_settles:
  assumes "writing (rl_main s) = Some bs" "rl_shut s \<longrightarrow> bs = []" "tk_receiver s"
  shows "\<exists>t. (relay_step idle)\<^sup>*\<^sup>* s t \<and> server_ready s bs t \<and> rl_frames t = rl_frames s \<and> tk_queue t = [] \<and> unsent t = []"
proof (cases "rl_main s")
  case Awaiting
  with assms have "server_ready s bs (drained s)" by (simp add: server_ready_def)
  with relay_drains [OF assms(3)] show ?thesis by (intro exI [of _ "drained s"]) simp
next
  case (Writing bs')
  let ?t = "next_frame (s\<lparr>rl_written := rl_written s @ bs\<rparr>)"
  from Writing assms have "(relay_step idle)\<^sup>*\<^sup>* s ?t" by (intro server_writes) simp_all
  moreover have "(relay_step idle)\<^sup>*\<^sup>* ?t (drained ?t)" by (rule relay_drains) (simp add: next_frame_def assms(3))
  moreover have "server_ready s bs (drained ?t)" "rl_frames (drained ?t) = rl_frames s"
    using assms(3) by (simp_all add: server_ready_def) (simp_all add: next_frame_def)
  ultimately show ?thesis by (intro exI [of _ "drained ?t"]) auto
next
  case (Replying f again)
  with assms have again: "again" "bs = []" by (simp_all split: if_splits)
  let ?t = "reply_sent f True (drained s)"
  have "(relay_step idle)\<^sup>*\<^sup>* s ?t" using relay_replies [OF assms(3) Replying] again by simp
  moreover have "(relay_step idle)\<^sup>*\<^sup>* ?t (drained ?t)"
    by (rule relay_drains) (simp add: reply_sent_def next_frame_def assms(3))
  moreover have "server_ready s bs (drained ?t)" "rl_frames (drained ?t) = rl_frames s"
    using assms(3) again by (simp_all add: server_ready_def) (simp_all add: reply_sent_def next_frame_def)
  ultimately show ?thesis by (intro exI [of _ "drained ?t"]) auto
qed (use assms in simp)

lemma server_takes:
  assumes "rl_main s = Awaiting" "\<not> rl_shut s" "tk_receiver s" "list_all is_data fs"
  shows "\<exists>t. (relay_step idle)\<^sup>*\<^sup>* s t \<and> server_ready s (client_bytes fs) t \<and> rl_frames t = rl_frames s @ fs \<and> tk_sent t = tk_sent s"
  using assms(4)
proof (induction fs rule: rev_induct)
  case Nil
  then show ?case using assms by (intro exI [of _ s]) (simp add: server_ready_def)
next
  case (snoc f fs)
  from snoc.prems have all: "list_all is_data fs" "is_data f" by simp_all
  from snoc.IH [OF all(1)] obtain t where t: "(relay_step idle)\<^sup>*\<^sup>* s t" "server_ready s (client_bytes fs) t"
    "rl_frames t = rl_frames s @ fs" "tk_sent t = tk_sent s" by blast
  from all(2) obtain d where f: "f = Some (C_Data d)" by (cases f rule: is_data.cases) auto
  let ?u = "handle_item (Got f) t"
  let ?v = "next_frame (?u\<lparr>rl_written := rl_written ?u @ d\<rparr>)"
  have "relay_step idle t ?u" using t(2) by (intro relay_step.Item) (simp_all add: server_ready_def)
  moreover have "(relay_step idle)\<^sup>*\<^sup>* ?u ?v"
    using t(2) assms(2) by (intro server_writes) (simp_all add: f record_frame_def server_ready_def)
  ultimately have "(relay_step idle)\<^sup>*\<^sup>* s ?v"
    using t(1) by (meson converse_rtranclp_into_rtranclp rtranclp_trans)
  moreover have "server_ready s (client_bytes (fs @ [f])) ?v" "rl_frames ?v = rl_frames s @ fs @ [f]" "tk_sent ?v = tk_sent s"
    using t by (simp_all add: f server_ready_def record_frame_def next_frame_def)
  ultimately show ?case by blast
qed

definition client_ready :: "client_state \<Rightarrow> u8 list \<Rightarrow> client_state \<Rightarrow> bool" where
  "client_ready c bs d \<longleftrightarrow> ct_main d = Receiving \<and> ct_written d = ct_written c @ bs \<and> tk_read d = tk_read c \<and>
     tk_receiver d"

lemma client_writes:
  assumes "ct_main c = Delivering bs"
  shows "client_step\<^sup>*\<^sup>* c (c\<lparr>ct_written := ct_written c @ bs, ct_main := Receiving\<rparr>)"
proof (cases "bs = []")
  case True
  with client_step.Written [of c] assms show ?thesis by simp
next
  case False
  let ?d = "deliver_some (length bs) bs c"
  have "client_step c ?d" using False assms by (intro client_step.Write) simp_all
  moreover have "client_step ?d (?d\<lparr>ct_main := Receiving\<rparr>)"
    by (rule client_step.Written) (simp add: deliver_some_def)
  moreover have "?d\<lparr>ct_main := Receiving\<rparr> = c\<lparr>ct_written := ct_written c @ bs, ct_main := Receiving\<rparr>"
    by (simp add: deliver_some_def)
  ultimately show ?thesis by (simp add: two_steps)
qed

lemma drained_client [simp]:
  "ct_main (drained c) = ct_main c" "ct_written (drained c) = ct_written c" "ct_frames (drained c) = ct_frames c"
  by (simp_all add: drained_def)

lemma client_settles:
  assumes "delivering (ct_main c) = Some bs" "tk_receiver c"
  shows "\<exists>d. client_step\<^sup>*\<^sup>* c d \<and> client_ready c bs d \<and> ct_frames d = ct_frames c \<and>
    tk_sent d = channel_out c @ unsent c"
proof -
  let ?d = "c\<lparr>ct_written := ct_written c @ bs, ct_main := Receiving\<rparr>"
  have "client_step\<^sup>*\<^sup>* c ?d"
  proof (cases "ct_main c")
    case Receiving
    with assms(1) have "?d = c" by simp
    then show ?thesis by (simp only: rtranclp.rtrancl_refl)
  next
    case (Delivering bs')
    with assms(1) show ?thesis by (simp add: client_writes)
  qed (use assms in simp)
  moreover have "client_step\<^sup>*\<^sup>* ?d (drained ?d)"
    by (rule client_task_runs, rule task_drains) (simp_all add: assms(2) client_queue_def)
  moreover have "client_ready c bs (drained ?d)" "tk_sent (drained ?d) = channel_out c @ unsent c"
    by (simp_all add: client_ready_def assms(2) channel_out_def unsent_def)
  ultimately show ?thesis by (intro exI [of _ "drained ?d"]) auto
qed

lemma client_takes:
  assumes "ct_main c = Receiving" "tk_receiver c" "list_all relayed fs"
  shows "\<exists>d. client_step\<^sup>*\<^sup>* c d \<and> client_ready c (server_bytes fs) d \<and> ct_frames d = ct_frames c @ fs \<and> tk_sent d = tk_sent c"
  using assms(3)
proof (induction fs rule: rev_induct)
  case Nil
  then show ?case using assms by (intro exI [of _ c]) (simp add: client_ready_def)
next
  case (snoc f fs)
  from snoc.prems have all: "list_all relayed fs" "relayed f" by simp_all
  from snoc.IH [OF all(1)] obtain d where d: "client_step\<^sup>*\<^sup>* c d" "client_ready c (server_bytes fs) d"
    "ct_frames d = ct_frames c @ fs" "tk_sent d = tk_sent c" by blast
  let ?e = "handle_stream_item (Frame f) None d"
  let ?g = "?e\<lparr>ct_written := ct_written ?e @ server_data_of f, ct_main := Receiving\<rparr>"
  have "client_step d ?e" using d(2) by (intro client_step.Item) (simp add: client_ready_def)
  moreover have "client_step\<^sup>*\<^sup>* ?e ?g"
  proof (cases f rule: relayed.cases)
    case (1 data)
    with client_writes [of ?e data] show ?thesis by simp
  next
    case (2 millis)
    then have "?g = ?e" using d(2) by (simp add: client_ready_def)
    then show ?thesis by (simp only: rtranclp.rtrancl_refl)
  qed (use all(2) in simp_all)
  ultimately have "client_step\<^sup>*\<^sup>* c ?g"
    using d(1) by (meson converse_rtranclp_into_rtranclp rtranclp_trans)
  moreover have "client_ready c (server_bytes (fs @ [f])) ?g" "ct_frames ?g = ct_frames c @ fs @ [f]" "tk_sent ?g = tk_sent c"
    using d all(2) by (cases f rule: relayed.cases; simp add: client_ready_def)+
  ultimately show ?case by blast
qed

text \<open>The data among the frames that have not been handled yet.\<close>

lemma data_prefix:
  assumes "list_all is_data (butlast (hs @ rest))"
  shows "client_bytes (takeWhile is_data rest) = client_bytes rest"
proof (cases rest rule: rev_cases)
  case (snoc ds f)
  with assms have "list_all is_data ds" by (simp add: butlast_append)
  with snoc show ?thesis
    by (cases "is_data f") (auto simp: list_all_iff takeWhile_append split: if_splits, cases f rule: is_data.cases, auto)
qed simp

lemma relayed_prefix:
  assumes "server_bytes (dropWhile relayed (hs @ rest)) = []" "list_all relayed hs"
  shows "server_bytes (takeWhile relayed rest) = server_bytes rest"
proof -
  have "server_bytes (dropWhile relayed rest) = []" using assms by (simp add: list_all_iff)
  then show ?thesis using frame_bytes_simps(3) [of server_data_of "takeWhile relayed rest" "dropWhile relayed rest"] by simp
qed

lemma takeWhile_all: "list_all P (takeWhile P xs)"
  by (auto simp: list_all_iff dest: set_takeWhileD)

lemma shut_settled:
  assumes "tunnel_inv first (c, s)" "writing (rl_main s) = Some up" "rl_shut s"
  shows "up = []" "rl_frames s = channel_out c @ unsent c"
proof -
  have half: "half_inv first s" and c: "list_all is_data (butlast (channel_out c))" "prefix (rl_frames s) (channel_out c)"
    "half_close_last client_frames client_data c"
    using assms(1)
    by (simp_all add: tunnel_inv_def sending_inv_def alone_inv_def task_inv_def sends_to_server_def channel_out_def)
  from half assms(2,3) have "Some C_HalfClose \<in> set (rl_frames s)" by (auto simp: half_inv_def)
  from half_close_at_end [OF c(1) this c(2)] obtain gs where
    all: "rl_frames s = channel_out c" "channel_out c = gs @ [Some C_HalfClose]" by blast
  with c(3) show "rl_frames s = channel_out c @ unsent c" by (simp add: half_close_last_def unsent_def)
  show "up = []"
  proof (cases "rl_main s")
    case (Writing bs)
    with half all show ?thesis by (auto simp: half_inv_def)
  qed (use assms(2) in \<open>simp_all split: if_splits\<close>)
qed

lemma client_out_data:
  assumes "sending_inv c"
  shows "list_all is_data (butlast (channel_out c @ unsent c))"
  using assms by (auto simp: sending_inv_def alone_inv_def unsent_def split: task.split)

text \<open>First everything on its way to a stream is put into it, then everything in the streams is handled.\<close>

lemma tunnel_settles:
  assumes inv: "tunnel_inv first (c, s)" and alive: "tk_receiver c" "tk_receiver s"
    and loops: "writing (rl_main s) = Some up" "delivering (ct_main c) = Some down"
  shows "\<exists>c1 s1. (tunnel_step idle)\<^sup>*\<^sup>* (c, s) (c1, s1) \<and> server_ready s up s1 \<and> client_ready c down c1 \<and>
     rl_frames s1 = rl_frames s \<and> ct_frames c1 = ct_frames c \<and> tk_sent c1 = channel_out c @ unsent c \<and>
     (\<exists>rest. tk_sent s1 = opened_frames @ ct_frames c @ rest \<and> server_bytes (takeWhile relayed rest) = server_bytes rest \<and>
        server_bytes (tk_sent s1) = tk_read s)"
proof -
  have "rl_shut s \<longrightarrow> up = []" using shut_settled(1) [OF inv loops(1)] by simp
  from server_settles [OF loops(1) this alive(2)] obtain s1 where s1: "(relay_step idle)\<^sup>*\<^sup>* s s1" "server_ready s up s1"
    "rl_frames s1 = rl_frames s" "tk_queue s1 = []" "unsent s1 = []" by blast
  have "sends_to_server c s1" using inv s1(3) by (simp add: tunnel_inv_def sends_to_server_def)
  with s1(1) have run1: "(tunnel_step idle)\<^sup>*\<^sup>* (c, s) (c, s1)" by (rule server_runs)
  have inv1: "tunnel_inv first (c, s1)"
    using run1 inv by (induction rule: rtranclp_induct) (auto intro: tunnel_inv_step)
  have out: "channel_out s1 = tk_sent s1" using s1(4) by (simp add: channel_out_def)
  from inv1 s1(2) have "quiet_inv relayed server_data_of opened_frames s1" "tk_receiver s1" "\<not> tk_aborting s1"
    by (simp_all add: tunnel_inv_def downstream_inv_def server_ready_def loop_inv_def)
  then obtain fs where fs: "tk_sent s1 = opened_frames @ fs" "server_bytes (dropWhile relayed fs) = []"
    using out by (auto simp: quiet_inv_def)
  have bytes: "server_bytes (tk_sent s1) = tk_read s"
    using inv1 s1(2,5) out \<open>tk_receiver s1\<close> \<open>\<not> tk_aborting s1\<close>
    by (simp add: tunnel_inv_def downstream_inv_def task_inv_def carries_def server_ready_def)
  have "prefix (opened_frames @ ct_frames c) (tk_sent s1)"
    using inv1 fs(1) by (auto simp: tunnel_inv_def sends_to_client_def)
  then obtain rest where rest: "tk_sent s1 = opened_frames @ ct_frames c @ rest" by (auto simp: prefix_def)
  with fs have "server_bytes (dropWhile relayed (ct_frames c @ rest)) = []" by simp
  moreover have "list_all relayed (ct_frames c)" using inv loops(2) by (simp add: tunnel_inv_def writer_inv_def)
  ultimately have "server_bytes (takeWhile relayed rest) = server_bytes rest" by (rule relayed_prefix)
  moreover obtain c1 where c1: "client_step\<^sup>*\<^sup>* c c1" "client_ready c down c1" "ct_frames c1 = ct_frames c"
    "tk_sent c1 = channel_out c @ unsent c"
    using client_settles [OF loops(2) alive(1)] by blast
  moreover have "(tunnel_step idle)\<^sup>*\<^sup>* (c, s1) (c1, s1)"
    using c1(1) by (rule client_runs) (simp add: sends_to_client_def c1(3) rest)
  with run1 have "(tunnel_step idle)\<^sup>*\<^sup>* (c, s) (c1, s1)" by (rule rtranclp_trans)
  ultimately show ?thesis using s1(2,3) rest bytes by blast
qed

lemma tunnel_delivers:
  assumes inv: "tunnel_inv first (c, s)" and alive: "tk_receiver c" "tk_receiver s"
    and loops: "writing (rl_main s) = Some up" "delivering (ct_main c) = Some down"
  shows "\<exists>c' s'. (tunnel_step idle)\<^sup>*\<^sup>* (c, s) (c', s') \<and> tk_read c' = tk_read c \<and> tk_read s' = tk_read s \<and>
     rl_written s' = first @ tk_read c \<and> ct_written c' = tk_read s"
proof -
  from tunnel_settles [OF assms] obtain c1 s1 rest where
    run1: "(tunnel_step idle)\<^sup>*\<^sup>* (c, s) (c1, s1)" and s1: "server_ready s up s1" "rl_frames s1 = rl_frames s"
    and c1: "client_ready c down c1" "ct_frames c1 = ct_frames c" "tk_sent c1 = channel_out c @ unsent c"
    and down: "tk_sent s1 = opened_frames @ ct_frames c @ rest" "server_bytes (takeWhile relayed rest) = server_bytes rest"
      "server_bytes (tk_sent s1) = tk_read s" by blast
  obtain pend where pend: "channel_out c @ unsent c = rl_frames s @ pend"
    using inv by (auto simp: tunnel_inv_def sends_to_server_def channel_out_def prefix_def)
  have data: "client_bytes (takeWhile is_data pend) = client_bytes pend"
    using client_out_data [of c] inv pend by (intro data_prefix [of "rl_frames s"]) (simp add: tunnel_inv_def)
  have "\<exists>t. (relay_step idle)\<^sup>*\<^sup>* s1 t \<and> server_ready s1 (client_bytes pend) t \<and>
      rl_frames t = rl_frames s1 @ takeWhile is_data pend \<and> tk_sent t = tk_sent s1"
  proof (cases "rl_shut s")
    case True
    with shut_settled(2) [OF inv loops(1)] pend have "pend = []" by simp
    with s1(1) show ?thesis by (intro exI [of _ s1]) (simp add: server_ready_def)
  next
    case False
    with server_takes [of s1 "takeWhile is_data pend"] s1(1) data show ?thesis
      by (simp add: server_ready_def takeWhile_all)
  qed
  then obtain s2 where s2: "(relay_step idle)\<^sup>*\<^sup>* s1 s2" "server_ready s1 (client_bytes pend) s2"
    "rl_frames s2 = rl_frames s1 @ takeWhile is_data pend" "tk_sent s2 = tk_sent s1" by blast
  have "sends_to_server c1 s2" by (simp add: sends_to_server_def s2(3) s1(2) c1(3) pend takeWhile_is_prefix)
  with s2(1) have run2: "(tunnel_step idle)\<^sup>*\<^sup>* (c1, s1) (c1, s2)" by (rule server_runs)
  obtain c2 where c2: "client_step\<^sup>*\<^sup>* c1 c2" "client_ready c1 (server_bytes (takeWhile relayed rest)) c2"
    "ct_frames c2 = ct_frames c1 @ takeWhile relayed rest"
    using client_takes [of c1 "takeWhile relayed rest"] c1(1) by (auto simp: client_ready_def takeWhile_all)
  have "sends_to_client c2 s2"
    by (simp add: sends_to_client_def s2(4) c2(3) c1(2) down(1) takeWhile_is_prefix)
  with c2(1) have "(tunnel_step idle)\<^sup>*\<^sup>* (c1, s2) (c2, s2)" by (rule client_runs)
  with run1 run2 have "(tunnel_step idle)\<^sup>*\<^sup>* (c, s) (c2, s2)" by (meson rtranclp_trans)
  moreover have "rl_written s2 = first @ tk_read c"
  proof -
    have "client_bytes (channel_out c @ unsent c) = tk_read c"
      using inv alive loops by (auto simp: tunnel_inv_def sending_inv_def task_inv_def carries_def writer_inv_def)
    moreover have "rl_written s @ up = first @ client_bytes (rl_frames s)"
      using inv loops by (simp add: tunnel_inv_def upstream_inv_def)
    ultimately show ?thesis using s1(1) s2(2) pend by (simp add: server_ready_def)
  qed
  moreover have "ct_written c2 = tk_read s"
  proof -
    have "ct_written c @ down = server_bytes (ct_frames c)"
      using inv loops by (simp add: tunnel_inv_def writer_inv_def)
    then show ?thesis using c1(1) c2(2) down by (simp add: client_ready_def)
  qed
  moreover have "tk_read c2 = tk_read c" "tk_read s2 = tk_read s"
    using c1(1) c2(2) s1(1) s2(2) by (simp_all add: client_ready_def server_ready_def)
  ultimately show ?thesis by blast
qed

section \<open>Properties\<close>

text \<open>
  C2. End to end, whatever the tasks, channels and the transport do: the target is given a prefix of
  the first payload and the bytes read from the local client, and the local client a prefix of the
  bytes read from the target. A direction that is closed was complete: when the local connection
  is shut down for writing, the target had ended and the local client has got everything from it;
  and when the server has handled a half close, the local client had ended, the target has got
  everything from it, and its write half is shut down.
\<close>

theorem tunnel_end_to_end:
  assumes "(tunnel_step idle)\<^sup>*\<^sup>* (tunnel_start first now) (c, s)"
  shows "prefix (rl_written s) (first @ tk_read c) \<and> prefix (ct_written c) (tk_read s) \<and>
    (ct_shut c \<longrightarrow> tk_eof s \<and> ct_written c = tk_read s) \<and>
    (Some C_HalfClose \<in> set (rl_frames s) \<longrightarrow> tk_eof c \<and> rl_written s = first @ tk_read c \<and> rl_shut s)"
proof -
  note inv = tunnel_inv_run [OF assms]
  show ?thesis
    using tunnel_inv_bytes [OF inv] tunnel_clean_down [OF inv] tunnel_clean_up [OF inv] by simp
qed

lemma task_step_bytes:
  "task_step F cap chunk a b \<Longrightarrow> \<exists>bs. tk_read b = tk_read a @ bs"
  by (induction rule: task_step.induct) (auto simp: task_read_def channel_deliver_def)

lemma client_step_bytes:
  assumes "client_step c c'"
  shows "(\<exists>bs. tk_read c' = tk_read c @ bs \<and> ct_written c' = ct_written c) \<or>
    (\<exists>bs. ct_written c' = ct_written c @ bs \<and> tk_read c' = tk_read c)"
  using assms
proof (induction rule: client_step.induct)
  case (Item s item err)
  then show ?case by (cases item rule: stream_cases) (auto simp: client_defs split: option.split)
next
  case (Task s t)
  then show ?case using task_step_bytes by (auto simp: local_to_grpc_def local_task_keeps [OF Task])
qed (auto simp: client_defs)

lemma relay_step_bytes:
  assumes "relay_step idle s s'"
  shows "(\<exists>bs. tk_read s' = tk_read s @ bs \<and> rl_written s' = rl_written s) \<or>
    (\<exists>bs. rl_written s' = rl_written s @ bs \<and> tk_read s' = tk_read s)"
  using assms
proof (induction rule: relay_step.induct)
  case (Item s item)
  then show ?case by (cases item rule: inbound_cases) (auto simp: loop_defs)
next
  case (Task s t)
  then show ?case using task_step_bytes by (auto simp: target_to_grpc_def task_keeps_loop [OF Task])
qed (auto simp: loop_defs)

text \<open>
  C1. The tunnel implements the two-way byte pipe: from every reachable state, each step of the
  client, of the server or of the transport is one step of the pipe that it is mapped to.
\<close>

theorem tunnel_refines_duplex:
  assumes "(tunnel_step idle)\<^sup>*\<^sup>* (tunnel_start first now) x" "tunnel_step idle x y"
  shows "duplex_step (tunnel_abs first x) (tunnel_abs first y)"
proof -
  have inv: "tunnel_inv first y" using tunnel_inv_step [OF assms(2) tunnel_inv_run [OF assms(1)]] .
  from assms(2) inv show ?thesis
  proof (induction rule: tunnel_step.induct)
    case (Client c c' s)
    note bytes = tunnel_inv_bytes [OF Client(3)]
    from client_step_bytes [OF Client(1)] bytes(2)
      duplex_step.Put_Up [of "tunnel_abs first (c, s)"] duplex_step.Get_Down [of "tunnel_abs first (c, s)"]
    show ?case by (auto simp: tunnel_abs_def)
  next
    case (Server s s' c)
    note bytes = tunnel_inv_bytes [OF Server(3)]
    from relay_step_bytes [OF Server(1)] bytes(1)
      duplex_step.Put_Down [of "tunnel_abs first (c, s)"] duplex_step.Get_Up [of "tunnel_abs first (c, s)"]
    show ?case by (auto simp: tunnel_abs_def)
  qed
qed

text \<open>
  C3. Nothing in the tunnel blocks it for good: from every reachable state in which both streams are
  there and neither loop has been left or is about to be, it can go on to where the target has
  got the first payload and every byte read from the local client, and the local client every byte
  read from the target, without reading any more; full channels, frames in the hands of a task and
  writes half done included.
\<close>

theorem tunnel_can_deliver:
  assumes "(tunnel_step idle)\<^sup>*\<^sup>* (tunnel_start first now) (c, s)" "tk_receiver c" "tk_receiver s"
    and "\<not> returned c" "rl_main s \<noteq> Ended" "\<And>f. rl_main s \<noteq> Replying f False"
  shows "\<exists>c' s'. (tunnel_step idle)\<^sup>*\<^sup>* (c, s) (c', s') \<and> tk_read c' = tk_read c \<and> tk_read s' = tk_read s \<and>
    rl_written s' = first @ tk_read c \<and> ct_written c' = tk_read s"
proof -
  obtain up where up: "writing (rl_main s) = Some up" using assms(5,6) by (cases "rl_main s") auto
  obtain down where "delivering (ct_main c) = Some down" using assms(4) by (cases "ct_main c") (auto simp: returned_def)
  with tunnel_delivers [OF tunnel_inv_run [OF assms(1)] assms(2,3) up] show ?thesis by blast
qed

text \<open>The server's result has arrived and the client has read a piece, which is still in its hands.\<close>

definition opened_relay :: "u8 list \<Rightarrow> nat \<Rightarrow> relay_state" where
  "opened_relay first now = drained (relay_start opened_frames first now)"

definition typed_client :: "u8 list \<Rightarrow> client_state" where
  "typed_client bs = task_read client_frames (ReadBytes bs) client_start"

lemmas typed_defs = opened_relay_def typed_client_def drained_def relay_start_def client_start_def task_read_def
  channel_out_def unsent_def

lemma typed_run:
  assumes "bs \<noteq> []" "length bs \<le> client_chunk_size"
  shows "(tunnel_step idle)\<^sup>*\<^sup>* (tunnel_start first now) (typed_client bs, opened_relay first now)"
proof -
  have "(tunnel_step idle)\<^sup>*\<^sup>* (tunnel_start first now) (client_start, opened_relay first now)"
    unfolding tunnel_start_def opened_relay_def
    by (intro server_runs relay_drains) (simp_all add: relay_start_def sends_to_server_def)
  moreover have "tunnel_step idle (client_start, opened_relay first now) (typed_client bs, opened_relay first now)"
  proof (intro tunnel_step.Client client_step.Task)
    show "local_to_grpc client_start (typed_client bs)"
      unfolding local_to_grpc_def typed_client_def
      by (rule task_step.Read) (use assms in \<open>simp_all add: client_start_def\<close>)
  qed (simp add: sends_to_client_def typed_defs)
  ultimately show ?thesis by (rule rtranclp.rtrancl_into_rtrancl)
qed

text \<open>Whatever the client sends, in any amount, can all reach the target, after the first payload.\<close>

lemma client_reads:
  assumes "tk_task c = Reading" "tk_receiver c"
  shows "\<exists>d. client_step\<^sup>*\<^sup>* c d \<and> tk_read d = tk_read c @ bs \<and> tk_task d = Reading \<and> tk_receiver d \<and>
    ct_main d = ct_main c \<and> ct_frames d = ct_frames c"
  using assms
proof (induction bs arbitrary: c)
  case (Cons b bs)
  let ?d = "drained (task_read client_frames (ReadBytes [b]) c)"
  have run: "client_step\<^sup>*\<^sup>* c ?d" using Cons.prems by (intro reads_into_channel) (simp_all add: client_chunk_size_def)
  have d: "tk_task ?d = Reading" "tk_receiver ?d" "tk_read ?d = tk_read c @ [b]" "ct_main ?d = ct_main c"
      "ct_frames ?d = ct_frames c"
    using Cons.prems by (simp_all add: drained_def task_read_def)
  from Cons.IH [OF d(1,2)] d(3-5) run show ?case by (auto intro: rtranclp_trans)
qed auto

lemma bytes_reach_target:
  "\<exists>c s. (tunnel_step idle)\<^sup>*\<^sup>* (tunnel_start first now) (c, s) \<and> tk_read c = bs \<and> rl_written s = first @ bs"
proof -
  let ?s = "opened_relay first now"
  have "(tunnel_step idle)\<^sup>*\<^sup>* (tunnel_start first now) (client_start, ?s)"
    unfolding tunnel_start_def opened_relay_def
    by (intro server_runs relay_drains) (simp_all add: relay_start_def sends_to_server_def)
  moreover obtain c where c: "client_step\<^sup>*\<^sup>* client_start c" "tk_read c = bs" "tk_receiver c" "ct_main c = Receiving" "ct_frames c = []"
    using client_reads [of client_start bs] by (auto simp: client_start_def)
  then have "(tunnel_step idle)\<^sup>*\<^sup>* (client_start, ?s) (c, ?s)"
    by (intro client_runs) (simp_all add: sends_to_client_def typed_defs)
  ultimately have run: "(tunnel_step idle)\<^sup>*\<^sup>* (tunnel_start first now) (c, ?s)" by (rule rtranclp_trans)
  have "tk_receiver ?s" "writing (rl_main ?s) = Some []" "delivering (ct_main c) = Some []"
    using c(4) by (simp_all add: typed_defs)
  from tunnel_delivers [OF tunnel_inv_run [OF run] c(3) this, of idle] c(2) obtain c' s' where
    "(tunnel_step idle)\<^sup>*\<^sup>* (c, ?s) (c', s')" "tk_read c' = bs" "rl_written s' = first @ bs" by auto
  with rtranclp_trans [OF run this(1)] show ?thesis by (intro exI [of _ c'] exI [of _ s']) simp
qed

section \<open>Witnesses\<close>

definition demo_opened :: relay_state where "demo_opened = opened_relay [1] 0"

definition demo_typed :: client_state where "demo_typed = typed_client [2]"

lemmas demo_tunnel_defs = demo_opened_def demo_typed_def typed_defs

lemma demo_tunnel_run: "(tunnel_step 300)\<^sup>*\<^sup>* (tunnel_start [1] 0) (demo_typed, demo_opened)"
  unfolding demo_opened_def demo_typed_def by (rule typed_run) (simp_all add: client_chunk_size_def)

lemma demo_tunnel_state:
  "tk_receiver demo_typed" "tk_receiver demo_opened" "\<not> returned demo_typed" "rl_main demo_opened = Awaiting"
  "tk_read demo_typed = [2]" "tk_read demo_opened = []" "rl_written demo_opened = [1]"
  by (simp_all add: demo_tunnel_defs returned_def)

theorem tunnel_end_to_end_witness: "prefix (rl_written demo_opened) [1, 2] \<and> ct_written demo_typed = []"
  using tunnel_end_to_end [OF demo_tunnel_run] by (simp add: demo_tunnel_state)

theorem tunnel_refines_duplex_witness:
  "duplex_step (tunnel_abs [1] (demo_typed, demo_opened))
     (tunnel_abs [1] (demo_typed, demo_opened\<lparr>rl_now := 1\<rparr>))"
proof -
  have "rl_now demo_opened = 0" by (simp add: demo_tunnel_defs)
  then have "relay_step 300 demo_opened (demo_opened\<lparr>rl_now := 1\<rparr>)"
    using relay_step.Tick [of 300 demo_opened] by simp
  then have "tunnel_step 300 (demo_typed, demo_opened) (demo_typed, demo_opened\<lparr>rl_now := 1\<rparr>)"
    by (rule tunnel_step.Server) (simp add: sends_to_server_def demo_tunnel_defs)
  with demo_tunnel_run show ?thesis by (rule tunnel_refines_duplex)
qed

theorem tunnel_can_deliver_witness:
  "\<exists>c' s'. (tunnel_step 300)\<^sup>*\<^sup>* (demo_typed, demo_opened) (c', s') \<and> rl_written s' = [1, 2]"
  using tunnel_can_deliver [OF demo_tunnel_run] by (fastforce simp: demo_tunnel_state)

end
