(* ===== verification/Client_Main.thy ===== *)
theory Client_Main
  imports Ingress_Socks5 Ingress_Http
begin

text \<open>
  \<open>client/src/main.rs\<close>: starting the client from its configuration file, up to the two listeners,
  and \<open>test-backend\<close>. The file system, the TOML decoder and the \<open>ipnet\<close> parser are parameters.
\<close>

section \<open>Starting\<close>

datatype start_error =
    ConfigUnreadable string
  | ConfigUnparsable string
  | StartAuth auth_error
  | StartTables table_error
  | StartPools connect_error
  | UserWithoutBackend string string
  | NoSuchBackend string
  | TestFailed connect_error

type_synonym 'a start_io = "(tls_world, start_error, 'a) io"

definition config_load ::
    "(string \<Rightarrow> string option) \<Rightarrow> (string \<Rightarrow> client_config option) \<Rightarrow> string \<Rightarrow> start_error + client_config" where
  "config_load read_file from_toml path =
     rbind (ok_or (ConfigUnreadable path) (read_file path)) (\<lambda>raw.
     ok_or (ConfigUnparsable path) (from_toml raw))"

fun validate_users :: "(string \<times> backend_config) list \<Rightarrow> (string \<times> user_config) list \<Rightarrow> start_error + unit" where
  "validate_users backends [] = Inr ()"
| "validate_users backends ((username, user) # users) =
     (if map_of backends (uc_backend user) = None then Inl (UserWithoutBackend username (uc_backend user))
      else validate_users backends users)"

definition validate_users_backends :: "client_config \<Rightarrow> start_error + unit" where
  "validate_users_backends config = validate_users (cc_backends config) (cc_users config)"

definition router_new :: "route_config \<Rightarrow> china_ip_set \<Rightarrow> (string \<Rightarrow> 'ch backend_pool option) \<Rightarrow> 'ch router" where
  "router_new route china_ip pools = \<lparr>rt_route = route, rt_china_ip = china_ip, rt_pools = pools\<rparr>"

text \<open>What the two listeners are started with.\<close>

record 'ch client_services =
  se_socks_addr :: string
  se_socks_options :: socks5_options
  se_http_addr :: string
  se_auth :: auth_store
  se_router :: "'ch router"

definition map_error :: "('e \<Rightarrow> 'f) \<Rightarrow> 'e + 'a \<Rightarrow> 'f + 'a" where
  "map_error f r = (case r of Inl e \<Rightarrow> Inl (f e) | Inr x \<Rightarrow> Inr x)"

definition client_setup ::
    "'ch tls_env \<Rightarrow> nat \<Rightarrow> (string \<Rightarrow> string option) \<Rightarrow> (string \<Rightarrow> client_config option) \<Rightarrow>
     (string \<Rightarrow> ip_net option) \<Rightarrow> string \<Rightarrow> 'ch client_services start_io" where
  "client_setup env max_permits read_file from_toml parse_net path =
     io_bind (io_lift (config_load read_file from_toml path)) (\<lambda>config.
     io_bind (io_lift (map_error StartAuth (auth_from_config (cc_users config)))) (\<lambda>auth.
     io_bind (io_lift (map_error StartTables (china_load read_file parse_net (cc_route config)))) (\<lambda>china_ip.
     io_bind (io_map_err StartPools (registry_connect env max_permits (cc_backends config) (cc_ech config)))
       (\<lambda>pools.
     io_bind (io_lift (validate_users_backends config)) (\<lambda>_.
     io_return
       \<lparr>se_socks_addr = lc_socks5 (cc_listen config),
        se_socks_options =
          \<lparr>so_allow_no_auth = lc_socks5_allow_no_auth (cc_listen config),
           so_default_user = lc_socks5_default_user (cc_listen config)\<rparr>,
        se_http_addr = lc_http (cc_listen config),
        se_auth = auth, se_router = router_new (cc_route config) china_ip pools\<rparr>)))))"

definition test_backend ::
    "'ch tls_env \<Rightarrow> (string \<Rightarrow> string option) \<Rightarrow> (string \<Rightarrow> client_config option) \<Rightarrow> string \<Rightarrow> string \<Rightarrow>
     unit start_io" where
  "test_backend env read_file from_toml path backend_id =
     io_bind (io_lift (config_load read_file from_toml path)) (\<lambda>config.
     io_bind (io_lift (ok_or (NoSuchBackend backend_id) (map_of (cc_backends config) backend_id))) (\<lambda>backend.
     io_bind (io_map_err TestFailed (connect_channel env backend (cc_ech config))) (\<lambda>channel.
     io_return ())))"

section \<open>Lemmas\<close>

lemma validate_users_ok:
  "validate_users backends users = Inr () \<longleftrightarrow>
     (\<forall>(username, user) \<in> set users. \<exists>backend. map_of backends (uc_backend user) = Some backend)"
  by (induction backends users rule: validate_users.induct) auto

lemma validate_users_error:
  "validate_users backends users = Inl e \<Longrightarrow>
     \<exists>(username, user) \<in> set users. map_of backends (uc_backend user) = None \<and>
       e = UserWithoutBackend username (uc_backend user)"
  by (induction backends users rule: validate_users.induct) (auto split: if_splits)

lemma map_error_Inr [res_simps]: "map_error f r = Inr x \<longleftrightarrow> r = Inr x"
  by (auto simp: map_error_def split: sum.splits)

lemma auth_users_configured:
  assumes "auth_from_config users = Inr store" "distinct (map fst users)" "auth_user store name = Some profile"
  shows "\<exists>user. (name, user) \<in> set users \<and> up_backend profile = uc_backend user"
proof -
  have ok: "list_all has_password users" "users \<noteq> []"
    using assms(1) add_profiles_missing [of users "\<lambda>_. None"]
    by (auto simp: auth_from_config_def split: if_splits)
  then have "store = (\<lambda>n. case map_of users n of None \<Rightarrow> None | Some user \<Rightarrow> Some (profile_of n user))"
    using assms(1) add_profiles_ok [OF assms(2) ok(1), of "\<lambda>_. None"] by (simp add: auth_from_config_def)
  with assms(3) obtain user where "map_of users name = Some user" "profile = profile_of name user"
    by (auto simp: auth_user_def split: option.splits)
  then show ?thesis by (auto simp: profile_of_def dest: map_of_SomeD)
qed

lemma client_setup_Inr:
  assumes "client_setup env max_permits read_file from_toml parse_net path w = (Inr sv, w')"
  obtains config china_ip pools v where "config_load read_file from_toml path = Inr config"
    "auth_from_config (cc_users config) = Inr (se_auth sv)"
    "china_load read_file parse_net (cc_route config) = Inr china_ip"
    "registry_connect env max_permits (cc_backends config) (cc_ech config) v = (Inr pools, w')"
    "validate_users_backends config = Inr ()"
    "se_router sv = router_new (cc_route config) china_ip pools"
  using assms that by (auto simp: client_setup_def io_simps res_simps simp del: io_bind_lift)

lemma registry_pool_of:
  assumes "registry_connect env max_permits backends ech v = (Inr pools, v')" "distinct (map fst backends)"
    and "map_of backends ident = Some backend"
  obtains pool where "registry_get pools ident = Some pool" "bp_backend pool = backend" "fst (pick pool) \<noteq> None"
proof -
  from assms(1) have "connect_pools env max_permits ech backends (\<lambda>_. None) v = (Inr pools, v')"
    by (auto simp: registry_connect_def split: if_splits)
  from connect_pools_result [OF this assms(2)] map_of_SomeD [OF assms(3)]
  obtain pool u u' where "pools ident = Some pool" "backend_pool_connect env max_permits backend ech u = (Inr pool, u')"
    by fastforce
  with backend_pool_connect_shape [of env max_permits backend ech u pool u'] that [of pool] show thesis
    by (fastforce simp: registry_get_def pick_def Let_def)
qed

lemma decide_cases:
  assumes "registry_get (rt_pools router) (up_backend user) = Some pool"
  shows "(\<exists>e. decide lookup router user host port = Inl (LookupFailed e)) \<or>
    (\<exists>d. decide lookup router user host port = Inr d)"
proof (cases "decide lookup router user host port")
  case (Inl e)
  have "\<exists>d. e = LookupFailed d"
    using Inl assms
    by (auto simp: decide_def choose_pool_def classify_domain_def res_simps Let_def
        split: option.splits sum.splits if_splits)
  with Inl show ?thesis by blast
qed simp

section \<open>Properties\<close>

text \<open>
  C26. A client that starts can serve every user it authenticates: the user's backend is configured
  and has a connected pool made from that backend, whose \<open>pick\<close> gives a channel; so routing never
  fails for a missing backend, whatever the target.
\<close>

theorem setup_serves_users:
  assumes "client_setup env max_permits read_file from_toml parse_net path w = (Inr sv, w')"
    and "config_load read_file from_toml path = Inr config"
    and "distinct (map fst (cc_users config))" "distinct (map fst (cc_backends config))"
    and "auth_user (se_auth sv) name = Some user"
  shows "\<exists>backend pool. map_of (cc_backends config) (up_backend user) = Some backend \<and>
    registry_get (rt_pools (se_router sv)) (up_backend user) = Some pool \<and> bp_backend pool = backend \<and>
    fst (pick pool) \<noteq> None \<and>
    ((\<exists>e. decide lookup (se_router sv) user host port = Inl (LookupFailed e)) \<or>
     (\<exists>d. decide lookup (se_router sv) user host port = Inr d))"
proof -
  from assms(1) obtain c china_ip pools v where ran: "config_load read_file from_toml path = Inr c"
      "auth_from_config (cc_users c) = Inr (se_auth sv)"
      "registry_connect env max_permits (cc_backends c) (cc_ech c) v = (Inr pools, w')"
      "validate_users_backends c = Inr ()" "se_router sv = router_new (cc_route c) china_ip pools"
    by (rule client_setup_Inr)
  then have c: "c = config" using assms(2) by simp
  from auth_users_configured [OF ran(2) [unfolded c] assms(3,5)] obtain u where
    u: "(name, u) \<in> set (cc_users config)" "up_backend user = uc_backend u" by blast
  with ran(4) c obtain backend where backend: "map_of (cc_backends config) (up_backend user) = Some backend"
    by (fastforce simp: validate_users_backends_def validate_users_ok)
  from registry_pool_of [OF ran(3) [unfolded c] assms(4) backend] obtain pool where
    pool: "registry_get pools (up_backend user) = Some pool" "bp_backend pool = backend" "fst (pick pool) \<noteq> None" .
  then have "registry_get (rt_pools (se_router sv)) (up_backend user) = Some pool"
    by (simp add: ran(5) router_new_def)
  with backend pool decide_cases [OF this] show ?thesis by blast
qed

definition demo_config :: client_config where
  "demo_config =
     \<lparr>cc_listen = \<lparr>lc_socks5 = default_socks5_listen, lc_http = default_http_listen,
        lc_socks5_allow_no_auth = False, lc_socks5_default_user = None\<rparr>,
      cc_users = [(''u'', \<lparr>uc_backend = ''p'', uc_password = Some ''s'', uc_password_hash = None\<rparr>)],
      cc_backends = [(''p'', demo_backend)], cc_ech = ech_config_default, cc_route = route_config_default\<rparr>"

definition demo_setup :: "(start_error + unit client_services) \<times> tls_world" where
  "demo_setup = client_setup demo_ech_env 1000 (\<lambda>_. Some []) (\<lambda>_. Some demo_config) (\<lambda>_. None) ''c'' demo_world"

theorem setup_serves_users_witness:
  "\<exists>sv user pool. fst demo_setup = Inr sv \<and> auth_user (se_auth sv) ''u'' = Some user \<and>
     registry_get (rt_pools (se_router sv)) (up_backend user) = Some pool \<and> bp_backend pool = demo_backend"
proof -
  have "is_ok (fst demo_setup)" by code_simp
  then obtain sv where sv: "fst demo_setup = Inr sv" by (auto simp: is_ok_iff)
  have "(case fst demo_setup of Inl e \<Rightarrow> False | Inr sv \<Rightarrow> auth_user (se_auth sv) ''u'' \<noteq> None)" by code_simp
  with sv obtain user where user: "auth_user (se_auth sv) ''u'' = Some user" by auto
  have run: "client_setup demo_ech_env 1000 (\<lambda>_. Some []) (\<lambda>_. Some demo_config) (\<lambda>_. None) ''c'' demo_world =
      (Inr sv, snd demo_setup)"
    using sv by (metis demo_setup_def prod.collapse)
  have load: "config_load (\<lambda>_. Some []) (\<lambda>_. Some demo_config) ''c'' = Inr demo_config"
    by (simp add: config_load_def)
  from setup_serves_users [OF run load _ _ user, where lookup = "\<lambda>_ _. Inl []" and host = "[]" and port = 0] obtain backend pool where
    "map_of (cc_backends demo_config) (up_backend user) = Some backend"
    "registry_get (rt_pools (se_router sv)) (up_backend user) = Some pool" "bp_backend pool = backend"
    by (auto simp: demo_config_def)
  with sv user show ?thesis by (auto simp: demo_config_def split: if_splits)
qed

end
