(* ===== verification/Client_Run.thy ===== *)
theory Client_Run
  imports Client_Main
begin

text \<open>
  The client as a process: the accept loops of \<open>client/src/ingress_socks5.rs\<close> and
  \<open>ingress_http.rs\<close>, the \<open>select!\<close> over them and Ctrl-C in \<open>client/src/main.rs\<close>, its commands, and
  \<open>connect_direct\<close> of \<open>router.rs\<close> with \<open>tcp_util.rs\<close>. What the operating system gives (a bound
  socket, a connection, a signal) is an event; a run is a function of the events in the order in
  which they happen.
\<close>

section \<open>Direct connections\<close>

text \<open>\<open>set_nodelay\<close> is the socket option call; its error is logged and dropped.\<close>

definition configure_proxy_tcp :: "('s \<Rightarrow> bool \<Rightarrow> string + 's) \<Rightarrow> 's \<Rightarrow> 's" where
  "configure_proxy_tcp set_nodelay stream =
     (case set_nodelay stream True of Inl err \<Rightarrow> stream | Inr stream' \<Rightarrow> stream')"

definition connect_direct ::
    "('s \<Rightarrow> bool \<Rightarrow> string + 's) \<Rightarrow> (string \<Rightarrow> u16 \<Rightarrow> string + 's) \<Rightarrow> string \<Rightarrow> u16 \<Rightarrow> string + 's" where
  "connect_direct set_nodelay tcp_connect connect_host target_port =
     rbind (tcp_connect connect_host target_port) (\<lambda>stream.
     Inr (configure_proxy_tcp set_nodelay stream))"

lemma connect_direct_Inl: "connect_direct set_nodelay tcp_connect host port = Inl e \<longleftrightarrow> tcp_connect host port = Inl e"
  by (simp add: connect_direct_def res_simps)

section \<open>The accept loops\<close>

datatype listen_error = BindFailed string string | AcceptFailed string

text \<open>What \<open>bind\<close> and \<open>accept\<close> give; where a listener is.\<close>

datatype listener_event = Bound "string + unit" | Accept "string + socket"

datatype listener = Binding | Listening | Broken listen_error

text \<open>One event: the next state, and the connection for which a handler was spawned, if any.\<close>

fun serve_step :: "string \<Rightarrow> listener_event \<Rightarrow> listener \<Rightarrow> listener \<times> socket list" where
  "serve_step addr (Bound (Inl e)) Binding = (Broken (BindFailed addr e), [])"
| "serve_step addr (Bound (Inr u)) Binding = (Listening, [])"
| "serve_step addr (Accept (Inl e)) Listening = (Broken (AcceptFailed e), [])"
| "serve_step addr (Accept (Inr conn)) Listening = (Listening, [conn])"
| "serve_step addr _ l = (l, [])"

text \<open>
  A spawned handler runs on its connection alone, with the user store, router and options of the
  client; its error is logged and dropped.
\<close>

definition socks_spawned ::
    "lookup_host \<Rightarrow> (string \<Rightarrow> u16 \<Rightarrow> string + unit) \<Rightarrow> 'ch client_services \<Rightarrow> socket \<Rightarrow>
     (socks_error + relay_plan) \<times> socket" where
  "socks_spawned lookup connect sv conn =
     socks5_handle lookup connect (se_auth sv) (se_router sv) (se_socks_options sv) conn"

definition http_spawned ::
    "lookup_host \<Rightarrow> (string \<Rightarrow> u16 \<Rightarrow> string + unit) \<Rightarrow> (string \<Rightarrow> u8 list option) \<Rightarrow> 'ch client_services \<Rightarrow> socket \<Rightarrow>
     (http_error + relay_plan) \<times> socket" where
  "http_spawned lookup connect decode sv conn = http_handle lookup connect decode (se_auth sv) (se_router sv) conn"

section \<open>Running\<close>

datatype run_event = SocksEvent listener_event | HttpEvent listener_event | CtrlC "string + unit"

datatype run_error = SocksListener listen_error | HttpListener listen_error | CtrlCFailed string

record run_state =
  ru_socks :: listener
  ru_http :: listener
  ru_socks_conns :: "socket list"
  ru_http_conns :: "socket list"

definition run_start :: run_state where
  "run_start = \<lparr>ru_socks = Binding, ru_http = Binding, ru_socks_conns = [], ru_http_conns = []\<rparr>"

text \<open>The branch of \<open>select!\<close> that is ready first ends the run.\<close>

definition run_select :: "run_state \<Rightarrow> (run_error + unit) option" where
  "run_select s =
     (case (ru_socks s, ru_http s) of
        (Broken e, _) \<Rightarrow> Some (Inl (SocksListener e))
      | (_, Broken e) \<Rightarrow> Some (Inl (HttpListener e))
      | _ \<Rightarrow> None)"

fun run_step :: "'ch client_services \<Rightarrow> run_event \<Rightarrow> run_state \<Rightarrow> (run_error + unit) option \<times> run_state" where
  "run_step sv (SocksEvent e) s =
     (case serve_step (se_socks_addr sv) e (ru_socks s) of
        (l, conns) \<Rightarrow>
          let s' = s\<lparr>ru_socks := l, ru_socks_conns := ru_socks_conns s @ conns\<rparr> in (run_select s', s'))"
| "run_step sv (HttpEvent e) s =
     (case serve_step (se_http_addr sv) e (ru_http s) of
        (l, conns) \<Rightarrow>
          let s' = s\<lparr>ru_http := l, ru_http_conns := ru_http_conns s @ conns\<rparr> in (run_select s', s'))"
| "run_step sv (CtrlC (Inl e)) s = (Some (Inl (CtrlCFailed e)), s)"
| "run_step sv (CtrlC (Inr u)) s = (Some (Inr ()), s)"

text \<open>\<open>None\<close>: still running after these events.\<close>

fun run_events :: "'ch client_services \<Rightarrow> run_event list \<Rightarrow> run_state \<Rightarrow> (run_error + unit) option \<times> run_state" where
  "run_events sv [] s = (None, s)"
| "run_events sv (e # es) s =
     (case run_step sv e s of
        (Some r, s') \<Rightarrow> (Some r, s')
      | (None, s') \<Rightarrow> run_events sv es s')"

definition client_run ::
    "'ch tls_env \<Rightarrow> nat \<Rightarrow> (string \<Rightarrow> string option) \<Rightarrow> (string \<Rightarrow> client_config option) \<Rightarrow>
     (string \<Rightarrow> ip_net option) \<Rightarrow> string \<Rightarrow> run_event list \<Rightarrow>
     ('ch client_services \<times> (run_error + unit) option \<times> run_state) start_io" where
  "client_run env max_permits read_file from_toml parse_net path events =
     io_bind (client_setup env max_permits read_file from_toml parse_net path) (\<lambda>sv.
     io_return (sv, run_events sv events run_start))"

section \<open>The commands\<close>

datatype service_command = Install string | Uninstall

datatype command = Run string | TestBackend string string | UpdateGeoip | Service service_command

datatype main_error = StartFailed start_error | RunFailed run_error | NotImplemented string

text \<open>The exit of the process: \<open>None\<close> while it runs. The command line itself is read by \<open>clap\<close>.\<close>

definition client_main ::
    "'ch tls_env \<Rightarrow> nat \<Rightarrow> (string \<Rightarrow> string option) \<Rightarrow> (string \<Rightarrow> client_config option) \<Rightarrow>
     (string \<Rightarrow> ip_net option) \<Rightarrow> run_event list \<Rightarrow> command \<Rightarrow> tls_world \<Rightarrow> (main_error + unit) option" where
  "client_main env max_permits read_file from_toml parse_net events command w =
     (case command of
        Run path \<Rightarrow>
          (case fst (client_run env max_permits read_file from_toml parse_net path events w) of
             Inl e \<Rightarrow> Some (Inl (StartFailed e))
           | Inr (sv, Some r, s) \<Rightarrow> Some (map_error RunFailed r)
           | Inr (sv, None, s) \<Rightarrow> None)
      | TestBackend path backend \<Rightarrow>
          Some (map_error StartFailed (fst (test_backend env read_file from_toml path backend w)))
      | UpdateGeoip \<Rightarrow>
          Some (Inl (NotImplemented
            ''update-geoip is not implemented; update chn_ip.txt and chn_ip_v6.txt manually''))
      | Service sub \<Rightarrow>
          Some (Inl (NotImplemented ''Windows service management is not implemented in this build'')))"

section \<open>What a run does\<close>

text \<open>The specification of a running client: connections are accepted until an event ends it.\<close>

definition run_listening :: run_state where
  "run_listening = \<lparr>ru_socks = Listening, ru_http = Listening, ru_socks_conns = [], ru_http_conns = []\<rparr>"

fun run_ending :: "run_event \<Rightarrow> (run_error + unit) option" where
  "run_ending (SocksEvent (Accept (Inl e))) = Some (Inl (SocksListener (AcceptFailed e)))"
| "run_ending (HttpEvent (Accept (Inl e))) = Some (Inl (HttpListener (AcceptFailed e)))"
| "run_ending (CtrlC (Inl e)) = Some (Inl (CtrlCFailed e))"
| "run_ending (CtrlC (Inr u)) = Some (Inr ())"
| "run_ending _ = None"

fun socks_accepted :: "run_event \<Rightarrow> socket list" where
  "socks_accepted (SocksEvent (Accept (Inr conn))) = [conn]"
| "socks_accepted _ = []"

fun http_accepted :: "run_event \<Rightarrow> socket list" where
  "http_accepted (HttpEvent (Accept (Inr conn))) = [conn]"
| "http_accepted _ = []"

definition served :: "run_event list \<Rightarrow> run_event list" where
  "served events = takeWhile (\<lambda>e. run_ending e = None) events"

lemma run_events_listening:
  assumes "ru_socks s = Listening" "ru_http s = Listening"
  shows "case run_events sv events s of (r, t) \<Rightarrow>
    r = (case dropWhile (\<lambda>e. run_ending e = None) events of [] \<Rightarrow> None | e # _ \<Rightarrow> run_ending e) \<and>
    ru_socks_conns t = ru_socks_conns s @ concat (map socks_accepted (served events)) \<and>
    ru_http_conns t = ru_http_conns s @ concat (map http_accepted (served events))"
  using assms
proof (induction events arbitrary: s)
  case (Cons e es)
  show ?case
  proof (cases "run_ending e")
    case None
    then have "\<exists>t. run_step sv e s = (None, t) \<and> ru_socks t = Listening \<and> ru_http t = Listening \<and>
        ru_socks_conns t = ru_socks_conns s @ socks_accepted e \<and> ru_http_conns t = ru_http_conns s @ http_accepted e"
      using Cons.prems by (cases e rule: run_ending.cases) (simp_all add: run_select_def Let_def)
    then obtain t where t: "run_step sv e s = (None, t)" "ru_socks t = Listening" "ru_http t = Listening"
      "ru_socks_conns t = ru_socks_conns s @ socks_accepted e" "ru_http_conns t = ru_http_conns s @ http_accepted e"
      by blast
    with Cons.IH [OF t(2,3)] None show ?thesis by (simp add: served_def split: prod.splits)
  next
    case (Some r)
    then show ?thesis
      using Cons.prems by (cases e rule: run_ending.cases) (simp_all add: served_def run_select_def Let_def)
  qed
qed (simp add: served_def)

section \<open>Properties\<close>

text \<open>
  C40. A client whose listeners are bound accepts connections of both kinds, each for a handler of its
  own, whatever those handlers do, until the first failing \<open>accept\<close> of either listener or Ctrl-C,
  which alone decides how the whole client ends; so one failing \<open>accept\<close> ends it, with the error of
  its listener.
\<close>

theorem accept_error_ends_client:
  assumes "fst (client_setup env max_permits read_file from_toml parse_net path w) = Inr sv"
    and "events = SocksEvent (Bound (Inr ())) # HttpEvent (Bound (Inr ())) # later"
  shows "\<exists>s. fst (client_run env max_permits read_file from_toml parse_net path events w) =
      Inr (sv, (case dropWhile (\<lambda>e. run_ending e = None) later of [] \<Rightarrow> None | e # _ \<Rightarrow> run_ending e), s) \<and>
    ru_socks_conns s = concat (map socks_accepted (served later)) \<and>
    ru_http_conns s = concat (map http_accepted (served later)) \<and>
    client_main env max_permits read_file from_toml parse_net events (Run path) w =
      map_option (map_error RunFailed)
        (case dropWhile (\<lambda>e. run_ending e = None) later of [] \<Rightarrow> None | e # _ \<Rightarrow> run_ending e)"
proof -
  have "run_events sv events run_start = run_events sv later run_listening"
    using assms(2) by (simp add: run_start_def run_listening_def run_select_def)
  with run_events_listening [where s = run_listening and sv = sv and events = later] obtain s where
    "run_events sv events run_start =
       (case dropWhile (\<lambda>e. run_ending e = None) later of [] \<Rightarrow> None | e # _ \<Rightarrow> run_ending e, s)"
    "ru_socks_conns s = concat (map socks_accepted (served later))"
    "ru_http_conns s = concat (map http_accepted (served later))"
    by (auto simp: run_listening_def split: prod.splits)
  moreover obtain w' where "client_setup env max_permits read_file from_toml parse_net path w = (Inr sv, w')"
    using assms(1) by (metis prod.collapse)
  ultimately show ?thesis
    by (intro exI [of _ s]) (simp add: client_run_def client_main_def io_simps split: option.split)
qed

definition demo_events :: "run_event list" where
  "demo_events = [SocksEvent (Bound (Inr ())), HttpEvent (Bound (Inr ())), SocksEvent (Accept (Inr (demo_socket []))),
     HttpEvent (Accept (Inl ''Too many open files'')), SocksEvent (Accept (Inr (demo_socket [])))]"

theorem accept_error_ends_client_witness:
  "client_main demo_ech_env 1000 (\<lambda>_. Some []) (\<lambda>_. Some demo_config) (\<lambda>_. None) demo_events (Run ''c'') demo_world =
     Some (Inl (RunFailed (HttpListener (AcceptFailed ''Too many open files''))))"
proof -
  have "is_ok (fst demo_setup)" by code_simp
  then obtain sv where "fst demo_setup = Inr sv" by (auto simp: is_ok_iff)
  from accept_error_ends_client [OF this [unfolded demo_setup_def] demo_events_def] show ?thesis
    by (auto simp: map_error_def)
qed

end
