(* ===== verification/Server_Main.thy ===== *)
theory Server_Main
  imports Server_Tunnel
begin

text \<open>
  \<open>server/src/main.rs\<close>: from the arguments to the server that is started. The file system, the
  TOML decoder, the environment and the check of the TLS identity by \<open>tonic\<close> are parameters; the
  builder of \<open>tonic\<close> is the record of what it is given.
\<close>

section \<open>Socket addresses\<close>

text \<open>
  \<open>str::parse::<SocketAddr>()\<close>: an IPv4 address and a port, or an IPv6 address in brackets with an
  optional scope, which \<open>socket_addr\<close> does not keep, and a port. The whole input must be read.
\<close>

definition read_port :: "string \<Rightarrow> (u16 \<times> string) option" where
  "read_port s =
     (case read_given_char CHR '':'' s of
        None \<Rightarrow> None
      | Some r \<Rightarrow>
          map_option (\<lambda>(p, r). (word_of_nat p, r)) (read_number 10 (length r) True 65536 r))"

definition read_scope_id :: "string \<Rightarrow> string" where
  "read_scope_id s =
     (case read_given_char CHR ''%'' s of
        None \<Rightarrow> s
      | Some r \<Rightarrow> (case read_number 10 (length r) True 4294967296 r of None \<Rightarrow> s | Some (n, r') \<Rightarrow> r'))"

definition read_socket_addr_v4 :: "string \<Rightarrow> (socket_addr \<times> string) option" where
  "read_socket_addr_v4 s =
     (case read_ipv4_addr s of
        None \<Rightarrow> None
      | Some (ip, r) \<Rightarrow> map_option (\<lambda>(port, r). (\<lparr>sa_ip = V4 ip, sa_port = port\<rparr>, r)) (read_port r))"

definition read_socket_addr_v6 :: "string \<Rightarrow> (socket_addr \<times> string) option" where
  "read_socket_addr_v6 s =
     (case read_given_char CHR ''['' s of
        None \<Rightarrow> None
      | Some r \<Rightarrow>
          (case read_ipv6_addr r of
             None \<Rightarrow> None
           | Some (ip, r) \<Rightarrow>
               (case read_given_char CHR '']'' (read_scope_id r) of
                  None \<Rightarrow> None
                | Some r \<Rightarrow> map_option (\<lambda>(port, r). (\<lparr>sa_ip = V6 ip, sa_port = port\<rparr>, r)) (read_port r))))"

definition parse_socket_addr :: "string \<Rightarrow> socket_addr option" where
  "parse_socket_addr s =
     (case (case read_socket_addr_v4 s of Some x \<Rightarrow> Some x | None \<Rightarrow> read_socket_addr_v6 s) of
        Some (addr, r) \<Rightarrow> (if r = [] then Some addr else None)
      | None \<Rightarrow> None)"

section \<open>Starting\<close>

datatype server_start_error =
    Start_Config srv_error
  | InvalidListen string
  | CertUnreadable string
  | KeyUnreadable string
  | TlsRejected

text \<open>\<open>TunnelServer\<close>, with the idle timeout in milliseconds.\<close>

record tunnel_server =
  ts_auth :: token_auth
  ts_policy :: policy
  ts_idle_timeout :: nat

definition tunnel_server_new :: "token_auth \<Rightarrow> policy \<Rightarrow> nat \<Rightarrow> tunnel_server" where
  "tunnel_server_new auth policy idle_timeout =
     \<lparr>ts_auth = auth, ts_policy = policy, ts_idle_timeout = idle_timeout\<rparr>"

record server_builder =
  sb_keepalive_interval :: nat
  sb_keepalive_timeout :: nat
  sb_concurrency_limit :: nat
  sb_tls :: "(u8 list \<times> u8 list) option"

record server_start =
  ss_listen :: socket_addr
  ss_service :: tunnel_server
  ss_builder :: server_builder

record server_env =
  sn_read_text :: "string \<Rightarrow> string option"
  sn_read_bytes :: "string \<Rightarrow> u8 list option"
  sn_from_toml :: "string \<Rightarrow> srv_config option"
  sn_var :: "string \<Rightarrow> string option"
  sn_identity_ok :: "u8 list \<Rightarrow> u8 list \<Rightarrow> bool"

definition on_config :: "srv_error + 'a \<Rightarrow> server_start_error + 'a" where
  "on_config r = (case r of Inl e \<Rightarrow> Inl (Start_Config e) | Inr x \<Rightarrow> Inr x)"

definition server_tls :: "server_env \<Rightarrow> server_config \<Rightarrow> server_start_error + (u8 list \<times> u8 list) option" where
  "server_tls env server =
     (case (sv_cert server, sv_key server) of
        (Some cert, Some key) \<Rightarrow>
          rbind (ok_or (CertUnreadable cert) (sn_read_bytes env cert)) (\<lambda>cert.
          rbind (ok_or (KeyUnreadable key) (sn_read_bytes env key)) (\<lambda>key.
          rbind (ensure (sn_identity_ok env cert key) TlsRejected) (\<lambda>_.
          Inr (Some (cert, key)))))
      | _ \<Rightarrow> Inr None)"

definition server_main :: "server_env \<Rightarrow> string option \<Rightarrow> server_start_error + server_start" where
  "server_main env path =
     rbind (on_config (srv_config_load (sn_read_text env) (sn_from_toml env) (sn_var env) path)) (\<lambda>config.
     rbind (ok_or (InvalidListen (sv_listen (sc_server config)))
       (parse_socket_addr (sv_listen (sc_server config)))) (\<lambda>listen.
     rbind (on_config (token_auth_new (au_tokens (sc_auth config)))) (\<lambda>auth.
     rbind (on_config (policy_from_config (sc_policy config))) (\<lambda>policy.
     rbind (server_tls env (sc_server config)) (\<lambda>tls.
     Inr \<lparr>ss_listen = listen,
          ss_service = tunnel_server_new auth policy (policy_idle_timeout_of (sc_policy config)),
          ss_builder =
            \<lparr>sb_keepalive_interval = 30 * 1000, sb_keepalive_timeout = 10 * 1000,
             sb_concurrency_limit = unat (po_max_concurrent_streams (sc_policy config)),
             sb_tls = tls\<rparr>\<rparr>)))))"

lemma on_config_Inr [res_simps]: "on_config r = Inr x \<longleftrightarrow> r = Inr x"
  by (auto simp: on_config_def split: sum.splits)

lemma server_tls_Inr:
  assumes "server_tls env server = Inr tls"
  shows "case (sv_cert server, sv_key server) of
      (Some c, Some k) \<Rightarrow> \<exists>cert key. sn_read_bytes env c = Some cert \<and> sn_read_bytes env k = Some key \<and>
        sn_identity_ok env cert key \<and> tls = Some (cert, key)
    | _ \<Rightarrow> tls = None"
  using assms by (cases "sv_cert server"; cases "sv_key server") (auto simp: server_tls_def res_simps)

lemma token_auth_new_Inr: "token_auth_new tokens = Inr auth \<longleftrightarrow> tokens \<noteq> [] \<and> ta_tokens auth = set tokens"
  by (cases auth) (auto simp: token_auth_new_def)

lemma policy_from_config_Inr:
  "policy_from_config c = Inr policy \<Longrightarrow> pl_connect_timeout policy = unat (po_connect_timeout_ms c) \<and>
     pl_deny_private_ip policy = po_deny_private_ip c \<and>
     (case pl_allowed_ports policy of
        None \<Rightarrow> po_allowed_ports c = [] | Some ports \<Rightarrow> ports = set (po_allowed_ports c) \<and> ports \<noteq> {} \<and> 0 \<notin> ports)"
  by (auto simp: policy_from_config_def policy_connect_timeout_of_def list_ex_iff split: if_splits)

lemma show_dec_bound: "n < 10 ^ length (show_dec n)"
proof (induction n rule: show_radix_induct [where r = 10, case_names two small big])
  case (small n)
  then show ?case by (simp add: show_radix_small)
next
  case (big n)
  then have "n div 10 * 10 + n mod 10 < 10 * 10 ^ length (show_dec (n div 10))"
    using mod_less_divisor [of 10 n] by linarith
  with big show ?case by (simp add: show_radix_big)
qed simp

lemma read_port_show: "read_port (CHR '':'' # show_dec (unat (port :: u16))) = Some (port, [])"
proof -
  let ?digits = "show_dec (unat port)"
  have "unat port < 10 ^ length ?digits" by (rule show_dec_bound)
  then have "read_number 10 (length ?digits) True 65536 (?digits @ []) = Some (unat port, [])"
    using unat_u16_less [of port] by (intro read_number_show) simp_all
  then show ?thesis by (simp add: read_port_def)
qed

text \<open>\<open>addr.to_string().parse::<SocketAddr>()\<close> is \<open>addr\<close>.\<close>

lemma parse_show_socket_addr: "parse_socket_addr (show_socket_addr addr) = Some addr"
proof (cases "sa_ip addr")
  case (V4 ip)
  have "read_ipv4_addr (show_ipv4 ip @ CHR '':'' # show_dec (unat (sa_port addr))) =
      Some (ip, CHR '':'' # show_dec (unat (sa_port addr)))"
    by (rule read_ipv4_show) simp
  with V4 show ?thesis
    by (cases addr) (simp add: parse_socket_addr_def read_socket_addr_v4_def read_port_show)
next
  case (V6 ip)
  let ?rest = "CHR '']'' # CHR '':'' # show_dec (unat (sa_port addr))"
  have "to_digit 10 CHR ''['' = None" by code_simp
  then have "read_ipv4_addr (CHR ''['' # show_ipv6 ip @ ?rest) = None"
    by (simp add: read_ipv4_addr_def read_v4_groups_4 read_number_no_digit)
  moreover have "read_ipv6_addr (show_ipv6 ip @ ?rest) = Some (ip, ?rest)"
    using read_ipv6_show [of ?rest ip] by simp
  ultimately show ?thesis
    using V6 by (cases addr) (simp add: parse_socket_addr_def read_socket_addr_v4_def read_socket_addr_v6_def
        read_scope_id_def read_port_show)
qed

lemma graph_ip_char: "ip_char c \<Longrightarrow> graph c"
proof -
  have "list_all (\<lambda>d. graph (digit_char d)) [0..<16] \<and> graph CHR ''.'' \<and> graph CHR '':''" by code_simp
  then show "ip_char c \<Longrightarrow> graph c" by (auto simp: ip_char_def list_all_iff)
qed

lemma trim_show_socket_addr: "str_trim (show_socket_addr addr) = show_socket_addr addr"
proof (rule ws_free_trim, rule ws_free_graph)
  have "list_all graph '':[]''" by code_simp
  then show "list_all graph (show_socket_addr addr)"
    using graph_show_radix [of 10 "unat (sa_port addr)"]
    by (auto simp: list_all_iff graph_ip_char dest: show_ipv4_chars show_ipv6_chars split: ip_addr.split)
qed

declare show_socket_addr.simps [simp del] parse_show_socket_addr [simp] trim_show_socket_addr [simp]

text \<open>What the file, or the default, and the environment decide of a loaded configuration.\<close>

definition base_config :: "(string \<Rightarrow> string option) \<Rightarrow> (string \<Rightarrow> srv_config option) \<Rightarrow> string option \<Rightarrow> srv_config \<Rightarrow> bool" where
  "base_config read_file from_toml path base \<longleftrightarrow>
     (case path of
        None \<Rightarrow> base = srv_config_default
      | Some p \<Rightarrow> \<exists>raw. read_file p = Some raw \<and> from_toml raw = Some base)"

lemma srv_config_load_Inr:
  assumes "srv_config_load read_file from_toml var path = Inr config"
  shows "\<exists>base. base_config read_file from_toml path base \<and> sc_policy config = sc_policy base \<and>
    sv_cert (sc_server config) = sv_cert (sc_server base) \<and> sv_key (sc_server config) = sv_key (sc_server base) \<and>
    (case var ''LISTEN'' of
       None \<Rightarrow> sv_listen (sc_server config) = sv_listen (sc_server base)
     | Some raw \<Rightarrow> sv_listen (sc_server config) = str_trim raw) \<and>
    (case var ''TOKENS'' of
       None \<Rightarrow> au_tokens (sc_auth config) = au_tokens (sc_auth base)
     | Some raw \<Rightarrow> parse_tokens raw = Inr (au_tokens (sc_auth config)))"
proof -
  from assms obtain base where base: "base_config read_file from_toml path base" and env: "apply_env var base = Inr config"
    by (cases path) (auto simp: srv_config_load_def base_config_def res_simps)
  then show ?thesis
    by (intro exI [of _ base])
      (cases "var ''LISTEN''"; cases "var ''TOKENS''"; auto simp: apply_env_def res_simps Let_def split: if_splits)
qed

section \<open>Properties\<close>


definition demo_file :: srv_config where
  "demo_file = srv_config_default\<lparr>sc_server := \<lparr>sv_listen = ''0.0.0.0:1'', sv_cert = Some ''c'', sv_key = Some ''k''\<rparr>\<rparr>"

definition demo_server_env :: server_env where
  "demo_server_env =
     \<lparr>sn_read_text = Some, sn_read_bytes = [''c'' \<mapsto> [1], ''k'' \<mapsto> [2]], sn_from_toml = (\<lambda>_. Some demo_file),
      sn_var = [''TOKENS'' \<mapsto> ''t, ,u'', ''LISTEN'' \<mapsto> ''[::1]:80''], sn_identity_ok = (\<lambda>cert key. cert = [1] \<and> key = [2])\<rparr>"


end
