(* ===== verification/Spec2Isabelle.thy ===== *)
theory Spec2Isabelle
  imports Ech_Prelude Rust_Str Ip_Addr Client_Config China_Ip Ech_Dns Ech_Tls Ech_Service
    Grpc_Pool Server_Config Server_Policy Tunnel_Proto Tunnel_Task Server_Tunnel
    Client_Auth Router Socket Ingress_Socks5 Ingress_Http Http_Rewrite
    Client_Tunnel Tunnel_Pool Tunnel_End_To_End Client_Main Client_Run Server_Main
begin

text \<open>
  \<^bold>\<open>The program.\<close> A local proxy and its server, in Rust. The client (\<open>client/src\<close>) takes SOCKS5 and
  HTTP proxy connections, authenticates their user, sends Chinese addresses directly and every
  other target through the backend of the user: a pool of gRPC channels, connected over TLS with
  Encrypted Client Hello whose configuration it fetches by DNS over HTTPS. The server
  (\<open>server/src\<close>) authenticates the backend token, checks the target against its policy, connects
  to it and relays frames.

  \<^bold>\<open>Conventions.\<close> Records have the fields of the structs, datatypes the variants of the enums. Machine
  integers are words where the code computes with them. A \<open>String\<close> is its UTF-8 bytes (\<open>Rust_Str\<close>).
  A \<open>Result\<close> is \<open>error + 'a\<close>, with one error constructor for each place that fails and \<open>rbind\<close> for
  \<open>?\<close>; an operation on a state is a function from the state to a result and the next state, with
  \<open>io_bind\<close> (\<open>Ech_Prelude\<close>). Panics are values (\<open>None\<close>, \<open>Panicked\<close>, \<open>PickPanic\<close>). Code that is not
  in the repository is a parameter: the file system, the TOML decoder, \<open>ipnet\<close>, \<open>base64\<close>, the
  resolver, the network, BoringSSL and \<open>tonic\<close>; a hypothesis states what is relied on. The standard
  library is modelled where it is used: searching and sorting, addresses and their texts, strings,
  number parsing, \<open>tokio\<close> reads and writes.

  \<^bold>\<open>The theories.\<close>

  \<^item> \<open>Ech_Prelude\<close>, \<open>Rust_Str\<close>, \<open>Ip_Addr\<close>: results, stateful operations and what they preserve,
    big-endian digits; \<open>str\<close>; parsing and printing of IP addresses, with \<open>parse_show_ip\<close>.
  \<^item> \<open>Client_Config\<close>, \<open>Client_Auth\<close>, \<open>Client_Main\<close> (\<open>config.rs\<close>, \<open>auth.rs\<close>, \<open>main.rs\<close>): the configuration
    records, the user store, and the start of the client. A client that starts has a usable pool
    for every user.
  \<^item> \<open>Client_Run\<close> (\<open>serve\<close> of the two ingresses, \<open>run\<close> and \<open>main\<close> of the client, \<open>connect_direct\<close>,
    \<open>tcp_util.rs\<close>): the accept loops and the \<open>select!\<close> over them and Ctrl-C, as a function of the
    events in their order. What is accepted is handled until the event that ends the client.
  \<^item> \<open>China_Ip\<close> (\<open>china_ip.rs\<close>): loading, sorting, merging and searching the ranges. The lookup
    after loading is membership in some line of the files. Locales: \<open>key_search\<close> for the search of
    the standard library and the contract of the unstable sort.
  \<^item> \<open>Ech_Dns\<close> (the codec in \<open>ech_tls.rs\<close>): the query and the parser of untrusted responses, with
    every index checked. No input makes it read out of range; well-formed answers round trip.
  \<^item> \<open>Ech_Tls\<close> (\<open>ech_tls.rs\<close>, \<open>ech_connector.rs\<close>): bootstrap, the two caches, strict and fallback
    connections, over a world that logs network events. Strict means ECH or nothing. Locale:
    \<open>expiring_cache\<close>.
  \<^item> \<open>Ech_Service\<close> (the rest of \<open>ech_connector.rs\<close>): the connector as the service that \<open>tonic\<close> calls for
    every connection of a channel, and its stream. A channel never leaves the configuration that it
    was connected with; the stream is the TLS stream inside it.
  \<^item> \<open>Grpc_Pool\<close> (\<open>grpc_pool.rs\<close>): registry, round robin, stream permits.
  \<^item> \<open>Router\<close> (\<open>router.rs\<close>): direct or through the own backend of the user.
  \<^item> \<open>Socket\<close>: a local connection as bytes cut into segments. \<open>segment_blind\<close> operations cannot see
    the cuts; both handlers are built from such operations.
  \<^item> \<open>Ingress_Socks5\<close>, \<open>Ingress_Http\<close>, \<open>Http_Rewrite\<close> (\<open>ingress_socks5.rs\<close>, \<open>ingress_http.rs\<close>): one
    connection from its first byte to the relay it asks for. A relay starts for exactly the
    encoded handshakes of authenticated users; refusals are answered as the protocol says; the
    rewritten HTTP request parses back.
  \<^item> \<open>Tunnel_Proto\<close>, \<open>Tunnel_Task\<close>, \<open>Client_Tunnel\<close>, \<open>Server_Tunnel\<close>, \<open>Tunnel_End_To_End\<close> (\<open>tunnel.proto\<close>,
    \<open>tunnel.rs\<close>, \<open>service.rs\<close>): opening as functions; relaying as step relations of the loop and
    the reading task of each side, in which every await point is a state and a step is what the
    code does between two of them, with the bounded channels, the idle clock and \<open>abort\<close>. The
    channel and the reading task are the same code on both sides: \<open>Tunnel_Task\<close> has them once, with
    their invariants in the locale \<open>reader_task\<close>, interpreted for the frames of each side.
    Invariants give the order of bytes; together the two sides refine a two-way byte pipe
    (\<open>duplex_step\<close>), close a direction only when it is complete, and can always deliver what was
    read (\<open>tunnel_can_deliver\<close>). Locale: \<open>target_policy\<close>.
  \<^item> \<open>Tunnel_Pool\<close> (\<open>relay_grpc\<close> of \<open>tunnel.rs\<close> with \<open>grpc_pool.rs\<close>): any number of tunnels on one pool,
    whose semaphore and counter they share, as one step relation; each step of a tunnel goes on
    from where it waited. The permits bound the tunnels, the channels are used evenly, and no tunnel
    disturbs another; but the connections left open after errors have no bound.
  \<^item> \<open>Server_Config\<close>, \<open>Server_Policy\<close>, \<open>Server_Main\<close> (\<open>config.rs\<close>, \<open>auth.rs\<close>, \<open>policy.rs\<close>, \<open>main.rs\<close> of the
    server): configuration with its environment, tokens, the policy, the start of the server.

  \<^bold>\<open>Interaction.\<close> A handler gives a \<open>relay_plan\<close>; \<open>RelayGrpc\<close> names the pool from which
  \<open>relay_grpc_open\<close> takes a permit and a channel and on which it makes the call, whose first frame
  is what \<open>open_phase\<close> of the server answers; the relays of \<open>Tunnel_End_To_End\<close> then run. The
  properties at the end of this theory follow one IP address through all of these, and a connection
  of either ingress from its first byte to the bytes that its target gets. (Of a persistent HTTP
  connection the target gets the later requests as they are, credentials included.)

  \<^bold>\<open>Bounds.\<close> No definition needs fuel: loops over input decrease what is left to read, the header
  loop decreases the distance to 64 KiB, the name parser the bytes after its offset. \<open>usize\<close> is
  64 bits (\<open>usize_limit\<close>). A channel holds 64 frames. Blocking is a guard of a step, or \<open>None\<close>
  where an operation waits.

  \<^bold>\<open>Simplifications.\<close> The
  transport between the sides may stop at any time but keeps the order. Scope identifiers of
  IPv6 socket addresses are read and dropped. Log messages are left out.

  \<^bold>\<open>Not modelled.\<close> Command-line parsing (\<open>clap\<close>) and logging; panics of the listener tasks, which
  \<open>run\<close> turns into an error; \<open>proto.rs\<close> and the build scripts
  (generated code); the wire encoding of frames (\<open>prost\<close>); \<open>copy_bidirectional\<close> of \<open>tokio\<close>, a
  parameter of \<open>relay_direct\<close>.
\<close>

section \<open>From the SOCKS request to the target\<close>

fun socks_addr_ip :: "socks_addr \<Rightarrow> ip_addr option" where
  "socks_addr_ip (SocksV4 ip) = Some (V4 ip)"
| "socks_addr_ip (SocksV6 ip) = Some (V6 ip)"
| "socks_addr_ip (SocksDomain d) = None"

lemma socks_host_ip: "socks_addr_ip addr = Some ip \<Longrightarrow> socks_addr_host addr = show_ip ip"
  by (cases addr) auto

lemma u16_try_from_port [simp]: "u16_try_from (ucast (port :: u16)) = Some port"
proof -
  have "unat (ucast port :: u32) = unat port"
    using unat_u16_less [of port] by (simp add: unsigned_ucast_eq take_bit_nat_eq_self)
  then show ?thesis using unat_u16_less [of port] by (simp add: u16_try_from_def)
qed

lemma connect_any_single: "snd (connect_any conn policy [addr]) = [addr]"
  by (simp add: connect_any_def split: connect_outcome.split option.split sum.split)

text \<open>
  An IP address that a SOCKS client asks for is the address the server dials: the client
  prints it into the Open frame, the server parses it back, asks no resolver, and dials exactly
  that address and port, or nothing when its policy denies the address.
\<close>

theorem socks_ip_is_dialled:
  assumes "socks_addr_ip addr = Some ip" "port \<noteq> 0" "port_allowed policy port"
  shows "oo_dialled (open_phase env policy (Got (open_frame (socks_addr_host addr) port first))) =
    (if pl_deny_private_ip policy \<and> ip_reserved ip then [] else [\<lparr>sa_ip = ip, sa_port = port\<rparr>])"
proof -
  have resolve: "resolve_target (se_dns env) policy (socks_addr_host addr) (ucast port) =
      (if pl_deny_private_ip policy \<and> ip_reserved ip then Inl (AddressDenied ip)
       else Inr [\<lparr>sa_ip = ip, sa_port = port\<rparr>])"
    using resolve_show_ip [OF u16_try_from_port assms(2,3)] socks_host_ip [OF assms(1)] by simp
  show ?thesis
    using connect_any_single [of "se_connect env" policy "\<lparr>sa_ip = ip, sa_port = port\<rparr>"]
    by (auto simp: open_phase_def open_frame_def open_target_def resolve refused_def Let_def
        split: sum.split prod.split option.split)
qed

definition demo_policy :: policy where
  "demo_policy = \<lparr>pl_connect_timeout = 8000, pl_deny_private_ip = True, pl_allowed_ports = None\<rparr>"

definition demo_srv_env :: srv_env where
  "demo_srv_env = \<lparr>se_dns = (\<lambda>_. Inl ''down''), se_connect = (\<lambda>_. Connected None), se_write_first = (\<lambda>_ _. None)\<rparr>"

theorem socks_ip_is_dialled_witness:
  "oo_dialled (open_phase demo_srv_env demo_policy (Got (open_frame (show_ipv4 0x08080808) 443 []))) =
     [\<lparr>sa_ip = V4 0x08080808, sa_port = 443\<rparr>]"
proof -
  have "port_allowed demo_policy 443" "pl_deny_private_ip demo_policy" "\<not> ip_reserved (V4 0x08080808)"
    by code_simp+
  with socks_ip_is_dialled [of "SocksV4 0x08080808" "V4 0x08080808" 443 demo_policy demo_srv_env "[]"]
  show ?thesis by simp
qed

section \<open>From the SOCKS handshake to the relay\<close>

text \<open>
  The call of the client on a channel, answered by the service method of the server: the token
  travels as the metadata value \<open>authorization\<close>, and the answer is the first frame of the
  response. \<open>to_value\<close> and \<open>to_str\<close> are the conversions of \<open>MetadataValue\<close>.
\<close>

definition backend_env ::
    "('m \<Rightarrow> string option) \<Rightarrow> (string \<Rightarrow> 'm option) \<Rightarrow> token_auth \<Rightarrow> srv_env \<Rightarrow> policy \<Rightarrow> 'ch call_env" where
  "backend_env to_str to_value tokens env policy =
     \<lparr>ce_metadata_ok = (\<lambda>token. to_value token \<noteq> None),
      ce_call = (\<lambda>channel token frame.
        case tunnel_entry to_str (\<lambda>key. if key = ''authorization'' then to_value token else None) tokens env policy
               (Got frame) of
          Inl (Unauthenticated message) \<Rightarrow> Inl message
        | Inr out \<Rightarrow> Inr (case oo_frames out of [] \<Rightarrow> StreamEnd | f # _ \<Rightarrow> Frame f))\<rparr>"

lemma backend_opens:
  assumes "ce_call (backend_env to_str to_value tokens env policy) ch (''Bearer '' @ token) frame =
      Inr (Frame (Some (S_OpenResult True answer)))"
    and "\<And>x v y. to_value x = Some v \<Longrightarrow> to_str v = Some y \<Longrightarrow> y = x"
  shows "str_trim token \<in> ta_tokens tokens"
    "\<exists>fs. oo_frames (open_phase env policy (Got frame)) = Some (S_OpenResult True answer) # fs"
proof -
  from assms(1) obtain principal where
    auth: "authenticate_token to_str (\<lambda>key. if key = ''authorization'' then to_value (''Bearer '' @ token) else None) tokens =
        Inr principal"
    and frames: "\<exists>fs. oo_frames (open_phase env policy (Got frame)) = Some (S_OpenResult True answer) # fs"
    by (auto simp: backend_env_def tunnel_entry_def res_simps simp del: append_Cons
        split: sum.splits status.splits list.splits)
  from auth obtain v y where "to_value (''Bearer '' @ token) = Some v" "to_str v = Some y"
    "str_trim (case (case strip_prefix ''Bearer '' y of Some t \<Rightarrow> Some t | None \<Rightarrow> strip_prefix ''bearer '' y) of
       Some t \<Rightarrow> t | None \<Rightarrow> y) \<in> ta_tokens tokens"
    by (auto simp: authenticate_token_def res_simps Let_def simp del: append_Cons split: if_splits)
  moreover from this(1,2) have "y = ''Bearer '' @ token" by (rule assms(2))
  ultimately show "str_trim token \<in> ta_tokens tokens" by (simp only: strip_prefix_append option.case)
  from frames show "\<exists>fs. oo_frames (open_phase env policy (Got frame)) = Some (S_OpenResult True answer) # fs" .
qed

text \<open>What holds of every tunnel that a client opens at the server.\<close>

lemma tunnel_opens:
  assumes "relay_grpc_open (backend_env to_str to_value tokens env policy) pool host port first = Some (Inr ch, pool')"
    and "\<And>x v y. to_value x = Some v \<Longrightarrow> to_str v = Some y \<Longrightarrow> y = x"
  shows "\<exists>target. str_trim (pool_auth_token pool) \<in> ta_tokens tokens \<and>
    oo_target (open_phase env policy (Got (open_frame host port first))) = Some (target, first) \<and>
    port_allowed policy port \<and> addr_allowed policy target \<and>
    (\<forall>ip. parse_ip host = Some ip \<longrightarrow> target = \<lparr>sa_ip = ip, sa_port = port\<rparr>) \<and>
    (\<forall>c s. (tunnel_step idle)\<^sup>*\<^sup>* (tunnel_start first now) (c, s) \<longrightarrow> prefix (rl_written s) (first @ tk_read c))"
proof -
  from relay_grpc_open_Inr [OF assms(1)] obtain answer where
    "ce_call (backend_env to_str to_value tokens env policy) ch (''Bearer '' @ pool_auth_token pool)
       (open_frame host port first) = Inr (Frame (Some (S_OpenResult True answer)))" by blast
  note call = this
  have token: "str_trim (pool_auth_token pool) \<in> ta_tokens tokens"
    using call assms(2) by (rule backend_opens(1))
  have "\<exists>fs. oo_frames (open_phase env policy (Got (open_frame host port first))) = Some (S_OpenResult True answer) # fs"
    using call assms(2) by (rule backend_opens(2))
  then obtain fs where "oo_frames (open_phase env policy (Got (open_frame host port first))) =
      Some (S_OpenResult True answer) # fs" by blast
  from open_phase_opened [OF this] obtain addrs target dialled where
    target: "resolve_target (se_dns env) policy host (ucast port) = Inr addrs"
      "connect_any (se_connect env) policy addrs = (Inr target, dialled)"
      "oo_target (open_phase env policy (Got (open_frame host port first))) = Some (target, first)"
    by (auto simp: open_frame_def)
  have dialled: "target \<in> set addrs" "addr_allowed policy target"
    using pol.dialled_allowed [OF target(1), of "se_connect env" None] pol.peer_allowed [OF target(2) [unfolded connect_any_def]]
      connect_loop_result [OF target(2) [unfolded connect_any_def]]
      connect_loop_dialled [of "se_connect env" "check_connected_addr policy" None addrs] target(2)
    by (auto simp: connect_any_def list_all_iff dest!: set_mono_prefix)
  moreover have "port_allowed policy port" using target(1) by (auto simp: resolve_target_Inr)
  moreover have "target = \<lparr>sa_ip = ip, sa_port = port\<rparr>" if "parse_ip host = Some ip" for ip
    using target(1) dialled(1) that by (auto simp: resolve_target_Inr)
  moreover have "prefix (rl_written s) (first @ tk_read c)"
    if "(tunnel_step idle)\<^sup>*\<^sup>* (tunnel_start first now) (c, s)" for c s
    using tunnel_inv_bytes(1) [OF tunnel_inv_run [OF that]] by simp
  ultimately show ?thesis using token target(3) by blast
qed

text \<open>
  C4. From the first byte of a SOCKS client to the relay: when the handler asks for a tunnel and the
  tunnel opens at the server, then the client has sent the handshake of a user that
  authenticates, the pool is the one of this user's backend, whose token the server knows, and
  the target is an address that the server's policy allows, on an allowed port, the very address
  the client asked for when it gave one; and from then on the target receives, in order, only
  bytes that the client sent after its handshake.
\<close>

theorem socks_tunnel_opens:
  assumes "socks_spawned lookup connect sv conn = (Inr (RelayGrpc b host port first), conn')"
    and "registry_get (rt_pools (se_router sv)) b = Some pool"
    and "relay_grpc_open (backend_env to_str to_value tokens env policy) pool host port first = Some (Inr ch, pool')"
    and "\<And>x v y. to_value x = Some v \<Longrightarrow> to_str v = Some y \<Longrightarrow> y = x"
  shows "\<exists>methods login addr user target.
    pending conn = socks_handshake methods login addr port @ pending conn' \<and>
    socks_user (se_socks_options sv) (se_auth sv) methods login user \<and> b = up_backend user \<and>
    str_trim (pool_auth_token pool) \<in> ta_tokens tokens \<and>
    oo_target (open_phase env policy (Got (open_frame host port first))) = Some (target, []) \<and>
    port_allowed policy port \<and> addr_allowed policy target \<and>
    (\<forall>ip. socks_addr_ip addr = Some ip \<longrightarrow> target = \<lparr>sa_ip = ip, sa_port = port\<rparr>) \<and>
    (\<forall>c s. (tunnel_step idle)\<^sup>*\<^sup>* (tunnel_start first now) (c, s) \<longrightarrow> prefix (rl_written s) (tk_read c))"
proof -
  from socks5_accepted [OF assms(1) [unfolded socks_spawned_def]] obtain methods login addr p user where
    client: "pending conn = socks_handshake methods login addr p @ pending conn'"
      "socks_user (se_socks_options sv) (se_auth sv) methods login user"
    and plan: "socks_outcome lookup connect (se_router sv) user (socks_addr_host addr) p =
      (Inr (RelayGrpc b host port first), socks_reply 0x00)" by blast
  from plan have "decide lookup (se_router sv) user (socks_addr_host addr) p = Inr (Proxy b)"
    and asked: "host = socks_addr_host addr" "p = port" "first = []"
    by (auto simp: socks_outcome_def split: sum.splits route_decision.splits)
  then have user: "b = up_backend user" by (auto dest: decide_proxy)
  have ip: "parse_ip host = Some ip" if "socks_addr_ip addr = Some ip" for ip
    using socks_host_ip [OF that] asked(1) by simp
  have "\<exists>target. str_trim (pool_auth_token pool) \<in> ta_tokens tokens \<and>
      oo_target (open_phase env policy (Got (open_frame host port first))) = Some (target, first) \<and>
      port_allowed policy port \<and> addr_allowed policy target \<and>
      (\<forall>ip. parse_ip host = Some ip \<longrightarrow> target = \<lparr>sa_ip = ip, sa_port = port\<rparr>) \<and>
      (\<forall>c s. (tunnel_step idle)\<^sup>*\<^sup>* (tunnel_start first now) (c, s) \<longrightarrow> prefix (rl_written s) (first @ tk_read c))"
    using assms(3,4) by (rule tunnel_opens)
  with client user asked(2) ip show ?thesis unfolding asked(3) append_Nil by blast
qed

text \<open>
  C5. The same for an HTTP client: when its handler asks for a tunnel and the tunnel opens at the
  server, then the client has sent a complete header with the credentials of a user, the pool is
  the one of this user's backend, whose token the server knows, and the target is an address that
  the server's policy allows, on an allowed port: for an IP address in the authority or absolute
  URI of the request, that address. From then on the target receives, in order, only the rewritten
  request, if it is not a CONNECT, and the bytes that the client sent after its header.
\<close>

theorem http_tunnel_opens:
  assumes "http_spawned lookup connect decode sv conn = (Inr (RelayGrpc b host port first), conn')"
    and "registry_get (rt_pools (se_router sv)) b = Some pool"
    and "relay_grpc_open (backend_env to_str to_value tokens env policy) pool host port first = Some (Inr ch, pool')"
    and "\<And>x v y. to_value x = Some v \<Longrightarrow> to_str v = Some y \<Longrightarrow> y = x"
  shows "\<exists>header request user target.
    pending conn = header @ pending conn' \<and> http_header_ok header \<and> parse_request header = Inr request \<and>
    http_authenticate decode request (se_auth sv) = Inr user \<and> b = up_backend user \<and>
    (if eq_ignore_ascii_case (rp_method request) ''CONNECT''
     then parse_authority (rp_target request) 443 = Inr (host, port) \<and> first = []
     else \<exists>uri. parse_absolute_uri (rp_target request) = Inr uri \<and> host = au_host uri \<and>
       au_port uri = Some port \<and> first = rewrite_absolute_request request uri) \<and>
    str_trim (pool_auth_token pool) \<in> ta_tokens tokens \<and>
    oo_target (open_phase env policy (Got (open_frame host port first))) = Some (target, first) \<and>
    port_allowed policy port \<and> addr_allowed policy target \<and>
    (\<forall>ip. parse_ip host = Some ip \<longrightarrow> target = \<lparr>sa_ip = ip, sa_port = port\<rparr>) \<and>
    (\<forall>c s. (tunnel_step idle)\<^sup>*\<^sup>* (tunnel_start first now) (c, s) \<longrightarrow> prefix (rl_written s) (first @ tk_read c))"
proof -
  from http_accepted [OF assms(1) [unfolded http_spawned_def]] obtain header request user h p f decision where
    client: "pending conn = header @ pending conn' \<and> http_header_ok header \<and> parse_request header = Inr request \<and>
        http_authenticate decode request (se_auth sv) = Inr user"
    and target: "if eq_ignore_ascii_case (rp_method request) ''CONNECT''
       then parse_authority (rp_target request) 443 = Inr (h, p) \<and> f = []
       else \<exists>uri. parse_absolute_uri (rp_target request) = Inr uri \<and> h = au_host uri \<and>
         au_port uri = Some p \<and> f = rewrite_absolute_request request uri"
    and route: "decide lookup (se_router sv) user h p = Inr decision"
      "relay_for connect decision h p f = Inr (RelayGrpc b host port first)" by blast
  from route(2) have "decision = Proxy b" and asked: "h = host" "p = port" "f = first"
    by (auto simp: relay_for_def split: route_decision.splits sum.splits)
  with route(1) have user: "b = up_backend user" by (auto dest: decide_proxy)
  have "\<exists>target. str_trim (pool_auth_token pool) \<in> ta_tokens tokens \<and>
      oo_target (open_phase env policy (Got (open_frame host port first))) = Some (target, first) \<and>
      port_allowed policy port \<and> addr_allowed policy target \<and>
      (\<forall>ip. parse_ip host = Some ip \<longrightarrow> target = \<lparr>sa_ip = ip, sa_port = port\<rparr>) \<and>
      (\<forall>c s. (tunnel_step idle)\<^sup>*\<^sup>* (tunnel_start first now) (c, s) \<longrightarrow> prefix (rl_written s) (first @ tk_read c))"
    using assms(3,4) by (rule tunnel_opens)
  with client user target [unfolded asked] show ?thesis by blast
qed

definition demo_services :: "unit client_services" where
  "demo_services = \<lparr>se_socks_addr = default_socks5_listen, se_socks_options = demo_options,
     se_http_addr = default_http_listen, se_auth = demo_auth, se_router = demo_router RemoteForProxy\<rparr>"

definition demo_resolving :: srv_env where
  "demo_resolving = demo_srv_env\<lparr>se_dns := (\<lambda>_. Inr [\<lparr>sa_ip = V4 0x08080808, sa_port = 80\<rparr>])\<rparr>"

definition demo_pool :: "unit backend_pool" where
  "demo_pool = \<lparr>bp_backend = demo_backend, bp_channels = [()], bp_next = 0, bp_permits = 1\<rparr>"

definition demo_opening :: "((tunnel_error + unit) \<times> unit backend_pool) option" where
  "demo_opening = relay_grpc_open
     (backend_env Some Some \<lparr>ta_tokens = {bc_auth_token demo_backend}\<rparr> demo_resolving demo_policy) demo_pool ''x'' 80 []"

theorem socks_tunnel_opens_witness:
  "\<exists>target. oo_target (open_phase demo_resolving demo_policy (Got (open_frame ''x'' 80 []))) = Some (target, []) \<and>
     addr_allowed demo_policy target \<and> str_trim (bc_auth_token demo_backend) = bc_auth_token demo_backend"
proof -
  have "case demo_opening of Some (Inr ch, pool) \<Rightarrow> True | _ \<Rightarrow> False" by code_simp
  then obtain pool' where run: "demo_opening = Some (Inr (), pool')" by (auto split: option.splits sum.splits)
  have "socks_spawned (\<lambda>_ _. Inl ''down'') (\<lambda>_ _. Inl ''unreachable'') demo_services (demo_socket [demo_bytes @ [22]]) =
      (Inr (RelayGrpc ''b'' ''x'' 80 []), (demo_socket [demo_bytes @ [22]])
        \<lparr>sk_rx := [[22]], sk_tx := login_replies (Some (''u'', ''p'')) @ socks_reply 0x00\<rparr>)"
    using demo_socks_run by (simp add: socks_spawned_def demo_services_def)
  moreover have "registry_get (rt_pools (se_router demo_services)) ''b'' = Some demo_pool"
    by (simp add: demo_services_def demo_router_def registry_get_def demo_pool_def)
  ultimately show ?thesis
    using socks_tunnel_opens [OF _ _ run [unfolded demo_opening_def]] by (fastforce simp: pool_auth_token_def demo_pool_def)
qed

theorem http_tunnel_opens_witness:
  "\<exists>target. oo_target (open_phase demo_resolving demo_policy (Got (open_frame ''x'' 80 []))) = Some (target, []) \<and>
     addr_allowed demo_policy target \<and> bc_auth_token demo_backend \<noteq> [] \<and>
     http_authenticate demo_decode demo_parts demo_users = Inr demo_user"
proof -
  let ?sv = "demo_services\<lparr>se_auth := demo_users\<rparr>"
  have "case demo_opening of Some (Inr ch, pool) \<Rightarrow> True | _ \<Rightarrow> False" by code_simp
  then obtain pool' where run: "demo_opening = Some (Inr (), pool')" by (auto split: option.splits sum.splits)
  have "http_spawned (\<lambda>_ _. Inl ''down'') (\<lambda>_ _. Inl ''unreachable'') demo_decode ?sv demo_client =
      (Inr (RelayGrpc ''b'' ''x'' 80 []), demo_client\<lparr>sk_rx := [[22]], sk_tx := reply_200\<rparr>)"
    using demo_http_run by (simp add: http_spawned_def demo_services_def)
  moreover have "registry_get (rt_pools (se_router ?sv)) ''b'' = Some demo_pool"
    by (simp add: demo_services_def demo_router_def registry_get_def demo_pool_def)
  moreover have "bc_auth_token demo_backend \<noteq> []" by code_simp
  ultimately show ?thesis
    using http_tunnel_opens [OF _ _ run [unfolded demo_opening_def]] demo_login by fastforce
qed

text \<open>
  C6. Only the first request of an HTTP connection that goes through a backend is rewritten, when it is
  not a CONNECT. From then on the target gets the rewritten first request followed by nothing but the
  bytes that the client sent after its first header, exactly as they are, in every run of the
  tunnel; and all of them can reach it, however many they are and whatever they say: another
  request is sent on with its proxy credentials.
\<close>

theorem later_requests_unrewritten:
  assumes "http_spawned lookup connect decode sv conn = (Inr (RelayGrpc b host port first), conn')" "first \<noteq> []"
  shows "\<exists>header request uri.
    pending conn = header @ pending conn' \<and> http_header_ok header \<and> parse_request header = Inr request \<and>
    parse_absolute_uri (rp_target request) = Inr uri \<and> first = rewrite_absolute_request request uri \<and>
    (\<forall>c s. (tunnel_step idle)\<^sup>*\<^sup>* (tunnel_start first now) (c, s) \<and> prefix (tk_read c) (pending conn') \<longrightarrow>
       prefix (rl_written s) (rewrite_absolute_request request uri @ pending conn')) \<and>
    (\<exists>c s. (tunnel_step idle)\<^sup>*\<^sup>* (tunnel_start first now) (c, s) \<and> tk_read c = pending conn' \<and>
       rl_written s = rewrite_absolute_request request uri @ pending conn')"
proof -
  from http_accepted [OF assms(1) [unfolded http_spawned_def]] obtain header request h p f decision where
    client: "pending conn = header @ pending conn'" "http_header_ok header" "parse_request header = Inr request"
    and target: "if eq_ignore_ascii_case (rp_method request) ''CONNECT''
       then parse_authority (rp_target request) 443 = Inr (h, p) \<and> f = []
       else \<exists>uri. parse_absolute_uri (rp_target request) = Inr uri \<and> h = au_host uri \<and>
         au_port uri = Some p \<and> f = rewrite_absolute_request request uri"
    and relay: "relay_for connect decision h p f = Inr (RelayGrpc b host port first)" by blast
  from relay have "f = first" by (auto simp: relay_for_def split: route_decision.splits sum.splits)
  with target assms(2) obtain uri where
    uri: "parse_absolute_uri (rp_target request) = Inr uri" "first = rewrite_absolute_request request uri"
    by (auto split: if_splits)
  moreover have "prefix (rl_written s) (first @ pending conn')"
    if "(tunnel_step idle)\<^sup>*\<^sup>* (tunnel_start first now) (c, s)" "prefix (tk_read c) (pending conn')" for c s
    using tunnel_inv_bytes(1) [OF tunnel_inv_run [OF that(1)]] that(2) by (auto elim: prefix_order.trans)
  moreover have "\<exists>c s. (tunnel_step idle)\<^sup>*\<^sup>* (tunnel_start first now) (c, s) \<and> tk_read c = pending conn' \<and>
      rl_written s = first @ pending conn'" by (rule bytes_reach_target)
  ultimately show ?thesis using client by blast
qed

definition demo_absolute :: "u8 list" where
  "demo_absolute = bytes_of_str (''GET http://x/ HTTP/1.1'' @ crlf @ ''Proxy-Authorization: Basic dTpw'' @ crlf @ crlf)"

definition demo_origin :: "u8 list" where
  "demo_origin = bytes_of_str (''GET / HTTP/1.1'' @ crlf @ ''Host: x'' @ crlf @ crlf)"

lemma demo_absolute_outcome:
  "http_outcome (\<lambda>_ _. Inl ''down'') (\<lambda>_ _. Inl ''unreachable'') demo_decode demo_users (demo_router RemoteForProxy) demo_absolute =
     (Inr (RelayGrpc ''b'' ''x'' 80 demo_origin), [])"
  by code_simp

theorem later_requests_unrewritten_witness:
  "\<exists>c s. (tunnel_step 300)\<^sup>*\<^sup>* (tunnel_start demo_origin 0) (c, s) \<and> rl_written s = demo_origin @ demo_absolute \<and>
     sublist (bytes_of_str ''Proxy-Authorization: Basic dTpw'') (rl_written s)"
proof -
  let ?sv = "demo_services\<lparr>se_auth := demo_users\<rparr>"
  let ?conn = "demo_socket [demo_absolute @ demo_absolute]"
  have "http_header_ok demo_absolute" unfolding http_header_ok_def by code_simp
  then have "read_header ?conn = (Inr demo_absolute, ?conn\<lparr>sk_rx := [demo_absolute]\<rparr>)"
    by (intro read_header_piece) (simp_all add: demo_socket_def)
  from http_handle_header [OF this, of "\<lambda>_ _. Inl ''down''" "\<lambda>_ _. Inl ''unreachable''" demo_decode demo_users "demo_router RemoteForProxy"]
  have run: "http_spawned (\<lambda>_ _. Inl ''down'') (\<lambda>_ _. Inl ''unreachable'') demo_decode ?sv ?conn =
      (Inr (RelayGrpc ''b'' ''x'' 80 demo_origin), ?conn\<lparr>sk_rx := [demo_absolute]\<rparr>)"
    by (simp add: http_spawned_def demo_services_def demo_absolute_outcome demo_socket_def)
  have later: "pending (?conn\<lparr>sk_rx := [demo_absolute]\<rparr>) = demo_absolute" by (simp add: pending_def)
  have "demo_origin \<noteq> []" by code_simp
  from later_requests_unrewritten [OF run this, of 300 0] obtain c s where
    "(tunnel_step 300)\<^sup>*\<^sup>* (tunnel_start demo_origin 0) (c, s)" "rl_written s = demo_origin @ demo_absolute"
    unfolding later by metis
  moreover have "sublist (bytes_of_str ''Proxy-Authorization: Basic dTpw'') (demo_origin @ demo_absolute)"
    unfolding demo_absolute_def bytes_of_str_def map_append by (meson sublist_append_leftI sublist_append_rightI sublist_order.order_trans)
  ultimately show ?thesis by (intro exI [of _ c] exI [of _ s]) simp
qed

end
